theory Spec2Isabelle
  imports Complex_Main "HOL-Library.Word"
begin

unbundle bit_operations_syntax

section \<open>Floating point (the scan driver)\<close>

text \<open>
  The scan driver (\<^verbatim>\<open>offset.cc\<close>, \<^verbatim>\<open>c0_detect.cc\<close>, \<^verbatim>\<open>util.cc\<close>) computes with
  \<^verbatim>\<open>float\<close> and \<^verbatim>\<open>double\<close>.  A finite value of either type is the real number it denotes.
  Every arithmetic operation and every narrowing conversion yields the exact result rounded
  to the nearest representable number, ties to the even significand: 24 significant bits
  and a smallest step of \<open>2^-149\<close> for \<^verbatim>\<open>float\<close>, 53 bits and \<open>2^-1074\<close> for \<^verbatim>\<open>double\<close>.
  Results beyond the largest finite number are not modelled; a NaN result is an explicit
  \<open>None\<close> where the code can produce one from finite input.
\<close>

definition pow2 :: "int \<Rightarrow> real" where
  "pow2 e = (if 0 \<le> e then 2 ^ nat e else 1 / 2 ^ nat (- e))"

definition round_even :: "real \<Rightarrow> int" where
  "round_even x =
     (let f = \<lfloor>x\<rfloor>
      in if x - real_of_int f < 1 / 2 then f
         else if x - real_of_int f > 1 / 2 then f + 1
         else if even f then f else f + 1)"

text \<open>
  The binary exponent of a positive number, \<open>\<lfloor>log\<^sub>2 x\<rfloor>\<close>, found by halving or doubling at
  most \<open>n\<close> times.
\<close>

fun binade :: "nat \<Rightarrow> real \<Rightarrow> int" where
  "binade 0 x = 0"
| "binade (Suc n) x =
     (if 2 \<le> x then binade n (x / 2) + 1
      else if x < 1 then binade n (2 * x) - 1
      else 0)"

text \<open>Rounding to \<open>p\<close> significant bits, with steps no finer than \<open>2^emin\<close>.\<close>

definition round_to :: "nat \<Rightarrow> int \<Rightarrow> real \<Rightarrow> real" where
  "round_to p emin x =
     (if x = 0 then 0
      else let ulp = pow2 (max (binade 1100 \<bar>x\<bar> - (int p - 1)) emin)
           in real_of_int (round_even (x / ulp)) * ulp)"

definition to_float :: "real \<Rightarrow> real" where
  "to_float = round_to 24 (- 149)"

definition to_double :: "real \<Rightarrow> real" where
  "to_double = round_to 53 (- 1074)"

text \<open>The largest finite \<^verbatim>\<open>float\<close>; up to it the narrowing of a \<^verbatim>\<open>double\<close> does not overflow.\<close>

definition FLT_MAX :: real where
  "FLT_MAX = (2 - 1 / 2 ^ 23) * 2 ^ 127"

section \<open>Shared constants (kal\_types.h)\<close>

text \<open>
  \<open>GSM_RATE\<close> is the exact quotient; the constant of the code is the \<^verbatim>\<open>double\<close> next to it,
  \<open>to_double GSM_RATE\<close>.  \<open>FCCH_NOMINAL\<close> is the expression \<^verbatim>\<open>(float)(GSM_RATE / 4)\<close> of both
  drivers, the \<^verbatim>\<open>float\<close> 67708.3359375.
\<close>

definition GSM_RATE :: real where
  "GSM_RATE = 1625000 / 6"

definition FCCH_NOMINAL :: real where
  "FCCH_NOMINAL = to_float (to_double (to_double GSM_RATE / 4))"

definition FCCH_OFFSET_MAX :: real where
  "FCCH_OFFSET_MAX = 40000"

section \<open>Statistics helpers (util.cc)\<close>

text \<open>
  \<^verbatim>\<open>sort\<close> is \<^verbatim>\<open>qsort\<close> with the comparison \<^verbatim>\<open>float_comp\<close>; on finite values that is
  the ascending sort of the first \<open>len\<close> entries, the rest of the array staying in place.
\<close>

definition sort_floats :: "real list \<Rightarrow> nat \<Rightarrow> real list" where
  "sort_floats data len = sort (take len data) @ drop len data"

text \<open>
  The accumulation loop of \<^verbatim>\<open>avg\<close>: \<^verbatim>\<open>sum += data[i]; sum_sq += data[i] * data[i]\<close> for
  \<open>i\<close> from the current index up to \<open>len\<close>.  The accumulators are \<^verbatim>\<open>double\<close>, the data
  \<^verbatim>\<open>float\<close>: the product is formed in \<^verbatim>\<open>float\<close> and widened afterwards.
\<close>

fun avg_loop :: "real list \<Rightarrow> real \<times> real \<Rightarrow> real \<times> real" where
  "avg_loop [] acc = acc"
| "avg_loop (d # ds) (sm, sum_sq) =
     avg_loop ds (to_double (sm + d), to_double (sum_sq + to_float (d * d)))"

text \<open>
  \<^verbatim>\<open>double avg(float *data, int len, double *stddev)\<close>.  The array is the list \<open>data\<close>
  (the memory from the pointer on).  Reading past its end, and the quotient by a \<open>len\<close> that
  is not positive, are the \<open>None\<close> results.  The result is the pair (mean, value stored
  through \<^verbatim>\<open>stddev\<close>); the second component is \<open>None\<close> when \<^verbatim>\<open>sqrt\<close> gets a negative argument
  and returns NaN.  A caller that passes a null \<^verbatim>\<open>stddev\<close> ignores the second component.
\<close>

definition avg :: "real list \<Rightarrow> int \<Rightarrow> (real \<times> real option) option" where
  "avg data len =
     (if len \<le> 0 \<or> int (length data) < len then None
      else
        let (sm, sum_sq) = avg_loop (take (nat len) data) (0, 0);
            mean = to_double (sm / real_of_int len);
            v = to_double (to_double (sum_sq / real_of_int len) - to_double (mean * mean))
        in Some (mean, if v < 0 then None else Some (to_double (sqrt v))))"

section \<open>Offset detection (offset.cc)\<close>

definition TARGET_COUNT :: nat where
  "TARGET_COUNT = 100"

definition MAX_ITERATIONS :: nat where
  "MAX_ITERATIONS = 500"

text \<open>
  What one pass of the capture loop receives from the radio and the detector: an exit
  request seen at one of the \<^verbatim>\<open>g_kal_exit_req\<close> tests, a failed \<^verbatim>\<open>fill\<close>, or the outcome of
  \<^verbatim>\<open>scan\<close> (its return value and the \<^verbatim>\<open>float\<close> it stored in \<^verbatim>\<open>offset\<close>).
\<close>

datatype scan_event = ExitRequested | FillFailed | TuneFailed | Scanned bool real

record od_state =
  offsets :: "real list"
  iterations :: nat
  notfound :: nat

text \<open>
  The body of \<^verbatim>\<open>if (l->scan(...))\<close>: the FOUND branch computes
  \<^verbatim>\<open>offset - (float)(GSM_RATE / 4) - tuner_error\<close> in \<^verbatim>\<open>float\<close> and records the result when it
  passes the sanity check, the NOT FOUND branch counts.  \<open>offsets\<close> holds the \<open>count\<close> entries
  stored so far, in arrival order.
\<close>

definition record_scan :: "real \<Rightarrow> bool \<Rightarrow> real \<Rightarrow> od_state \<Rightarrow> od_state" where
  "record_scan tuner_error found raw st =
     (if found then
        (let offset = to_float (to_float (raw - FCCH_NOMINAL) - tuner_error) in
         if \<bar>offset\<bar> < FCCH_OFFSET_MAX then st\<lparr>offsets := offsets st @ [offset]\<rparr>
         else st)
      else st\<lparr>notfound := notfound st + 1\<rparr>)"

datatype od_outcome = Collected od_state | Cancelled od_state | SourceFillFailed

text \<open>
  The main loop \<^verbatim>\<open>while (count < TARGET_COUNT && iterations < MAX_ITERATIONS)\<close>.  Every
  pass consumes one event; \<open>None\<close> says that the list of events ended while the loop was
  still running.
\<close>

fun offset_loop :: "real \<Rightarrow> scan_event list \<Rightarrow> od_state \<Rightarrow> od_outcome option" where
  "offset_loop tuner_error evs st =
     (if length (offsets st) < TARGET_COUNT \<and> iterations st < MAX_ITERATIONS then
        (case evs of
           [] \<Rightarrow> None
         | ExitRequested # _ \<Rightarrow> Some (Cancelled st)
         | FillFailed # _ \<Rightarrow> Some SourceFillFailed
         | TuneFailed # _ \<Rightarrow> Some SourceFillFailed
         | Scanned found raw # rest \<Rightarrow>
             offset_loop tuner_error rest
               (record_scan tuner_error found raw (st\<lparr>iterations := iterations st + 1\<rparr>)))
      else Some (Collected st))"

declare offset_loop.simps [simp del]

text \<open>
  The values printed after the loop.  \<open>stddev\<close> is \<open>None\<close> for NaN, \<open>total_ppm\<close> is \<open>None\<close> for
  the quotient by a centre frequency of 0.
\<close>

record od_report =
  avg_offset :: real
  stddev :: "real option"
  min_offset :: real
  max_offset :: real
  total_ppm :: "real option"

text \<open>
  The analysis after the loop, for \<open>count\<close> collected offsets (\<open>count = 0\<close> is the
  ``No valid FCCH bursts'' return of \<open>-1\<close>, here \<open>None\<close>).
\<close>

definition offset_analysis :: "real list \<Rightarrow> int \<Rightarrow> real \<Rightarrow> od_report option" where
  "offset_analysis offs hz_adjust center_freq =
     (let count = length offs in
      if count = 0 then None
      else
        let sorted = sort_floats offs count;
            threshold = (if count \<ge> 10 then count div 10 else 0)
        in case avg (drop threshold sorted) (int (count - 2 * threshold)) of
             None \<Rightarrow> None
           | Some (mean, sd) \<Rightarrow>
               Some \<lparr>avg_offset = mean, stddev = sd,
                     min_offset = sorted ! threshold,
                     max_offset = sorted ! (count - threshold - 1),
                     total_ppm =
                       (if center_freq = 0 then None
                        else Some (to_double
                               (to_double (to_double (mean + real_of_int hz_adjust) / center_freq)
                                  * 1000000)))\<rparr>)"

datatype od_result = Report od_report | NoBursts | CleanExit | FillError

definition offset_detect :: "int \<Rightarrow> real \<Rightarrow> real \<Rightarrow> scan_event list \<Rightarrow> od_result option" where
  "offset_detect hz_adjust tuner_error center_freq evs =
     (case offset_loop tuner_error evs \<lparr>offsets = [], iterations = 0, notfound = 0\<rparr> of
        None \<Rightarrow> None
      | Some SourceFillFailed \<Rightarrow> Some FillError
      | Some (Cancelled st) \<Rightarrow> Some CleanExit
      | Some (Collected st) \<Rightarrow>
          (case offset_analysis (offsets st) hz_adjust center_freq of
             None \<Rightarrow> Some NoBursts
           | Some r \<Rightarrow> Some (Report r)))"

section \<open>Band scan (c0\_detect.cc)\<close>

definition MAX_ARFCN :: nat where
  "MAX_ARFCN = 2048"

definition NOTFOUND_MAX :: nat where
  "NOTFOUND_MAX = 10"

text \<open>
  The band tables (\<^verbatim>\<open>first_chan\<close>, \<^verbatim>\<open>next_chan\<close>) are not part of this development: a band
  is the list \<open>chans\<close> of the channel numbers that \<^verbatim>\<open>first_chan\<close> and \<^verbatim>\<open>next_chan\<close> enumerate
  before \<^verbatim>\<open>next_chan\<close> returns a negative number.  \<open>power\<close> is the array \<^verbatim>\<open>power[MAX_ARFCN]\<close>.
\<close>

datatype sweep_event = SweepExit | SweepTuneFailed | SweepFillFailed | Measured real

datatype sweep_outcome = Swept "nat \<Rightarrow> real" | SweepCancelled | SweepError

text \<open>
  Pass 1: one event per channel below \<^verbatim>\<open>MAX_ARFCN\<close>; \<open>Measured n\<close> is the L2 norm, a
  \<^verbatim>\<open>double\<close>.
\<close>

fun power_sweep :: "nat list \<Rightarrow> sweep_event list \<Rightarrow> (nat \<Rightarrow> real) \<Rightarrow> sweep_outcome option" where
  "power_sweep [] evs pwr = Some (Swept pwr)"
| "power_sweep (i # rest) evs pwr =
     (if i \<ge> MAX_ARFCN then power_sweep rest evs pwr
      else
        (case evs of
           [] \<Rightarrow> None
         | SweepExit # _ \<Rightarrow> Some SweepCancelled
         | SweepTuneFailed # _ \<Rightarrow> Some SweepError
         | SweepFillFailed # _ \<Rightarrow> Some SweepError
         | Measured n # evs' \<Rightarrow> power_sweep rest evs' (pwr(i := n))))"

text \<open>
  The copy loop \<^verbatim>\<open>spower[chan_count++] = (float)power[i]\<close>, which narrows each power to
  \<^verbatim>\<open>float\<close>, the sort and the threshold
  \<^verbatim>\<open>a = avg(spower, chan_count - 4 * chan_count / 10, 0)\<close>.  \<open>None\<close> is a write past the end of
  \<^verbatim>\<open>spower[MAX_ARFCN]\<close>.
\<close>

definition spower_of :: "nat list \<Rightarrow> (nat \<Rightarrow> real) \<Rightarrow> real list" where
  "spower_of chans pwr = map (\<lambda>i. to_float (pwr i)) (filter (\<lambda>i. i < MAX_ARFCN) chans)"

definition detect_threshold :: "nat list \<Rightarrow> (nat \<Rightarrow> real) \<Rightarrow> real option" where
  "detect_threshold chans pwr =
     (let spower = spower_of chans pwr;
          chan_count = length spower
      in if chan_count > MAX_ARFCN then None
         else if chan_count > 0 then
           (case avg (sort_floats spower chan_count)
                   (int chan_count - 4 * int chan_count div 10) of
              None \<Rightarrow> None
            | Some (mean, sd) \<Rightarrow> Some mean)
         else Some 0)"

record c0_state =
  found_count :: nat
  notfound_count :: nat
  min_max :: "(real \<times> real) option"
  found :: "(nat \<times> real) list"
  scanned :: "nat list"

text \<open>
  What pass 2 does with the result \<open>r\<close> and \<open>offset\<close> of \<^verbatim>\<open>detector->scan\<close> on channel \<open>i\<close>;
  \<^verbatim>\<open>effective_offset = offset - (float)(GSM_RATE / 4)\<close> is a \<^verbatim>\<open>float\<close> difference.
  The Boolean says whether \<open>i\<close> moves on to \<^verbatim>\<open>next_chan(i, bi)\<close>.  \<open>scanned\<close> logs the channels
  handed to \<^verbatim>\<open>scan\<close>, \<open>found\<close> the lines printed for detected channels.
\<close>

definition c0_scan_step :: "nat \<Rightarrow> bool \<Rightarrow> real \<Rightarrow> c0_state \<Rightarrow> bool \<times> c0_state" where
  "c0_scan_step i r offset st0 =
     (let st = st0\<lparr>scanned := scanned st0 @ [i]\<rparr>;
          effective_offset = to_float (offset - FCCH_NOMINAL)
      in if r \<and> \<bar>effective_offset\<bar> < FCCH_OFFSET_MAX then
           (True, st\<lparr>min_max :=
                      (case min_max st of
                         Some (mn, mx) \<Rightarrow>
                           (if found_count st \<noteq> 0
                            then Some (min mn effective_offset, max mx effective_offset)
                            else Some (effective_offset, effective_offset))
                       | None \<Rightarrow> Some (effective_offset, effective_offset)),
                    found_count := found_count st + 1,
                    found := found st @ [(i, effective_offset)],
                    notfound_count := 0\<rparr>)
         else
           (let nf = notfound_count st + 1 in
            if nf \<ge> NOTFOUND_MAX then (True, st\<lparr>notfound_count := 0\<rparr>)
            else (False, st\<lparr>notfound_count := nf\<rparr>)))"

datatype c0_status = ScanDone | ScanCancelled | ScanError

text \<open>Pass 2, the \<^verbatim>\<open>do ... while (i >= 0)\<close> loop over the channels still to visit.\<close>

fun c0_scan_loop ::
  "(nat \<Rightarrow> real) \<Rightarrow> real \<Rightarrow> nat list \<Rightarrow> scan_event list \<Rightarrow> c0_state \<Rightarrow> (c0_status \<times> c0_state) option"
where
  "c0_scan_loop pwr a [] evs st = Some (ScanDone, st)"
| "c0_scan_loop pwr a (i # rest) evs st =
     (if i \<ge> MAX_ARFCN then c0_scan_loop pwr a rest evs st
      else if pwr i \<le> a then c0_scan_loop pwr a rest evs st
      else
        (case evs of
           [] \<Rightarrow> None
         | ExitRequested # _ \<Rightarrow> Some (ScanCancelled, st)
         | TuneFailed # _ \<Rightarrow> Some (ScanError, st)
         | FillFailed # _ \<Rightarrow> Some (ScanError, st)
         | Scanned r offset # evs' \<Rightarrow>
             (case c0_scan_step i r offset st of
                (True, st') \<Rightarrow> c0_scan_loop pwr a rest evs' st'
              | (False, st') \<Rightarrow> c0_scan_loop pwr a (i # rest) evs' st')))"

record c0_run =
  ret :: int
  powers :: "nat \<Rightarrow> real"
  threshold :: "real option"
  final :: "c0_state option"

definition c0_init :: c0_state where
  "c0_init = \<lparr>found_count = 0, notfound_count = 0, min_max = None, found = [], scanned = []\<rparr>"

text \<open>
  \<^verbatim>\<open>c0_detect\<close> for a defined band.  With no channel at all the \<^verbatim>\<open>do\<close> body would index
  \<^verbatim>\<open>power\<close> with the negative result of \<^verbatim>\<open>first_chan\<close>; that run, like one that ends its list
  of events early, is \<open>None\<close>.
\<close>

definition c0_detect :: "nat list \<Rightarrow> sweep_event list \<Rightarrow> scan_event list \<Rightarrow> c0_run option" where
  "c0_detect chans sweep_evs scan_evs =
     (case power_sweep chans sweep_evs (\<lambda>i. 0) of
        None \<Rightarrow> None
      | Some SweepError \<Rightarrow> Some \<lparr>ret = - 1, powers = (\<lambda>i. 0), threshold = None, final = None\<rparr>
      | Some SweepCancelled \<Rightarrow> Some \<lparr>ret = 0, powers = (\<lambda>i. 0), threshold = None, final = None\<rparr>
      | Some (Swept pwr) \<Rightarrow>
          (case detect_threshold chans pwr of
             None \<Rightarrow> None
           | Some a \<Rightarrow>
               (if chans = [] then None
                else
                  (case c0_scan_loop pwr a chans scan_evs c0_init of
                     None \<Rightarrow> None
                   | Some (ScanError, st) \<Rightarrow>
                       Some \<lparr>ret = - 1, powers = pwr, threshold = Some a, final = Some st\<rparr>
                   | Some (status, st) \<Rightarrow>
                       Some \<lparr>ret = 0, powers = pwr, threshold = Some a, final = Some st\<rparr>))))"

section \<open>The magic ring buffer (circular\_buffer.cc)\<close>

text \<open>
  Cursors and sizes are \<^verbatim>\<open>unsigned int\<close>, here 32-bit words, so every sum, difference and
  product wraps as in the C++ code.  The buffer never looks inside an item: its memory is a
  store of bytes.
\<close>

type_synonym u32 = "32 word"
type_synonym byte = "8 word"

datatype cb_error = BufferLenZero | ItemSizeZero | SizeOverflow | MapFailed | OutOfBounds

text \<open>
  \<open>m_buf\<close> is the backing file of \<open>m_buf_size\<close> bytes, addressed by file offset.  The two
  adjacent views map the byte at virtual offset \<open>v < 2 * m_buf_size\<close> to the file offset
  \<open>v mod m_buf_size\<close>.
\<close>

record circular_buffer =
  m_buf :: "nat \<Rightarrow> byte"
  m_buf_size :: u32
  m_buf_len :: u32
  m_item_size :: u32
  m_overwrite :: int
  m_r :: u32
  m_w :: u32

text \<open>
  The POSIX constructor.  \<open>sysconf_pagesize\<close> is the result of \<^verbatim>\<open>sysconf(_SC_PAGESIZE)\<close>; the
  rounding is computed in \<^verbatim>\<open>long\<close> and stored in an \<^verbatim>\<open>unsigned int\<close>, which keeps the low
  32 bits.  \<open>os_ok\<close> says that \<^verbatim>\<open>mkstemp\<close>, \<^verbatim>\<open>ftruncate\<close> and the three \<^verbatim>\<open>mmap\<close> calls
  succeed.  The reservation has the length \<^verbatim>\<open>2 * m_buf_size\<close> computed in 32 bits: a length
  of 0 makes \<^verbatim>\<open>mmap\<close> fail, and a length that wrapped around cannot hold the two views, so
  both are construction failures here.  A fresh file reads as zeros.
\<close>

definition circular_buffer_new ::
  "int \<Rightarrow> bool \<Rightarrow> u32 \<Rightarrow> u32 \<Rightarrow> int \<Rightarrow> cb_error + circular_buffer" where
  "circular_buffer_new sysconf_pagesize os_ok buf_len item_size overwrite =
     (if buf_len = 0 then Inl BufferLenZero
      else if item_size = 0 then Inl ItemSizeZero
      else if buf_len > (- 1) div item_size then Inl SizeOverflow
      else
        let page_size = (if sysconf_pagesize < 0 then 4096 else sysconf_pagesize);
            raw_size = item_size * buf_len;
            buf_size = (word_of_int ((uint raw_size + page_size - 1) AND NOT (page_size - 1)) :: u32)
        in if \<not> os_ok \<or> unat (2 * buf_size) \<noteq> 2 * unat buf_size \<or> buf_size = 0
           then Inl MapFailed
           else Inr \<lparr>m_buf = (\<lambda>p. 0), m_buf_size = buf_size,
                     m_buf_len = buf_size div item_size, m_item_size = item_size,
                     m_overwrite = overwrite, m_r = 0, m_w = 0\<rparr>)"

text \<open>
  \<^verbatim>\<open>memcpy\<close> into and out of the double mapping, in ascending address order: the byte at
  virtual offset \<open>off + i\<close> is the file byte \<open>(off + i) mod S\<close>.
\<close>

fun ring_store :: "(nat \<Rightarrow> byte) \<Rightarrow> nat \<Rightarrow> nat \<Rightarrow> byte list \<Rightarrow> (nat \<Rightarrow> byte)" where
  "ring_store mem S off [] = mem"
| "ring_store mem S off (b # bs) = ring_store (mem(off mod S := b)) S (Suc off) bs"

definition ring_load :: "(nat \<Rightarrow> byte) \<Rightarrow> nat \<Rightarrow> nat \<Rightarrow> nat \<Rightarrow> byte list" where
  "ring_load mem S off n = map (\<lambda>i. mem ((off + i) mod S)) [0..<n]"

definition flush :: "circular_buffer \<Rightarrow> circular_buffer" where
  "flush cb = cb\<lparr>m_r := 0, m_w := 0\<rparr>"

definition data_available :: "circular_buffer \<Rightarrow> u32" where
  "data_available cb = (let bytes_avail = m_w cb - m_r cb in bytes_avail div m_item_size cb)"

definition space_available :: "circular_buffer \<Rightarrow> u32" where
  "space_available cb =
     (let bytes_avail = m_w cb - m_r cb;
          space_bytes = m_buf_size cb - bytes_avail
      in space_bytes div m_item_size cb)"

definition capacity :: "circular_buffer \<Rightarrow> u32" where
  "capacity cb = m_buf_len cb"

text \<open>
  The block that ends \<^verbatim>\<open>write\<close>, \<^verbatim>\<open>read\<close> and \<^verbatim>\<open>purge\<close>:
  \<^verbatim>\<open>if (m_r >= m_buf_size && m_w >= m_buf_size) { m_r -= m_buf_size; m_w -= m_buf_size; }\<close>
\<close>

definition rewind :: "circular_buffer \<Rightarrow> circular_buffer" where
  "rewind cb =
     (if m_r cb \<ge> m_buf_size cb \<and> m_w cb \<ge> m_buf_size cb
      then cb\<lparr>m_r := m_r cb - m_buf_size cb, m_w := m_w cb - m_buf_size cb\<rparr>
      else cb)"

text \<open>
  The overwrite step of \<^verbatim>\<open>write\<close>:
  \<^verbatim>\<open>if (m_overwrite && (m_w - m_r) > m_buf_size) m_r = m_w - m_buf_size;\<close>
\<close>

definition drop_oldest :: "circular_buffer \<Rightarrow> circular_buffer" where
  "drop_oldest cb =
     (if m_overwrite cb \<noteq> 0 \<and> m_w cb - m_r cb > m_buf_size cb
      then cb\<lparr>m_r := m_w cb - m_buf_size cb\<rparr>
      else cb)"

text \<open>
  \<^verbatim>\<open>write(s, len)\<close>.  \<open>s\<close> is the memory behind the source pointer.  The copy of
  \<^verbatim>\<open>to_write * m_item_size\<close> bytes (a 32-bit product) is \<open>OutOfBounds\<close> when the source is
  shorter or when the destination leaves the \<open>2 * m_buf_size\<close> bytes of the two views.
\<close>

definition cb_write :: "circular_buffer \<Rightarrow> byte list \<Rightarrow> u32 \<Rightarrow> cb_error + circular_buffer \<times> u32" where
  "cb_write cb s len =
     (let bytes_used = m_w cb - m_r cb;
          bytes_free = m_buf_size cb - bytes_used;
          items_free = bytes_free div m_item_size cb;
          to_write = (if m_overwrite cb = 0 \<and> len > items_free then items_free else len);
          offset = m_w cb mod m_buf_size cb;
          n = to_write * m_item_size cb
      in if to_write > 0 \<and>
            (length s < unat n \<or> unat offset + unat n > 2 * unat (m_buf_size cb))
         then Inl OutOfBounds
         else
           let cb1 = (if to_write > 0
                      then cb\<lparr>m_buf := ring_store (m_buf cb) (unat (m_buf_size cb)) (unat offset)
                                         (take (unat n) s),
                              m_w := m_w cb + n\<rparr>
                      else cb)
           in Inr (rewind (drop_oldest cb1), to_write))"

text \<open>\<^verbatim>\<open>read(s, len)\<close>: the bytes copied to \<open>s\<close> are the second component of the result.\<close>

definition cb_read :: "circular_buffer \<Rightarrow> u32 \<Rightarrow> cb_error + circular_buffer \<times> byte list \<times> u32" where
  "cb_read cb len =
     (let bytes_avail = m_w cb - m_r cb;
          items_avail = bytes_avail div m_item_size cb;
          to_read = min len items_avail;
          offset = m_r cb mod m_buf_size cb;
          n = to_read * m_item_size cb
      in if to_read > 0 \<and> unat offset + unat n > 2 * unat (m_buf_size cb)
         then Inl OutOfBounds
         else
           let out = (if to_read > 0
                      then ring_load (m_buf cb) (unat (m_buf_size cb)) (unat offset) (unat n)
                      else []);
               cb1 = (if to_read > 0 then cb\<lparr>m_r := m_r cb + n\<rparr> else cb)
           in Inr (rewind cb1, out, to_read))"

text \<open>
  \<^verbatim>\<open>peek(&len)\<close> returns the virtual offset of the oldest item and the item count;
  \<open>cb_contents\<close> is what a caller sees there: the bytes of the \<open>len\<close> items behind the pointer.
\<close>

definition cb_peek :: "circular_buffer \<Rightarrow> nat \<times> u32" where
  "cb_peek cb =
     (let bytes_avail = m_w cb - m_r cb;
          offset = m_r cb mod m_buf_size cb
      in (unat offset, bytes_avail div m_item_size cb))"

definition cb_contents :: "circular_buffer \<Rightarrow> byte list" where
  "cb_contents cb =
     (let (offset, len) = cb_peek cb
      in ring_load (m_buf cb) (unat (m_buf_size cb)) offset (unat len * unat (m_item_size cb)))"

definition purge :: "circular_buffer \<Rightarrow> u32 \<Rightarrow> circular_buffer \<times> u32" where
  "purge cb len =
     (let bytes_avail = m_w cb - m_r cb;
          items_avail = bytes_avail div m_item_size cb;
          to_purge = min len items_avail
      in (rewind (cb\<lparr>m_r := m_r cb + to_purge * m_item_size cb\<rparr>), to_purge))"

text \<open>
  Sequences of operations.  A run returns the final buffer and all bytes its reads
  delivered, in order; it stops at the first operation that is out of bounds.
\<close>

datatype cb_op = Write "byte list" u32 | Read u32 | Purge u32 | Flush

fun cb_apply :: "cb_op \<Rightarrow> circular_buffer \<Rightarrow> cb_error + circular_buffer \<times> byte list" where
  "cb_apply (Write s len) cb =
     (case cb_write cb s len of Inl e \<Rightarrow> Inl e | Inr (cb', t) \<Rightarrow> Inr (cb', []))"
| "cb_apply (Read len) cb =
     (case cb_read cb len of Inl e \<Rightarrow> Inl e | Inr (cb', out, t) \<Rightarrow> Inr (cb', out))"
| "cb_apply (Purge len) cb = Inr (fst (purge cb len), [])"
| "cb_apply Flush cb = Inr (flush cb, [])"

fun cb_run :: "cb_op list \<Rightarrow> circular_buffer \<Rightarrow> cb_error + circular_buffer \<times> byte list" where
  "cb_run [] cb = Inr (cb, [])"
| "cb_run (op # ops) cb =
     (case cb_apply op cb of
        Inl e \<Rightarrow> Inl e
      | Inr (cb', out) \<Rightarrow>
          (case cb_run ops cb' of Inl e \<Rightarrow> Inl e | Inr (cb'', outs) \<Rightarrow> Inr (cb'', out @ outs)))"

text \<open>A write of at most \<open>cap\<close> items; the other operations always fit.\<close>

fun op_fits :: "u32 \<Rightarrow> cb_op \<Rightarrow> bool" where
  "op_fits cap (Write s len) = (len \<le> cap)"
| "op_fits cap _ = True"

text \<open>The number of items \<^verbatim>\<open>write\<close> decides to copy.\<close>

definition to_write :: "circular_buffer \<Rightarrow> u32 \<Rightarrow> u32" where
  "to_write cb len =
     (if m_overwrite cb = 0 \<and> len > space_available cb then space_available cb else len)"

subsection \<open>The state invariant\<close>

text \<open>
  \<open>used\<close> is the number of live bytes.  In a well-formed buffer the cursors have not wrapped
  around 32 bits, the read cursor lies in the first view, at most \<open>m_buf_size\<close> bytes are
  live, and the live bytes are whole items counted either from the read cursor or (after an
  overwrite) back from a full buffer.  \<open>cb_loose\<close> is the state before the closing
  \<open>rewind\<close>.
\<close>

definition used :: "circular_buffer \<Rightarrow> nat" where
  "used cb = unat (m_w cb) - unat (m_r cb)"

definition aligned :: "circular_buffer \<Rightarrow> bool" where
  "aligned cb =
     (unat (m_item_size cb) dvd used cb
      \<or> (m_overwrite cb \<noteq> 0 \<and> unat (m_item_size cb) dvd (unat (m_buf_size cb) - used cb)))"

definition cb_loose :: "circular_buffer \<Rightarrow> bool" where
  "cb_loose cb =
     (0 < unat (m_item_size cb) \<and> 0 < unat (m_buf_size cb) \<and> 2 * unat (m_buf_size cb) < 2 ^ 32
      \<and> unat (m_buf_len cb) = unat (m_buf_size cb) div unat (m_item_size cb)
      \<and> unat (m_r cb) < 2 * unat (m_buf_size cb) \<and> unat (m_r cb) \<le> unat (m_w cb)
      \<and> used cb \<le> unat (m_buf_size cb) \<and> aligned cb)"

definition cb_inv :: "circular_buffer \<Rightarrow> bool" where
  "cb_inv cb = (cb_loose cb \<and> unat (m_r cb) < unat (m_buf_size cb))"

section \<open>The FCCH detector (fcch\_detector.cc)\<close>

subsection \<open>Floating-point arithmetic as a parameter\<close>

text \<open>
  The detector computes with \<^verbatim>\<open>float\<close> (type \<open>'f\<close>), \<^verbatim>\<open>double\<close> (type \<open>'d\<close>) and
  \<^verbatim>\<open>std::complex<float>\<close> (type \<open>'c\<close>).  Their operations are not interpreted: they are the
  fields of a record that every function of the detector takes as its first argument, so
  a statement proved for all such records holds for IEEE arithmetic with its rounding,
  infinities and NaN.  In particular \<open>f_gt\<close> (\<^verbatim>\<open>>\<close>) and \<open>f_le\<close> (\<^verbatim>\<open><=\<close>) are independent,
  as they are on NaN.  \<open>f_lit\<close> and \<open>d_lit\<close> are numeric literals and integer constants
  converted to the type; \<open>c_bits\<close> and \<open>f_bits\<close> are the object representations (8 and 4
  bytes) that \<^verbatim>\<open>memcpy\<close> moves through the ring buffers.  \<open>tone_estimate\<close> is the FFT
  estimator of \<^verbatim>\<open>freq_detect\<close> after its copy loop: from the sample rate and at most
  \<^verbatim>\<open>FFT_SIZE\<close> samples (zero-padded) it yields the frequency and the peak-to-mean ratio.
\<close>

record ('f, 'd, 'c) arith =
  f_lit :: "real \<Rightarrow> 'f"
  f_add :: "'f \<Rightarrow> 'f \<Rightarrow> 'f"
  f_sub :: "'f \<Rightarrow> 'f \<Rightarrow> 'f"
  f_mul :: "'f \<Rightarrow> 'f \<Rightarrow> 'f"
  f_div :: "'f \<Rightarrow> 'f \<Rightarrow> 'f"
  f_gt :: "'f \<Rightarrow> 'f \<Rightarrow> bool"
  f_le :: "'f \<Rightarrow> 'f \<Rightarrow> bool"
  f_of_u32 :: "u32 \<Rightarrow> 'f"
  f_to_u32 :: "'f \<Rightarrow> u32"
  f_of_d :: "'d \<Rightarrow> 'f"
  d_lit :: "real \<Rightarrow> 'd"
  d_of_f :: "'f \<Rightarrow> 'd"
  d_of_u32 :: "u32 \<Rightarrow> 'd"
  d_to_u32 :: "'d \<Rightarrow> u32"
  d_add :: "'d \<Rightarrow> 'd \<Rightarrow> 'd"
  d_mul :: "'d \<Rightarrow> 'd \<Rightarrow> 'd"
  d_div :: "'d \<Rightarrow> 'd \<Rightarrow> 'd"
  c_make :: "'f \<Rightarrow> 'f \<Rightarrow> 'c"
  c_add :: "'c \<Rightarrow> 'c \<Rightarrow> 'c"
  c_sub :: "'c \<Rightarrow> 'c \<Rightarrow> 'c"
  c_mul :: "'c \<Rightarrow> 'c \<Rightarrow> 'c"
  c_scale :: "'f \<Rightarrow> 'c \<Rightarrow> 'c"
  c_conj :: "'c \<Rightarrow> 'c"
  c_norm :: "'c \<Rightarrow> 'f"
  c_bits :: "'c \<Rightarrow> 64 word"
  c_of_bits :: "64 word \<Rightarrow> 'c"
  f_bits :: "'f \<Rightarrow> 32 word"
  f_of_bits :: "32 word \<Rightarrow> 'f"
  tone_estimate :: "'f \<Rightarrow> 'c list \<Rightarrow> 'f \<times> 'f"

text \<open>Little-endian bytes of a word, and back.\<close>

fun le_bytes :: "nat \<Rightarrow> 'a::len word \<Rightarrow> byte list" where
  "le_bytes 0 w = []"
| "le_bytes (Suc n) w = ucast w # le_bytes n (drop_bit 8 w)"

fun le_word :: "byte list \<Rightarrow> 'a::len word" where
  "le_word [] = 0"
| "le_word (b # bs) = ucast b OR push_bit 8 (le_word bs)"

definition complex_bytes :: "('f, 'd, 'c) arith \<Rightarrow> 'c list \<Rightarrow> byte list" where
  "complex_bytes A xs = concat (map (\<lambda>x. le_bytes 8 (c_bits A x)) xs)"

definition float_bytes :: "('f, 'd, 'c) arith \<Rightarrow> 'f list \<Rightarrow> byte list" where
  "float_bytes A es = concat (map (\<lambda>e. le_bytes 4 (f_bits A e)) es)"

text \<open>\<^verbatim>\<open>vectornorm2<float>\<close> (kal\_types.h): \<^verbatim>\<open>e += std::norm(v[i])\<close> from \<open>T(0)\<close>.\<close>

definition vectornorm2 :: "('f, 'd, 'c) arith \<Rightarrow> 'c list \<Rightarrow> 'f" where
  "vectornorm2 A v = foldl (\<lambda>e x. f_add A e (c_norm A x)) (f_lit A 0) v"

subsection \<open>Detector state\<close>

definition FFT_SIZE :: u32 where
  "FFT_SIZE = 1024"

definition LOW :: u32 where
  "LOW = 0"

definition HIGH :: u32 where
  "HIGH = 1"

record ('f, 'c) fcch_detector =
  m_D :: u32
  m_p :: 'f
  m_G :: 'f
  m_e :: 'f
  m_sample_rate :: 'f
  m_fcch_burst_len :: u32
  m_filter_delay :: u32
  m_w_len :: u32
  m_w_vec :: "'c list"
  m_x_cb :: circular_buffer
  m_y_cb :: circular_buffer
  m_e_cb :: circular_buffer
  m_lth_count :: u32
  m_lth_state :: u32

text \<open>\<open>m_w_vec\<close> is the weight array \<^verbatim>\<open>m_w\<close> (the ring buffer has a cursor of that name).\<close>

text \<open>
  The constructor: the three rings, zero weights, the edge detector in state \<open>HIGH\<close>.
  \<open>os_ok\<close> stands for the allocations (the rings' mappings, the FFTW buffers and plan).
\<close>

definition fcch_detector_new ::
  "('f, 'd, 'c) arith \<Rightarrow> int \<Rightarrow> bool \<Rightarrow> 'f \<Rightarrow> u32 \<Rightarrow> 'f \<Rightarrow> 'f \<Rightarrow> cb_error + ('f, 'c) fcch_detector"
where
  "fcch_detector_new A sysconf_pagesize os_ok sample_rate D p G =
     (case circular_buffer_new sysconf_pagesize os_ok 8192 8 0 of
        Inl e \<Rightarrow> Inl e
      | Inr x_cb \<Rightarrow>
     (case circular_buffer_new sysconf_pagesize os_ok 8192 8 1 of
        Inl e \<Rightarrow> Inl e
      | Inr y_cb \<Rightarrow>
     (case circular_buffer_new sysconf_pagesize os_ok 1015808 4 0 of
        Inl e \<Rightarrow> Inl e
      | Inr e_cb \<Rightarrow>
          Inr \<lparr>m_D = D, m_p = p, m_G = G, m_e = f_lit A 0, m_sample_rate = sample_rate,
               m_fcch_burst_len =
                 d_to_u32 A (d_mul A (d_lit A 148)
                                (d_div A (d_of_f A sample_rate) (d_lit A GSM_RATE))),
               m_filter_delay = 8, m_w_len = 2 * 8 + 1,
               m_w_vec = replicate 17 (c_make A (f_lit A 0) (f_lit A 0)),
               m_x_cb = x_cb, m_y_cb = y_cb, m_e_cb = e_cb,
               m_lth_count = 0, m_lth_state = HIGH\<rparr>)))"

subsection \<open>Edge detection\<close>

definition low_to_high_init :: "('f, 'c) fcch_detector \<Rightarrow> ('f, 'c) fcch_detector" where
  "low_to_high_init d = d\<lparr>m_lth_count := 0, m_lth_state := HIGH\<rparr>"

definition low_to_high ::
  "('f, 'd, 'c) arith \<Rightarrow> 'f \<Rightarrow> 'f \<Rightarrow> ('f, 'c) fcch_detector \<Rightarrow> u32 \<times> ('f, 'c) fcch_detector" where
  "low_to_high A e a d =
     (if f_gt A e a then
        (if m_lth_state d = LOW
         then (m_lth_count d, d\<lparr>m_lth_state := HIGH, m_lth_count := 0 + 1\<rparr>)
         else (0, d\<lparr>m_lth_count := m_lth_count d + 1\<rparr>))
      else
        (if m_lth_state d = HIGH
         then (0, d\<lparr>m_lth_state := LOW, m_lth_count := 0 + 1\<rparr>)
         else (0, d\<lparr>m_lth_count := m_lth_count d + 1\<rparr>)))"

subsection \<open>The adaptive filter\<close>

text \<open>
  Item \<open>i\<close> behind the pointer that \<^verbatim>\<open>peek\<close> returns.  The read stays inside the two views
  or is \<open>OutOfBounds\<close>; inside them it may show bytes that are no longer live.
\<close>

definition peek_item :: "circular_buffer \<Rightarrow> nat \<Rightarrow> cb_error + byte list" where
  "peek_item cb i =
     (let (offset, len) = cb_peek cb; c = unat (m_item_size cb)
      in if offset + (i + 1) * c \<le> 2 * unat (m_buf_size cb)
         then Inr (ring_load (m_buf cb) (unat (m_buf_size cb)) (offset + i * c) c)
         else Inl OutOfBounds)"

fun all_right :: "('e + 'a) list \<Rightarrow> 'e + 'a list" where
  "all_right [] = Inr []"
| "all_right (Inl e # rs) = Inl e"
| "all_right (Inr a # rs) = (case all_right rs of Inl e \<Rightarrow> Inl e | Inr as \<Rightarrow> Inr (a # as))"

text \<open>\<^verbatim>\<open>x[0]\<close>, ..., \<^verbatim>\<open>x[k - 1]\<close> for \<^verbatim>\<open>x = (complex * )m_x_cb->peek(&max)\<close>.\<close>

definition peek_complex ::
  "('f, 'd, 'c) arith \<Rightarrow> circular_buffer \<Rightarrow> nat \<Rightarrow> cb_error + 'c list" where
  "peek_complex A cb k =
     all_right (map (\<lambda>i. map_sum id (\<lambda>bs. c_of_bits A (le_word bs)) (peek_item cb i)) [0..<k])"

text \<open>
  \<^verbatim>\<open>int next_norm_error(float *error)\<close> with a non-null \<open>error\<close>.  The result is the returned
  \<^verbatim>\<open>int\<close>, the value stored through \<open>error\<close> (\<open>None\<close> when nothing is stored) and the new
  state.  The window \<open>x\<close> is read as far as the indices used reach: \<open>x[i]\<close> and \<open>x[n - i]\<close> for
  \<open>i < m_w_len\<close> and \<open>x[n + m_D]\<close>, the index being the 32-bit sum; the pointer
  \<^verbatim>\<open>x + n + m_D\<close> handed to the output ring does not wrap.
\<close>

definition next_norm_error ::
  "('f, 'd, 'c) arith \<Rightarrow> ('f, 'c) fcch_detector
     \<Rightarrow> cb_error + int \<times> 'f option \<times> ('f, 'c) fcch_detector" where
  "next_norm_error A d =
     (let n = m_w_len d - 1;
          (x_off, max) = cb_peek (m_x_cb d)
      in if n + m_D d \<ge> max then Inr (sint (n + m_D d - max + 1), None, d)
         else
           (case peek_complex A (m_x_cb d) (Suc (Max {unat n, unat (n + m_D d)})) of
              Inl err \<Rightarrow> Inl err
            | Inr x \<Rightarrow>
           (if length (m_w_vec d) \<noteq> unat (m_w_len d) then Inl OutOfBounds
            else
              let E = vectornorm2 A (take (unat (m_w_len d)) x);
                  G = (if f_gt A E (f_lit A (1 / 10 ^ 10)) then f_div A (f_lit A 1) E else m_G d);
                  y = foldl (\<lambda>y i. c_add A y (c_mul A (c_conj A (m_w_vec d ! i)) (x ! (unat n - i))))
                        (c_make A (f_lit A 0) (f_lit A 0)) [0..<unat (m_w_len d)]
              in
           (case peek_item (m_x_cb d) (unat n + unat (m_D d)) of
              Inl err \<Rightarrow> Inl err
            | Inr desired \<Rightarrow>
           (case cb_write (m_y_cb d) desired 1 of
              Inl err \<Rightarrow> Inl err
            | Inr (y_cb, t) \<Rightarrow>
              let e = c_sub A (x ! unat (n + m_D d)) y;
                  w = map (\<lambda>i. c_add A (m_w_vec d ! i)
                                  (c_mul A (c_scale A G (c_conj A e)) (x ! (unat n - i))))
                        [0..<unat (m_w_len d)];
                  E' = f_div A E (f_of_u32 A (m_w_len d));
                  e_avg = f_add A (f_mul A (f_sub A (f_lit A 1) (m_p d)) (m_e d))
                                  (f_mul A (m_p d) (c_norm A e));
                  error = (if f_gt A E' (f_lit A (1 / 10 ^ 20)) then f_div A e_avg E'
                           else f_lit A 0)
              in Inr (0, Some error,
                      d\<lparr>m_G := G, m_e := e_avg, m_w_vec := w, m_y_cb := y_cb,
                        m_x_cb := fst (purge (m_x_cb d) 1)\<rparr>))))))"

definition get_delay :: "('f, 'c) fcch_detector \<Rightarrow> u32" where
  "get_delay d = m_w_len d - 1 + m_D d"

subsection \<open>scan\<close>

definition E_BATCH_SIZE :: nat where
  "E_BATCH_SIZE = 512"

text \<open>
  The inner loop \<^verbatim>\<open>while (!next_norm_error(&e))\<close>.  \<open>batch\<close> is \<^verbatim>\<open>e_batch[0 .. e_idx)\<close>.  A
  loop that does not end has the value \<open>None\<close>.
\<close>

partial_function (option) drain ::
  "('f, 'd, 'c) arith \<Rightarrow> ('f, 'c) fcch_detector \<Rightarrow> 'f list \<Rightarrow> 'd
     \<Rightarrow> (cb_error + ('f, 'c) fcch_detector \<times> 'f list \<times> 'd) option" where
  "drain A d batch sm =
     (case next_norm_error A d of
        Inl err \<Rightarrow> Some (Inl err)
      | Inr (r, stored, d') \<Rightarrow>
          if r = 0 then
            (case stored of
               None \<Rightarrow> drain A d' batch sm
             | Some e \<Rightarrow>
                 let batch' = batch @ [e]; sm' = d_add A sm (d_of_f A e)
                 in if length batch' \<ge> E_BATCH_SIZE then
                      (case cb_write (m_e_cb d') (float_bytes A batch') (of_nat (length batch')) of
                         Inl err \<Rightarrow> Some (Inl err)
                       | Inr (e_cb, t) \<Rightarrow> drain A (d'\<lparr>m_e_cb := e_cb\<rparr>) [] sm')
                    else drain A d' batch' sm')
          else Some (Inr (d', batch, sm)))"

text \<open>The outer loop \<^verbatim>\<open>while (len < s_len)\<close>; \<open>s\<close> is the array behind the pointer.\<close>

partial_function (option) scan_fill ::
  "('f, 'd, 'c) arith \<Rightarrow> 'c list \<Rightarrow> u32 \<Rightarrow> ('f, 'c) fcch_detector \<Rightarrow> 'f list \<Rightarrow> 'd \<Rightarrow> u32
     \<Rightarrow> (cb_error + ('f, 'c) fcch_detector \<times> 'f list \<times> 'd \<times> u32) option" where
  "scan_fill A s s_len d batch sm len =
     (if len < s_len then
        (case cb_write (m_x_cb d) (complex_bytes A (drop (unat len) s)) (s_len - len) of
           Inl err \<Rightarrow> Some (Inl err)
         | Inr (x_cb, t) \<Rightarrow>
             (case drain A (d\<lparr>m_x_cb := x_cb\<rparr>) batch sm of
                None \<Rightarrow> None
              | Some (Inl err) \<Rightarrow> Some (Inl err)
              | Some (Inr (d', batch', sm')) \<Rightarrow> scan_fill A s s_len d' batch' sm' (len + t)))
      else Some (Inr (d, batch, sm, len)))"

text \<open>
  \<^verbatim>\<open>freq_detect(s, s_len, &pm)\<close>: the copy loop reads \<open>min s_len FFT_SIZE\<close> samples from the
  pointer, here position \<open>y_offset\<close> of the caller's array; reading past the array is
  \<open>OutOfBounds\<close>.
\<close>

definition freq_detect ::
  "('f, 'd, 'c) arith \<Rightarrow> ('f, 'c) fcch_detector \<Rightarrow> 'c list \<Rightarrow> nat \<Rightarrow> u32 \<Rightarrow> cb_error + 'f \<times> 'f" where
  "freq_detect A d s y_offset y_len =
     (let len = (if y_len < FFT_SIZE then y_len else FFT_SIZE)
      in if y_offset + unat len > length s then Inl OutOfBounds
         else Inr (tone_estimate A (m_sample_rate d) (take (unat len) (drop y_offset s))))"

text \<open>
  The search loop \<^verbatim>\<open>for (i = 0; i < e_count; i++)\<close> over the remaining indices.  \<open>a\<close> is the
  error array behind the pointer of \<^verbatim>\<open>m_e_cb->peek\<close>.  The result is the detector, \<open>pm\<close> and
  \<open>loff\<close> at the \<^verbatim>\<open>break\<close> or at the end of the loop.
\<close>

fun scan_search ::
  "('f, 'd, 'c) arith \<Rightarrow> 'c list \<Rightarrow> 'f list \<Rightarrow> 'f \<Rightarrow> u32 \<Rightarrow> nat list
     \<Rightarrow> ('f, 'c) fcch_detector \<times> 'f \<times> 'f \<Rightarrow> cb_error + ('f, 'c) fcch_detector \<times> 'f \<times> 'f" where
  "scan_search A s a limit min_fb_len [] st = Inr st"
| "scan_search A s a limit min_fb_len (i # is) (d, pm, loff) =
     (case low_to_high A (a ! i) limit d of
        (l_count, d1) \<Rightarrow>
          if l_count \<ge> min_fb_len then
            (let y_offset = (of_nat i :: u32) - l_count;
                 y_len = (if l_count < m_fcch_burst_len d1 then l_count else m_fcch_burst_len d1)
             in case freq_detect A d1 s (unat y_offset) y_len of
                  Inl err \<Rightarrow> Inl err
                | Inr (loff', pm') \<Rightarrow>
                    if f_gt A pm' (f_of_u32 A 50) then Inr (d1, pm', loff')
                    else scan_search A s a limit min_fb_len is (d1, pm', loff'))
          else scan_search A s a limit min_fb_len is (d1, f_lit A 0, loff))"

record ('f, 'c) scan_result =
  found_flag :: u32
  offset_out :: "'f option"
  consumed_out :: u32
  detector :: "('f, 'c) fcch_detector"

text \<open>
  \<^verbatim>\<open>scan(s, s_len, offset, consumed)\<close> with non-null \<open>offset\<close> and \<open>consumed\<close>:
  \<open>offset_out\<close> is \<open>None\<close> when \<^verbatim>\<open>*offset\<close> is not written.
\<close>

definition scan ::
  "('f, 'd, 'c) arith \<Rightarrow> ('f, 'c) fcch_detector \<Rightarrow> 'c list \<Rightarrow> u32
     \<Rightarrow> (cb_error + ('f, 'c) scan_result) option" where
  "scan A d0 s s_len =
     (let sps = f_div A (m_sample_rate d0) (f_of_d A (d_lit A GSM_RATE));
          MIN_FB_LEN = f_to_u32 A (f_mul A (f_lit A 100) sps)
      in case scan_fill A s s_len d0 [] (d_lit A 0) 0 of
           None \<Rightarrow> None
         | Some (Inl err) \<Rightarrow> Some (Inl err)
         | Some (Inr (d1, batch, sm, len)) \<Rightarrow>
             (case (if length batch > 0
                    then cb_write (m_e_cb d1) (float_bytes A batch) (of_nat (length batch))
                    else Inr (m_e_cb d1, 0)) of
                Inl err \<Rightarrow> Some (Inl err)
              | Inr (e_cb, t) \<Rightarrow>
                  let d2 = d1\<lparr>m_e_cb := e_cb\<rparr>;
                      (e_off, e_count) = cb_peek e_cb
                  in if e_count = 0
                     then Some (Inr \<lparr>found_flag = 0, offset_out = None, consumed_out = len,
                                      detector = d2\<rparr>)
                     else
                       (case all_right (map (peek_item e_cb) [0..<unat e_count]) of
                          Inl err \<Rightarrow> Some (Inl err)
                        | Inr raw \<Rightarrow>
                            let a = map (\<lambda>bs. f_of_bits A (le_word bs)) raw;
                                av = d_div A sm (d_of_u32 A e_count);
                                limit = d_mul A (d_lit A (7 / 10)) av
                            in case scan_search A s a (f_of_d A limit) MIN_FB_LEN
                                      [0..<unat e_count]
                                      (low_to_high_init d2, f_lit A 0, f_lit A 0) of
                                 Inl err \<Rightarrow> Some (Inl err)
                               | Inr (d3, pm, loff) \<Rightarrow>
                                   let d4 = d3\<lparr>m_e_cb := flush (m_e_cb d3),
                                               m_x_cb := flush (m_x_cb d3),
                                               m_y_cb := flush (m_y_cb d3)\<rparr>
                                   in if f_le A pm (f_of_u32 A 50)
                                      then Some (Inr \<lparr>found_flag = 0, offset_out = None,
                                                       consumed_out = len, detector = d4\<rparr>)
                                      else Some (Inr \<lparr>found_flag = 1, offset_out = Some loff,
                                                       consumed_out = len, detector = d4\<rparr>))))"

subsection \<open>Views used in statements\<close>

text \<open>
  The live items of a ring as \<^verbatim>\<open>peek\<close> shows them, item by item, and decoded as complex
  samples.
\<close>

definition ring_items :: "circular_buffer \<Rightarrow> byte list list" where
  "ring_items cb =
     map (\<lambda>i. take (unat (m_item_size cb)) (drop (i * unat (m_item_size cb)) (cb_contents cb)))
       [0..<unat (data_available cb)]"

definition ring_complex :: "('f, 'd, 'c) arith \<Rightarrow> circular_buffer \<Rightarrow> 'c list" where
  "ring_complex A cb = map (\<lambda>bs. c_of_bits A (le_word bs)) (ring_items cb)"

text \<open>
  A well-formed detector: three well-formed rings with the item sizes of the constructor
  (the sample ring without overwrite, the output ring small enough for its cursors and
  able to hold an item), a weight array of \<open>m_w_len\<close> entries, and a sample ring that can hold
  the \<open>m_w_len + m_D\<close> samples a filter step needs.
\<close>

definition det_inv :: "('f, 'c) fcch_detector \<Rightarrow> bool" where
  "det_inv d =
     (cb_inv (m_x_cb d) \<and> m_overwrite (m_x_cb d) = 0 \<and> m_item_size (m_x_cb d) = 8
      \<and> cb_inv (m_y_cb d) \<and> m_item_size (m_y_cb d) = 8
      \<and> 3 * unat (m_buf_size (m_y_cb d)) < 2 ^ 32 \<and> 1 \<le> capacity (m_y_cb d)
      \<and> cb_inv (m_e_cb d) \<and> m_overwrite (m_e_cb d) = 0 \<and> m_item_size (m_e_cb d) = 4
      \<and> length (m_w_vec d) = unat (m_w_len d) \<and> 0 < unat (m_w_len d)
      \<and> unat (m_w_len d) + unat (m_D d) \<le> unat (capacity (m_x_cb d)))"

text \<open>
  The quantities of one filter step, read off the sample ring: the window \<open>x[0 .. L + D)\<close>,
  the energy \<open>E\<close> of its first \<open>L\<close> samples, and the filter output \<open>y\<close> for the present
  weights.
\<close>

definition window :: "('f, 'd, 'c) arith \<Rightarrow> ('f, 'c) fcch_detector \<Rightarrow> 'c list" where
  "window A d = take (unat (m_w_len d) + unat (m_D d)) (ring_complex A (m_x_cb d))"

definition window_energy :: "('f, 'd, 'c) arith \<Rightarrow> ('f, 'c) fcch_detector \<Rightarrow> 'f" where
  "window_energy A d = vectornorm2 A (take (unat (m_w_len d)) (window A d))"

definition filter_output :: "('f, 'd, 'c) arith \<Rightarrow> ('f, 'c) fcch_detector \<Rightarrow> 'c" where
  "filter_output A d =
     foldl (\<lambda>y i. c_add A y (c_mul A (c_conj A (m_w_vec d ! i))
                                       (window A d ! (unat (m_w_len d) - 1 - i))))
       (c_make A (f_lit A 0) (f_lit A 0)) [0..<unat (m_w_len d)]"

definition filter_error :: "('f, 'd, 'c) arith \<Rightarrow> ('f, 'c) fcch_detector \<Rightarrow> 'c" where
  "filter_error A d =
     c_sub A (window A d ! (unat (m_w_len d) - 1 + unat (m_D d))) (filter_output A d)"

definition next_weights :: "('f, 'd, 'c) arith \<Rightarrow> ('f, 'c) fcch_detector \<Rightarrow> 'c list" where
  "next_weights A d =
     (let G = (if f_gt A (window_energy A d) (f_lit A (1 / 10 ^ 10))
               then f_div A (f_lit A 1) (window_energy A d) else m_G d)
      in map (\<lambda>i. c_add A (m_w_vec d ! i)
                      (c_mul A (c_scale A G (c_conj A (filter_error A d)))
                               (window A d ! (unat (m_w_len d) - 1 - i))))
           [0..<unat (m_w_len d)])"

text \<open>
  The state between two scans: a well-formed detector with fewer than \<open>m_w_len + m_D\<close>
  samples left in the sample ring and an empty error ring.
\<close>

definition scan_ready :: "('f, 'c) fcch_detector \<Rightarrow> bool" where
  "scan_ready d =
     (det_inv d
      \<and> unat (data_available (m_x_cb d)) < unat (m_w_len d) + unat (m_D d)
      \<and> data_available (m_e_cb d) = 0)"

text \<open>
  A sample and an error value as a ring hands them back: the value of the bytes that
  \<^verbatim>\<open>write\<close> copied in.
\<close>

definition stored_complex :: "('f, 'd, 'c) arith \<Rightarrow> 'c \<Rightarrow> 'c" where
  "stored_complex A x = c_of_bits A (c_bits A x)"

definition stored_float :: "('f, 'd, 'c) arith \<Rightarrow> 'f \<Rightarrow> 'f" where
  "stored_float A e = f_of_bits A (f_bits A e)"

definition ring_floats :: "('f, 'd, 'c) arith \<Rightarrow> circular_buffer \<Rightarrow> 'f list" where
  "ring_floats A cb = map (\<lambda>bs. f_of_bits A (le_word bs)) (ring_items cb)"

text \<open>
  The adaptive filter on a stream of samples instead of a ring.  One step is the arithmetic
  of \<^verbatim>\<open>next_norm_error\<close> on the window \<open>x[0 .. L + D)\<close> with the weights \<open>w\<close>, the gain \<open>G\<close>
  and the running error average: it yields the normalised error and the new weights, gain
  and average.
\<close>

definition filter_step ::
  "('f, 'd, 'c) arith \<Rightarrow> 'f \<Rightarrow> u32 \<Rightarrow> u32 \<Rightarrow> 'c list \<times> 'f \<times> 'f \<Rightarrow> 'c list
     \<Rightarrow> 'f \<times> ('c list \<times> 'f \<times> 'f)" where
  "filter_step A p L D st x =
     (case st of (w, G, e_avg) \<Rightarrow>
        let n = unat L - 1;
            E = vectornorm2 A (take (unat L) x);
            G' = (if f_gt A E (f_lit A (1 / 10 ^ 10)) then f_div A (f_lit A 1) E else G);
            y = foldl (\<lambda>y i. c_add A y (c_mul A (c_conj A (w ! i)) (x ! (n - i))))
                  (c_make A (f_lit A 0) (f_lit A 0)) [0..<unat L];
            e = c_sub A (x ! (n + unat D)) y;
            w' = map (\<lambda>i. c_add A (w ! i) (c_mul A (c_scale A G' (c_conj A e)) (x ! (n - i))))
                   [0..<unat L];
            E' = f_div A E (f_of_u32 A L);
            e_avg' = f_add A (f_mul A (f_sub A (f_lit A 1) p) e_avg) (f_mul A p (c_norm A e))
        in (if f_gt A E' (f_lit A (1 / 10 ^ 20)) then f_div A e_avg' E' else f_lit A 0,
            (w', G', e_avg')))"

text \<open>
  The filter run over a stream: a step on the first \<open>L + D\<close> samples, then the first sample
  is dropped, as long as \<open>L + D\<close> samples are left.  The result is the list of normalised
  errors, the final weights, gain and average, and the samples left over.
\<close>

fun filter_run ::
  "('f, 'd, 'c) arith \<Rightarrow> 'f \<Rightarrow> u32 \<Rightarrow> u32 \<Rightarrow> 'c list \<times> 'f \<times> 'f \<Rightarrow> 'c list
     \<Rightarrow> 'f list \<times> ('c list \<times> 'f \<times> 'f) \<times> 'c list" where
  "filter_run A p L D st [] = ([], st, [])"
| "filter_run A p L D st (x # xs) =
     (if length (x # xs) < unat L + unat D then ([], st, x # xs)
      else
        (case filter_step A p L D st (take (unat L + unat D) (x # xs)) of
           (err, st') \<Rightarrow>
             (case filter_run A p L D st' xs of
                (errs, st'', rest) \<Rightarrow> (err # errs, st'', rest))))"

section \<open>A concrete arithmetic\<close>

text \<open>
  An arithmetic to instantiate statements with: exact real numbers extended by the two
  infinities and NaN, with the IEEE rules for these three (a comparison with NaN is false,
  \<open>0 / 0\<close> and \<open>\<infinity> - \<infinity>\<close> are NaN) and no rounding.  \<^verbatim>\<open>float\<close> and \<^verbatim>\<open>double\<close> are the same
  type.  Samples are stored as two 32-bit fixed-point numbers with 32 fraction bits,
  errors as 32-bit fixed-point numbers with 16 fraction bits.
\<close>

datatype xreal = Fin real | PInf | NInf | NaN

fun x_neg :: "xreal \<Rightarrow> xreal" where
  "x_neg (Fin a) = Fin (- a)"
| "x_neg PInf = NInf"
| "x_neg NInf = PInf"
| "x_neg NaN = NaN"

fun x_add :: "xreal \<Rightarrow> xreal \<Rightarrow> xreal" where
  "x_add (Fin a) (Fin b) = Fin (a + b)"
| "x_add NaN y = NaN"
| "x_add x NaN = NaN"
| "x_add PInf NInf = NaN"
| "x_add NInf PInf = NaN"
| "x_add PInf y = PInf"
| "x_add x PInf = PInf"
| "x_add NInf y = NInf"
| "x_add x NInf = NInf"

definition x_sub :: "xreal \<Rightarrow> xreal \<Rightarrow> xreal" where
  "x_sub x y = x_add x (x_neg y)"

fun x_sign :: "xreal \<Rightarrow> real" where
  "x_sign (Fin a) = sgn a"
| "x_sign PInf = 1"
| "x_sign NInf = - 1"
| "x_sign NaN = 0"

fun x_mul :: "xreal \<Rightarrow> xreal \<Rightarrow> xreal" where
  "x_mul (Fin a) (Fin b) = Fin (a * b)"
| "x_mul NaN y = NaN"
| "x_mul x NaN = NaN"
| "x_mul x y =
     (if x_sign x * x_sign y = 0 then NaN else if x_sign x * x_sign y > 0 then PInf else NInf)"

fun x_div :: "xreal \<Rightarrow> xreal \<Rightarrow> xreal" where
  "x_div (Fin a) (Fin b) =
     (if b = 0 then (if a = 0 then NaN else if a > 0 then PInf else NInf) else Fin (a / b))"
| "x_div NaN y = NaN"
| "x_div x NaN = NaN"
| "x_div (Fin a) y = Fin 0"
| "x_div x (Fin b) = (if x_sign x * (if b < 0 then - 1 else 1) > 0 then PInf else NInf)"
| "x_div x y = NaN"

fun x_gt :: "xreal \<Rightarrow> xreal \<Rightarrow> bool" where
  "x_gt (Fin a) (Fin b) = (a > b)"
| "x_gt NaN y = False"
| "x_gt x NaN = False"
| "x_gt PInf y = (y \<noteq> PInf)"
| "x_gt x NInf = (x \<noteq> NInf)"
| "x_gt x y = False"

fun x_le :: "xreal \<Rightarrow> xreal \<Rightarrow> bool" where
  "x_le (Fin a) (Fin b) = (a \<le> b)"
| "x_le NaN y = False"
| "x_le x NaN = False"
| "x_le NInf y = True"
| "x_le x PInf = True"
| "x_le x y = False"

fun x_to_u32 :: "xreal \<Rightarrow> u32" where
  "x_to_u32 (Fin a) = (if 0 \<le> a \<and> a < 2 ^ 32 then word_of_int \<lfloor>a\<rfloor> else 0)"
| "x_to_u32 x = 0"

fun x_fixed :: "nat \<Rightarrow> xreal \<Rightarrow> int" where
  "x_fixed k (Fin a) = \<lfloor>a * 2 ^ k\<rfloor>"
| "x_fixed k x = 0"

type_synonym xcomplex = "xreal \<times> xreal"

definition xc_add :: "xcomplex \<Rightarrow> xcomplex \<Rightarrow> xcomplex" where
  "xc_add x y = (x_add (fst x) (fst y), x_add (snd x) (snd y))"

definition xc_sub :: "xcomplex \<Rightarrow> xcomplex \<Rightarrow> xcomplex" where
  "xc_sub x y = (x_sub (fst x) (fst y), x_sub (snd x) (snd y))"

definition xc_mul :: "xcomplex \<Rightarrow> xcomplex \<Rightarrow> xcomplex" where
  "xc_mul x y = (x_sub (x_mul (fst x) (fst y)) (x_mul (snd x) (snd y)),
                 x_add (x_mul (fst x) (snd y)) (x_mul (snd x) (fst y)))"

definition xc_scale :: "xreal \<Rightarrow> xcomplex \<Rightarrow> xcomplex" where
  "xc_scale g x = (x_mul g (fst x), x_mul g (snd x))"

definition xc_conj :: "xcomplex \<Rightarrow> xcomplex" where
  "xc_conj x = (fst x, x_neg (snd x))"

definition xc_norm :: "xcomplex \<Rightarrow> xreal" where
  "xc_norm x = x_add (x_mul (fst x) (fst x)) (x_mul (snd x) (snd x))"

definition xc_bits :: "xcomplex \<Rightarrow> 64 word" where
  "xc_bits x = (ucast (word_of_int (x_fixed 32 (fst x)) :: u32) :: 64 word)
                 OR push_bit 32 (ucast (word_of_int (x_fixed 32 (snd x)) :: u32))"

definition xc_of_bits :: "64 word \<Rightarrow> xcomplex" where
  "xc_of_bits w = (Fin (real_of_int (sint (ucast w :: u32)) / 2 ^ 32),
                   Fin (real_of_int (sint (ucast (drop_bit 32 w) :: u32)) / 2 ^ 32))"

text \<open>
  The estimator of this arithmetic: the discrete Fourier transform of the (zero-padded)
  samples at the 1024 bins and \<^verbatim>\<open>peak_detect\<close> without its refinement between bins.  The
  first loop of \<^verbatim>\<open>peak_detect\<close> finds the strongest bin \<open>max_i\<close>; the refinement starts at
  \<^verbatim>\<open>early_i = (1 <= max_i) ? (max_i - 1) : 0\<close> and ends at its first comparison when the powers
  on both sides are equal, as on a flat spectrum.  The reported index is then
  \<^verbatim>\<open>early_i + 1\<close>, the peak is the bin at that index, and the ratio is
  \<^verbatim>\<open>norm(peak) / avg_power\<close> with \<^verbatim>\<open>avg_power = (sum_power - norm(peak)) / (s_len - 1)\<close>.
\<close>

definition dft_bin :: "xcomplex list \<Rightarrow> nat \<Rightarrow> xcomplex" where
  "dft_bin xs k =
     foldl xc_add (Fin 0, Fin 0)
       (map (\<lambda>n. xc_mul (xs ! n)
                    (Fin (cos (2 * pi * real k * real n / 1024)),
                     Fin (- sin (2 * pi * real k * real n / 1024))))
            [0..<length xs])"

fun strongest :: "xreal list \<Rightarrow> nat \<Rightarrow> xreal \<times> nat \<Rightarrow> xreal \<times> nat" where
  "strongest [] i best = best"
| "strongest (p # ps) i (mx, mi) = strongest ps (Suc i) (if x_gt p mx then (p, i) else (mx, mi))"

definition x_tone :: "xreal \<Rightarrow> xcomplex list \<Rightarrow> xreal \<times> xreal" where
  "x_tone rate xs =
     (let powers = map (\<lambda>k. xc_norm (dft_bin xs k)) [0..<1024];
          sum_power = foldl x_add (Fin 0) powers;
          (mx, max_i) = strongest powers 0 (Fin (- 1), 0);
          early_i = (if 1 \<le> max_i then max_i - 1 else 0);
          peak = powers ! (early_i + 1);
          avg_power = x_div (x_sub sum_power peak) (Fin 1023)
      in (x_mul (Fin (real (early_i + 1))) (x_div rate (Fin 1024)), x_div peak avg_power))"

definition x_arith :: "(xreal, xreal, xcomplex) arith" where
  "x_arith =
     \<lparr>f_lit = Fin, f_add = x_add, f_sub = x_sub, f_mul = x_mul, f_div = x_div,
      f_gt = x_gt, f_le = x_le, f_of_u32 = (\<lambda>w. Fin (real (unat w))), f_to_u32 = x_to_u32,
      f_of_d = (\<lambda>x. x), d_lit = Fin, d_of_f = (\<lambda>x. x),
      d_of_u32 = (\<lambda>w. Fin (real (unat w))), d_to_u32 = x_to_u32,
      d_add = x_add, d_mul = x_mul, d_div = x_div,
      c_make = Pair, c_add = xc_add, c_sub = xc_sub, c_mul = xc_mul, c_scale = xc_scale,
      c_conj = xc_conj, c_norm = xc_norm, c_bits = xc_bits, c_of_bits = xc_of_bits,
      f_bits = (\<lambda>x. word_of_int (x_fixed 16 x)),
      f_of_bits = (\<lambda>w. Fin (real_of_int (sint w) / 2 ^ 16)),
      tone_estimate = x_tone\<rparr>"

section \<open>Properties named by the specification\<close>

text \<open>
  The specification's words for the statistics: the arithmetic mean, the (population)
  standard deviation, and the interior of a sorted list with its bottom and top
  \<open>count div 10\<close> entries dropped.  \<open>double_mean\<close> is the mean as a sum and a quotient in
  \<^verbatim>\<open>double\<close> arithmetic.
\<close>

definition arithmetic_mean :: "real list \<Rightarrow> real" where
  "arithmetic_mean xs = sum_list xs / real (length xs)"

definition standard_deviation :: "real list \<Rightarrow> real" where
  "standard_deviation xs =
     sqrt (sum_list (map (\<lambda>x. (x - arithmetic_mean xs)\<^sup>2) xs) / real (length xs))"

definition interior_80 :: "real list \<Rightarrow> real list" where
  "interior_80 xs = drop (length xs div 10) (take (length xs - length xs div 10) xs)"

definition double_mean :: "real list \<Rightarrow> real" where
  "double_mean xs = to_double (foldl (\<lambda>s x. to_double (s + x)) 0 xs / real (length xs))"

fun failed_scan :: "scan_event \<Rightarrow> bool" where
  "failed_scan (Scanned r offset) = (\<not> (r \<and> \<bar>to_float (offset - FCCH_NOMINAL)\<bar> < FCCH_OFFSET_MAX))"
| "failed_scan _ = False"

text \<open>
  A small finished run of \<^verbatim>\<open>c0_detect\<close> over three channels with powers 9, 1 and 2, used as
  a concrete instance below.
\<close>

definition demo_run :: c0_run where
  "demo_run = \<lparr>ret = 0, powers = (\<lambda>i. 0)(1 := 9, 2 := 1, 3 := 2), threshold = Some (3 / 2),
     final = Some \<lparr>found_count = 2, notfound_count = 0, min_max = Some (0, 10),
                   found = [(1, 0), (3, 10)], scanned = [1, 3]\<rparr>\<rparr>"

text \<open>Concrete buffers and items: 512 eight-byte items without overwrite, and three-byte
  items with overwrite, both on 4096-byte pages.\<close>

definition ring8 :: circular_buffer where
  "ring8 = \<lparr>m_buf = (\<lambda>p. 0), m_buf_size = 4096, m_buf_len = 512, m_item_size = 8,
             m_overwrite = 0, m_r = 0, m_w = 0\<rparr>"

definition ring3 :: circular_buffer where
  "ring3 = \<lparr>m_buf = (\<lambda>p. 0), m_buf_size = 4096, m_buf_len = 1365, m_item_size = 3,
             m_overwrite = 1, m_r = 0, m_w = 0\<rparr>"

definition cursors :: "circular_buffer \<times> byte list \<Rightarrow> u32 \<times> u32 \<times> u32 \<times> u32" where
  "cursors res = (case res of (cb, outs) \<Rightarrow>
      (m_r cb, m_w cb, m_buf_size cb, capacity cb * m_item_size cb))"

definition item_a :: "byte list" where
  "item_a = [1, 2, 3, 4, 5, 6, 7, 8]"

definition item_b :: "byte list" where
  "item_b = [9, 10, 11, 12, 13, 14, 15, 16]"


text \<open>
  The detector as the constructor leaves it for the GSM symbol rate as sample rate and the
  default parameters \<open>D = 4\<close>, \<open>p = 1/4\<close>, \<open>G = 1\<close>, in the concrete arithmetic.
\<close>

definition fresh_detector :: "(xreal, xcomplex) fcch_detector" where
  "fresh_detector =
     \<lparr>m_D = 4, m_p = Fin (1 / 4), m_G = Fin 1, m_e = Fin 0, m_sample_rate = Fin GSM_RATE,
      m_fcch_burst_len = 148, m_filter_delay = 8, m_w_len = 17,
      m_w_vec = replicate 17 (Fin 0, Fin 0),
      m_x_cb = \<lparr>m_buf = (\<lambda>p. 0), m_buf_size = 65536, m_buf_len = 8192, m_item_size = 8,
                m_overwrite = 0, m_r = 0, m_w = 0\<rparr>,
      m_y_cb = \<lparr>m_buf = (\<lambda>p. 0), m_buf_size = 65536, m_buf_len = 8192, m_item_size = 8,
                m_overwrite = 1, m_r = 0, m_w = 0\<rparr>,
      m_e_cb = \<lparr>m_buf = (\<lambda>p. 0), m_buf_size = 4063232, m_buf_len = 1015808, m_item_size = 4,
                m_overwrite = 0, m_r = 0, m_w = 0\<rparr>,
      m_lth_count = 0, m_lth_state = HIGH\<rparr>"

text \<open>
  A fresh detector whose sample ring has received 21 samples: the first and the last with
  real part \<open>b / 2^32\<close> (the byte \<open>b\<close> as lowest byte of the sample), all others 0.
\<close>

definition quiet_input :: "real \<Rightarrow> xcomplex list" where
  "quiet_input a = (Fin a, Fin 0) # replicate 19 (Fin 0, Fin 0) @ [(Fin a, Fin 0)]"

definition quiet_detector :: "byte \<Rightarrow> (xreal, xcomplex) fcch_detector" where
  "quiet_detector b =
     fresh_detector\<lparr>m_x_cb :=
       \<lparr>m_buf = (\<lambda>p. 0)(0 := b, 160 := b), m_buf_size = 65536, m_buf_len = 8192,
        m_item_size = 8, m_overwrite = 0, m_r = 0, m_w = 168\<rparr>\<rparr>"

text \<open>
  An input of 121 samples that are all 0 but one, and the detector states while the filter
  runs over it: \<open>k\<close> samples purged, error average \<open>e\<close>, gain \<open>g\<close>, all weights still 0.
\<close>

definition impulse_input :: "xcomplex list" where
  "impulse_input = replicate 116 (Fin 0, Fin 0) @ (Fin (1 / 4), Fin 0) # replicate 4 (Fin 0, Fin 0)"

definition impulse_state :: "nat \<Rightarrow> real \<Rightarrow> real \<Rightarrow> (xreal, xcomplex) fcch_detector \<Rightarrow> bool" where
  "impulse_state k e g d =
     (det_inv d \<and> m_w_len d = 17 \<and> m_D d = 4 \<and> m_p d = Fin (1 / 4)
      \<and> m_e d = Fin e \<and> m_G d = Fin g \<and> m_w_vec d = replicate 17 (Fin 0, Fin 0)
      \<and> ring_complex x_arith (m_x_cb d) = drop k impulse_input
      \<and> m_e_cb d = m_e_cb fresh_detector
      \<and> m_sample_rate d = Fin GSM_RATE \<and> m_fcch_burst_len d = 148
      \<and> m_lth_count d = 0 \<and> m_lth_state d = HIGH)"

text \<open>An input of 121 samples that are all 0.\<close>

definition silent_input :: "xcomplex list" where
  "silent_input = replicate 121 (Fin 0, Fin 0)"

section \<open>Rounding\<close>

lemma binade_numeral:
  "binade (numeral k) x =
     (if 2 \<le> x then binade (pred_numeral k) (x / 2) + 1
      else if x < 1 then binade (pred_numeral k) (2 * x) - 1
      else 0)"
  by (simp add: numeral_eq_Suc)

lemmas rounding = binade_numeral to_float_def to_double_def round_to_def pow2_def round_even_def Let_def

lemma nominal: "FCCH_NOMINAL = 8666667 / 128"
  by (simp add: FCCH_NOMINAL_def GSM_RATE_def rounding)

lemma round_zero [simp]: "to_float 0 = 0" "to_double 0 = 0"
  by (simp_all add: to_float_def to_double_def round_to_def)

subsection \<open>Numbers that round to themselves\<close>

lemma pow2_powr: "pow2 e = 2 powr real_of_int e"
  by (simp add: pow2_def powr_real_of_int field_simps)

lemma pow2_pos [simp]: "0 < pow2 e"
  by (simp add: pow2_powr)

lemma pow2_add: "pow2 (a + b) = pow2 a * pow2 b"
  by (simp add: pow2_powr powr_add)

lemma pow2_mono: "a \<le> b \<Longrightarrow> pow2 a \<le> pow2 b"
  by (simp add: pow2_powr)

lemma pow2_less_iff: "pow2 a < pow2 b \<longleftrightarrow> a < b"
  by (simp add: pow2_powr)

lemma pow2_nat: "0 \<le> e \<Longrightarrow> pow2 e = real_of_int (2 ^ nat e)"
  by (simp add: pow2_def)

lemma binade_bounds:
  assumes "pow2 (- int n) \<le> x" and "x < pow2 (int n + 1)"
  shows "pow2 (binade n x) \<le> x \<and> x < pow2 (binade n x + 1)"
  using assms
proof (induction n arbitrary: x)
  case 0
  then show ?case by (simp add: pow2_def)
next
  case (Suc n)
  have two: "pow2 (e + 1) = 2 * pow2 e" for e
    using pow2_add[of e 1] by (simp add: pow2_def)
  consider "2 \<le> x" | "x < 1" | "1 \<le> x" "x < 2" by linarith
  then show ?case
  proof cases
    case 1
    have "pow2 (- int n) \<le> 1" using pow2_mono[of "- int n" 0] by (simp add: pow2_def)
    then have a: "pow2 (- int n) \<le> x / 2" using 1 by simp
    have "x < 2 * pow2 (int n + 1)" using Suc.prems(2) two[of "int n + 1"] by (simp add: add.commute)
    then have b: "x / 2 < pow2 (int n + 1)" by simp
    from Suc.IH[OF a b] have "pow2 (binade n (x / 2)) \<le> x / 2"
      "x / 2 < pow2 (binade n (x / 2) + 1)" by simp_all
    then have "pow2 (binade n (x / 2) + 1) \<le> x" "x < pow2 (binade n (x / 2) + 1 + 1)"
      using two[of "binade n (x / 2)"] two[of "binade n (x / 2) + 1"] by simp_all
    then show ?thesis using 1 by simp
  next
    case 2
    have "pow2 (- int n) = 2 * pow2 (- int (Suc n))"
      using two[of "- int (Suc n)"] by simp
    then have a: "pow2 (- int n) \<le> 2 * x" using Suc.prems(1) by simp
    have "(2 :: real) \<le> pow2 (int n + 1)"
      using pow2_mono[of 1 "int n + 1"] by (simp add: pow2_def)
    then have b: "2 * x < pow2 (int n + 1)" using 2 by simp
    from Suc.IH[OF a b] have "pow2 (binade n (2 * x)) \<le> 2 * x"
      "2 * x < pow2 (binade n (2 * x) + 1)" by simp_all
    then have "pow2 (binade n (2 * x) - 1) \<le> x" "x < pow2 (binade n (2 * x) - 1 + 1)"
      using two[of "binade n (2 * x) - 1"] two[of "binade n (2 * x)"] by simp_all
    then show ?thesis using 2 by simp
  next
    case 3
    then show ?thesis by (simp add: pow2_def)
  qed
qed

lemma round_even_int [simp]: "round_even (real_of_int z) = z"
  by (simp add: round_even_def)

lemma round_to_exact:
  assumes x: "x = real_of_int m * pow2 k" and m: "\<bar>m\<bar> < 2 ^ p" and k: "emin \<le> k"
    and lo: "pow2 (- 1100) \<le> \<bar>x\<bar> \<or> x = 0" and hi: "\<bar>x\<bar> < pow2 1101"
  shows "round_to p emin x = x"
proof (cases "x = 0")
  case True
  then show ?thesis by (simp add: round_to_def)
next
  case False
  define b where "b = binade 1100 \<bar>x\<bar>"
  define e where "e = max (b - (int p - 1)) emin"
  have "pow2 (- int 1100) \<le> \<bar>x\<bar>" "\<bar>x\<bar> < pow2 (int 1100 + 1)"
    using lo hi False by simp_all
  from binade_bounds[OF this] have bb: "pow2 b \<le> \<bar>x\<bar>" by (simp add: b_def)
  have ax: "\<bar>x\<bar> = real_of_int \<bar>m\<bar> * pow2 k"
    unfolding x by (simp add: abs_mult abs_of_pos)
  have "real_of_int \<bar>m\<bar> < real_of_int (2 ^ p)" using m by (simp only: of_int_less_iff)
  then have "real_of_int \<bar>m\<bar> < pow2 (int p)" by (simp add: pow2_def)
  then have "\<bar>x\<bar> < pow2 (int p) * pow2 k" unfolding ax by simp
  then have "pow2 b < pow2 (int p + k)" using bb by (simp add: pow2_add)
  then have "b < int p + k" by (simp add: pow2_less_iff)
  then have ek: "e \<le> k" using k by (simp add: e_def)
  have "pow2 k = pow2 (k - e) * pow2 e" using pow2_add[of "k - e" e] by simp
  moreover have ne: "pow2 e \<noteq> 0" using pow2_pos[of e] by linarith
  ultimately have "x / pow2 e = real_of_int m * pow2 (k - e)"
    unfolding x by simp
  also have "\<dots> = real_of_int (m * 2 ^ nat (k - e))"
    using ek by (simp add: pow2_nat)
  finally have q: "x / pow2 e = real_of_int (m * 2 ^ nat (k - e))" .
  have "round_to p emin x = real_of_int (round_even (x / pow2 e)) * pow2 e"
    using False by (simp add: round_to_def Let_def b_def e_def)
  also have "\<dots> = x / pow2 e * pow2 e"
    unfolding q by (simp only: round_even_int)
  finally show ?thesis using ne by simp
qed

lemma double_exact:
  assumes "x = real_of_int m / 2 ^ j" and "\<bar>m\<bar> < 2 ^ 53" and "j \<le> 1000" and "\<bar>x\<bar> < 2 ^ 1000"
    and "m \<noteq> 0 \<longrightarrow> 1 / 2 ^ 1000 \<le> \<bar>x\<bar>"
  shows "to_double x = x"
proof -
  have p: "pow2 (- int j) = 1 / 2 ^ j" by (simp add: pow2_def)
  have x: "x = real_of_int m * pow2 (- int j)" using assms(1) p by simp
  have k: "- 1074 \<le> - int j" using assms(3) by simp
  have "pow2 (- 1100) \<le> 1 / 2 ^ 1000"
    using pow2_mono[of "- 1100" "- 1000"] by (simp add: pow2_def)
  then have lo: "pow2 (- 1100) \<le> \<bar>x\<bar> \<or> x = 0"
    using assms(5) x by (cases "m = 0") auto
  have "(2 :: real) ^ 1000 \<le> pow2 1101"
    using pow2_mono[of 1000 1101] by (simp add: pow2_def)
  then have hi: "\<bar>x\<bar> < pow2 1101" using assms(4) by linarith
  show ?thesis
    unfolding to_double_def using x assms(2) k lo hi by (rule round_to_exact)
qed

section \<open>Offset aggregation\<close>

lemma avg_loop_sum:
  "fst (avg_loop xs (s, q)) = foldl (\<lambda>s x. to_double (s + x)) s xs"
  by (induction xs arbitrary: s q) simp_all

lemma avg_mean:
  assumes "0 < n" "n \<le> length data"
  shows "\<exists>sd. avg data (int n) = Some (double_mean (take n data), sd)"
proof -
  obtain s q where l: "avg_loop (take n data) (0, 0) = (s, q)"
    by (cases "avg_loop (take n data) (0, 0)")
  have "s = foldl (\<lambda>s x. to_double (s + x)) 0 (take n data)"
    using avg_loop_sum[of "take n data" 0 0] l by simp
  then show ?thesis
    using assms l by (simp add: avg_def double_mean_def Let_def min_absorb2)
qed

lemma trimmed_window_report:
  assumes "10 \<le> length offs"
  shows "\<exists>r. offset_analysis offs hz_adjust center_freq = Some r
           \<and> avg_offset r = double_mean (interior_80 (sort offs))
           \<and> min_offset r = hd (interior_80 (sort offs))
           \<and> max_offset r = last (interior_80 (sort offs))"
proof -
  let ?c = "length offs" and ?s = "sort offs"
  let ?t = "?c div 10"
  have t: "2 * ?t < ?c" "?t < ?c" using assms by auto
  have w: "interior_80 ?s = take (?c - 2 * ?t) (drop ?t ?s)"
    by (simp add: interior_80_def drop_take mult_2)
  have pos: "0 < ?c - 2 * ?t" using t by simp
  have le: "?c - 2 * ?t \<le> length (drop ?t ?s)" by simp
  have ne: "interior_80 ?s \<noteq> []" unfolding w using t by simp
  have h: "hd (interior_80 ?s) = ?s ! ?t"
    unfolding w using t by (simp add: hd_conv_nth)
  have l: "last (interior_80 ?s) = ?s ! (?c - ?t - 1)"
    using ne t unfolding w by (simp add: last_conv_nth)
  from avg_mean[OF pos le] obtain sd where
    "avg (drop ?t ?s) (int (?c - 2 * ?t)) = Some (double_mean (interior_80 ?s), sd)"
    unfolding w by blast
  then show ?thesis
    using assms t h l by (auto simp add: offset_analysis_def sort_floats_def Let_def)
qed

lemma offset_loop_found_run:
  assumes "length (offsets st) + n \<le> TARGET_COUNT" "iterations st + n \<le> MAX_ITERATIONS"
  shows "offset_loop 0 (replicate n (Scanned True (2167691 / 32)) @ evs) st
       = offset_loop 0 evs (st\<lparr>iterations := iterations st + n,
                                  offsets := offsets st @ replicate n (4097 / 128)\<rparr>)"
  using assms
proof (induction n arbitrary: st)
  case 0
  then show ?case by simp
next
  case (Suc n)
  have d: "to_float (to_float (2167691 / 32 - FCCH_NOMINAL)) = 4097 / 128"
    unfolding nominal by (simp add: rounding)
  have "offset_loop 0 (replicate (Suc n) (Scanned True (2167691 / 32)) @ evs) st
      = offset_loop 0 (replicate n (Scanned True (2167691 / 32)) @ evs)
          (st\<lparr>iterations := iterations st + 1, offsets := offsets st @ [4097 / 128]\<rparr>)"
    using Suc.prems
    by (subst offset_loop.simps) (simp add: record_scan_def FCCH_OFFSET_MAX_def d)
  also have "\<dots> = offset_loop 0 evs (st\<lparr>iterations := iterations st + Suc n,
                                  offsets := offsets st @ replicate (Suc n) (4097 / 128)\<rparr>)"
    using Suc.prems by (subst Suc.IH) (simp_all add: replicate_app_Cons_same)
  finally show ?case .
qed

lemma equal_sums:
  assumes "k + n \<le> 100"
  shows "avg_loop (replicate n (4097 / 128)) (real k * (4097 / 128), real k * (2049 / 2))
       = (real (k + n) * (4097 / 128), real (k + n) * (2049 / 2))"
  using assms
proof (induction n arbitrary: k)
  case 0
  then show ?case by simp
next
  case (Suc n)
  have sq: "to_float (4097 / 128 * (4097 / 128)) = 2049 / 2"
    by (simp add: rounding)
  have a: "to_double (real k * (4097 / 128) + 4097 / 128) = real (Suc k) * (4097 / 128)"
  proof -
    have e: "real k * (4097 / 128) + 4097 / 128 = real_of_int (int (Suc k) * 4097) / 2 ^ 7"
      by (simp add: field_simps)
    have "to_double (real_of_int (int (Suc k) * 4097) / 2 ^ 7)
        = real_of_int (int (Suc k) * 4097) / 2 ^ 7"
    proof (rule double_exact[OF refl])
      show "\<bar>int (Suc k) * 4097\<bar> < 2 ^ 53" using Suc.prems by simp
      show "(7::nat) \<le> 1000" by simp
      have "real_of_int (int (Suc k) * 4097) \<le> 100 * 4097" using Suc.prems by simp
      then show "\<bar>real_of_int (int (Suc k) * 4097) / 2 ^ 7\<bar> < 2 ^ 1000" by simp
      have "1 \<le> real_of_int (int (Suc k) * 4097) / 2 ^ 7" by (simp add: field_simps)
      moreover have "(1::real) / 2 ^ 1000 \<le> 1" by simp
      ultimately show "int (Suc k) * 4097 \<noteq> 0 \<longrightarrow>
          1 / 2 ^ 1000 \<le> \<bar>real_of_int (int (Suc k) * 4097) / 2 ^ 7\<bar>" by linarith
    qed
    then show ?thesis unfolding e by (simp add: field_simps)
  qed
  have b: "to_double (real k * (2049 / 2) + 2049 / 2) = real (Suc k) * (2049 / 2)"
  proof -
    have e: "real k * (2049 / 2) + 2049 / 2 = real_of_int (int (Suc k) * 2049) / 2 ^ 1"
      by (simp add: field_simps)
    have "to_double (real_of_int (int (Suc k) * 2049) / 2 ^ 1)
        = real_of_int (int (Suc k) * 2049) / 2 ^ 1"
    proof (rule double_exact[OF refl])
      show "\<bar>int (Suc k) * 2049\<bar> < 2 ^ 53" using Suc.prems by simp
      show "(1::nat) \<le> 1000" by simp
      have "real_of_int (int (Suc k) * 2049) \<le> 100 * 2049" using Suc.prems by simp
      then show "\<bar>real_of_int (int (Suc k) * 2049) / 2 ^ 1\<bar> < 2 ^ 1000" by simp
      have "1 \<le> real_of_int (int (Suc k) * 2049) / 2 ^ 1" by (simp add: field_simps)
      moreover have "(1::real) / 2 ^ 1000 \<le> 1" by simp
      ultimately show "int (Suc k) * 2049 \<noteq> 0 \<longrightarrow>
          1 / 2 ^ 1000 \<le> \<bar>real_of_int (int (Suc k) * 2049) / 2 ^ 1\<bar>" by linarith
    qed
    then show ?thesis unfolding e by (simp add: field_simps)
  qed
  have "avg_loop (replicate (Suc n) (4097 / 128)) (real k * (4097 / 128), real k * (2049 / 2))
      = avg_loop (replicate n (4097 / 128))
          (real (Suc k) * (4097 / 128), real (Suc k) * (2049 / 2))"
    by (simp only: replicate_Suc avg_loop.simps sq a b)
  also have "\<dots> = (real (Suc k + n) * (4097 / 128), real (Suc k + n) * (2049 / 2))"
    using Suc.prems by (intro Suc.IH) simp
  finally show ?case by simp
qed

lemma equal_avg: "avg (replicate 90 (4097 / 128)) 80 = Some (4097 / 128, None)"
proof -
  have l: "avg_loop (replicate 80 (4097 / 128)) (0, 0) = (80 * (4097 / 128), 80 * (2049 / 2))"
    using equal_sums[of 0 80] by simp
  have m: "to_double (4097 / 128) = 4097 / 128" by (simp add: rounding)
  have mm: "to_double (16785409 / 16384) = 16785409 / 16384" by (simp add: rounding)
  have q: "to_double (2049 / 2) = 2049 / 2" by (simp add: rounding)
  have v: "to_double (- (1 / 16384)) = - (1 / 16384)" by (simp add: rounding)
  show ?thesis
    by (simp add: avg_def l m mm q v Let_def)
qed


lemma sort_replicate: "sort (replicate n (x::real)) = replicate n x"
  by (simp add: sorted_sort_id sorted_replicate)

text \<open>
  Claim C5 at one hundred equal detections.  Each scan reports the \<^verbatim>\<open>float\<close> 67740.34375, so
  that each stored offset is 32.0078125.  The run reports that value as mean, min and max.
  The \<^verbatim>\<open>float\<close> product \<^verbatim>\<open>data[i] * data[i]\<close> is 1024.5, below the square 1024.50006103515625
  of the mean, which \<^verbatim>\<open>mean * mean\<close> holds exactly: the argument of \<^verbatim>\<open>sqrt\<close> is \<open>-1/16384\<close> and
  the reported standard deviation is NaN, where the standard deviation of the trimmed window
  is 0.
\<close>

theorem equal_offsets_deviation_nan:
  "(\<exists>r. offset_detect 0 0 935000000 (replicate 100 (Scanned True (2167691 / 32)))
           = Some (Report r)
        \<and> avg_offset r = 4097 / 128 \<and> stddev r = None
        \<and> min_offset r = 4097 / 128 \<and> max_offset r = 4097 / 128)
   \<and> arithmetic_mean (interior_80 (sort (replicate 100 (4097 / 128)))) = 4097 / 128
   \<and> standard_deviation (interior_80 (sort (replicate 100 (4097 / 128)))) = 0"
proof -
  have run: "offset_loop 0 (replicate 100 (Scanned True (2167691 / 32)))
       \<lparr>offsets = [], iterations = 0, notfound = 0\<rparr>
     = Some (Collected \<lparr>offsets = replicate 100 (4097 / 128), iterations = 100, notfound = 0\<rparr>)"
    using offset_loop_found_run[of "\<lparr>offsets = [], iterations = 0, notfound = 0\<rparr>" 100 "[]"]
    by (simp add: TARGET_COUNT_def MAX_ITERATIONS_def offset_loop.simps)
  have an: "offset_analysis (replicate 100 (4097 / 128)) 0 935000000
      = Some \<lparr>avg_offset = 4097 / 128, stddev = None,
               min_offset = 4097 / 128, max_offset = 4097 / 128,
               total_ppm = Some (to_double (to_double (to_double (4097 / 128) / 935000000)
                                   * 1000000))\<rparr>"
    by (simp add: offset_analysis_def sort_floats_def sort_replicate equal_avg Let_def)
  have w: "interior_80 (sort (replicate 100 (4097 / 128))) = replicate 80 (4097 / 128)"
    by (simp add: interior_80_def sort_replicate)
  have m: "arithmetic_mean (replicate 80 (4097 / 128)) = 4097 / 128"
    by (simp add: arithmetic_mean_def sum_list_replicate)
  have sd: "standard_deviation (replicate 80 (4097 / 128)) = 0"
    by (simp add: standard_deviation_def m sum_list_replicate)
  show ?thesis
    unfolding w m sd by (simp add: offset_detect_def run an)
qed

section \<open>Band scan: threshold, retries, sanity check\<close>

lemma detect_threshold_mean:
  assumes "detect_threshold chans pwr = Some a"
    and "n = length (filter (\<lambda>i. i < MAX_ARFCN) chans)" and "0 < n"
  shows "a = double_mean (take (n - 4 * n div 10) (sort (spower_of chans pwr)))"
proof -
  let ?sp = "spower_of chans pwr"
  have len: "length ?sp = n" by (simp add: spower_of_def assms(2))
  have pos: "0 < n - 4 * n div 10" using assms(3) by linarith
  have le: "n - 4 * n div 10 \<le> length (sort ?sp)" by (simp add: len)
  have eq: "int n - 4 * int n div 10 = int (n - 4 * n div 10)"
    by (simp add: of_nat_diff zdiv_int)
  obtain sd where "avg (sort ?sp) (int (n - 4 * n div 10))
      = Some (double_mean (take (n - 4 * n div 10) (sort ?sp)), sd)"
    using avg_mean[OF pos le] by blast
  then have "avg (sort ?sp) (int n - 4 * int n div 10)
      = Some (double_mean (take (n - 4 * n div 10) (sort ?sp)), sd)"
    by (simp only: eq)
  then show ?thesis
    using assms(1) assms(3) len
    by (simp add: detect_threshold_def Let_def sort_floats_def split: if_splits)
qed

lemma scanned_step: "scanned (snd (c0_scan_step i r offset st)) = scanned st @ [i]"
  by (simp add: c0_scan_step_def Let_def split: option.splits)

lemma c0_scan_loop_scanned:
  assumes "c0_scan_loop pwr a chans evs st = Some (status, st')"
  shows "\<forall>i \<in> set (scanned st'). i \<in> set (scanned st) \<or> a < pwr i"
  using assms
proof (induction pwr a chans evs st rule: c0_scan_loop.induct)
  case (1 pwr a evs st)
  then show ?case by simp
next
  case (2 pwr a i rest evs st)
  show ?case
  proof (cases "i \<ge> MAX_ARFCN \<or> pwr i \<le> a")
    case True
    then show ?thesis using 2 by (auto split: if_splits)
  next
    case False
    then have f: "\<not> i \<ge> MAX_ARFCN" "\<not> pwr i \<le> a" by auto
    show ?thesis
    proof (cases evs)
      case Nil
      then show ?thesis using 2(5) f by simp
    next
      case (Cons e evs')
      show ?thesis
      proof (cases e)
        case (Scanned r offset)
        obtain adv st1 where s: "c0_scan_step i r offset st = (adv, st1)"
          by (cases "c0_scan_step i r offset st")
        have sc: "scanned st1 = scanned st @ [i]"
          using scanned_step[of i r offset st] s by simp
        show ?thesis
        proof (cases adv)
          case True
          then have "c0_scan_loop pwr a rest evs' st1 = Some (status, st')"
            using 2(5) f Cons Scanned s by simp
          from 2(3)[OF f Cons Scanned s[symmetric] _ this] True
          show ?thesis using sc f by auto
        next
          case False
          then have "c0_scan_loop pwr a (i # rest) evs' st1 = Some (status, st')"
            using 2(5) f Cons Scanned s by simp
          from 2(4)[OF f Cons Scanned s[symmetric] _ this] False
          show ?thesis using sc f by auto
        qed
      qed (use 2(5) f Cons in auto)
    qed
  qed
qed


text \<open>
  Claim C6, as the code has it.  In a run of \<^verbatim>\<open>c0_detect\<close> over \<open>n > 0\<close> channels below
  \<^verbatim>\<open>MAX_ARFCN\<close> that reaches pass 2, with measured powers in the range of \<^verbatim>\<open>float\<close>, the
  threshold \<open>a\<close> is the mean, summed and divided in \<^verbatim>\<open>double\<close>, of the first
  \<open>n - 4 * n div 10\<close> entries of the ascending-sorted \<^verbatim>\<open>float\<close> copies of the channel powers,
  and every channel handed to \<^verbatim>\<open>scan\<close> in pass 2 has a measured power (the \<^verbatim>\<open>double\<close>)
  strictly above \<open>a\<close>.
\<close>

theorem threshold_lowest_60_percent:
  assumes "c0_detect chans sweep_evs scan_evs = Some run"
    and "threshold run = Some a"
    and "n = length (filter (\<lambda>i. i < MAX_ARFCN) chans)" and "0 < n"
    and "\<forall>i \<in> set chans. \<bar>powers run i\<bar> \<le> FLT_MAX"
  shows "a = double_mean (take (n - 4 * n div 10)
               (sort (map (\<lambda>i. to_float (powers run i)) (filter (\<lambda>i. i < MAX_ARFCN) chans))))
       \<and> (\<forall>st. final run = Some st \<longrightarrow> (\<forall>i \<in> set (scanned st). a < powers run i))"
proof -
  obtain pwr where sw: "power_sweep chans sweep_evs (\<lambda>i. 0) = Some (Swept pwr)"
    using assms(1,2)
    by (auto simp: c0_detect_def split: option.splits sweep_outcome.splits)
  obtain a' where th: "detect_threshold chans pwr = Some a'"
    using assms(1) sw by (auto simp: c0_detect_def split: option.splits)
  obtain status st where lp: "c0_scan_loop pwr a' chans scan_evs c0_init = Some (status, st)"
    using assms(1) sw th by (auto simp: c0_detect_def split: option.splits if_splits)
  have run: "powers run = pwr" "threshold run = Some a'" "final run = Some st"
    using assms(1) sw th lp
    by (auto simp: c0_detect_def split: option.splits if_splits c0_status.splits)
  have a: "a' = a" using run(2) assms(2) by simp
  have "\<forall>i \<in> set (scanned st). a < pwr i"
    using c0_scan_loop_scanned[OF lp] a by (simp add: c0_init_def)
  then show ?thesis
    using detect_threshold_mean[OF th assms(3,4)] run a by (simp add: spower_of_def)
qed

lemma demo_c0: "c0_detect [1, 2, 3] [Measured 9, Measured 1, Measured 2]
       [Scanned True FCCH_NOMINAL, Scanned True (FCCH_NOMINAL + 10)] = Some demo_run"
proof -
  have f: "to_float 9 = 9" "to_float 1 = 1" "to_float 2 = 2" "to_float 10 = 10"
    by (simp_all add: rounding)
  have d: "to_double 1 = 1" "to_double 3 = 3" "to_double (3 / 2) = 3 / 2"
    by (simp_all add: rounding)
  have th: "detect_threshold [1, 2, 3] ((\<lambda>i. 0)(1 := 9, 2 := 1, 3 := 2)) = Some (3 / 2)"
    by (simp add: detect_threshold_def spower_of_def sort_floats_def avg_def MAX_ARFCN_def
          Let_def f d)
  show ?thesis
    using th
    by (simp add: c0_detect_def MAX_ARFCN_def c0_init_def c0_scan_step_def
          FCCH_OFFSET_MAX_def Let_def demo_run_def f)
qed

text \<open>
  Claim C6, an instance: three channels with powers 9, 1 and 2; the threshold is the mean 3/2
  of the two lowest, and channels 1 and 3 are scanned.
\<close>

theorem threshold_lowest_60_percent_witness:
  "c0_detect [1, 2, 3] [Measured 9, Measured 1, Measured 2]
       [Scanned True FCCH_NOMINAL, Scanned True (FCCH_NOMINAL + 10)] = Some demo_run
   \<and> threshold demo_run = Some (3 / 2)
   \<and> (3::nat) = length (filter (\<lambda>i. i < MAX_ARFCN) [1, 2, 3]) \<and> (0::nat) < 3
   \<and> list_all (\<lambda>i. \<bar>powers demo_run i\<bar> \<le> FLT_MAX) [1, 2, 3]
   \<and> (3 / 2 :: real) = double_mean (take (3 - 4 * 3 div 10)
          (sort (map (\<lambda>i. to_float (powers demo_run i)) (filter (\<lambda>i. i < MAX_ARFCN) [1, 2, 3]))))
   \<and> (\<exists>st. final demo_run = Some st \<and> scanned st = [1, 3]
          \<and> list_all (\<lambda>i. 3 / 2 < powers demo_run i) (scanned st))"
proof -
  have t: "threshold demo_run = Some (3 / 2)" by (simp add: demo_run_def)
  have n: "(3::nat) = length (filter (\<lambda>i. i < MAX_ARFCN) [1, 2, 3])"
    by (simp add: MAX_ARFCN_def)
  have s: "\<exists>st. final demo_run = Some st \<and> scanned st = [1, 3]" by (simp add: demo_run_def)
  have r: "\<forall>i \<in> set [1, 2, 3]. \<bar>powers demo_run i\<bar> \<le> FLT_MAX"
    by (simp add: demo_run_def FLT_MAX_def)
  show ?thesis
    using threshold_lowest_60_percent[OF demo_c0 t n _ r] demo_c0 t n s r
    by (auto simp: list_all_iff)
qed

text \<open>
  Claim C6 as stated fails: with the power \<open>1 + 2^-30\<close> measured on each of three channels,
  the \<^verbatim>\<open>float\<close> copies are 1 and so is the threshold; every channel lies above it and is
  scanned, although no power exceeds the arithmetic mean \<open>1 + 2^-30\<close> of the two lowest
  powers.
\<close>

theorem float_threshold_counterexample:
  "c0_detect [1, 2, 3] (replicate 3 (Measured (1 + 1 / 2 ^ 30)))
       (replicate 3 (Scanned True FCCH_NOMINAL))
     = Some \<lparr>ret = 0, powers = (\<lambda>i. 0)(1 := 1 + 1 / 2 ^ 30, 2 := 1 + 1 / 2 ^ 30,
                                        3 := 1 + 1 / 2 ^ 30),
             threshold = Some 1,
             final = Some \<lparr>found_count = 3, notfound_count = 0, min_max = Some (0, 0),
                          found = [(1, 0), (2, 0), (3, 0)], scanned = [1, 2, 3]\<rparr>\<rparr>
   \<and> arithmetic_mean (take (3 - 4 * 3 div 10)
        (sort (map ((\<lambda>i. 0)(1 := 1 + 1 / 2 ^ 30, 2 := 1 + 1 / 2 ^ 30, 3 := 1 + 1 / 2 ^ 30))
           [1, 2, 3 :: nat]))) = (1 + 1 / 2 ^ 30 :: real)"
proof -
  have f: "to_float (1 + 1 / 2 ^ 30) = 1" "to_float (1073741825 / 1073741824) = 1"
    by (simp_all add: rounding)
  have d: "to_double 1 = 1" "to_double 2 = 2"
    by (simp_all add: rounding)
  let ?p = "(\<lambda>i. 0)(1 := 1 + 1 / 2 ^ 30, 2 := 1 + 1 / 2 ^ 30, 3 := 1 + 1 / 2 ^ 30) :: nat \<Rightarrow> real"
  have th: "detect_threshold [1, 2, 3] ?p = Some 1"
    by (simp add: detect_threshold_def spower_of_def sort_floats_def avg_def MAX_ARFCN_def
          Let_def f d)
  have run: "c0_detect [1, 2, 3] (replicate 3 (Measured (1 + 1 / 2 ^ 30)))
       (replicate 3 (Scanned True FCCH_NOMINAL))
     = Some \<lparr>ret = 0, powers = ?p, threshold = Some 1,
             final = Some \<lparr>found_count = 3, notfound_count = 0, min_max = Some (0, 0),
                          found = [(1, 0), (2, 0), (3, 0)], scanned = [1, 2, 3]\<rparr>\<rparr>"
    using th
    by (simp add: c0_detect_def eval_nat_numeral MAX_ARFCN_def c0_init_def c0_scan_step_def
          FCCH_OFFSET_MAX_def Let_def)
  have m: "arithmetic_mean (take (3 - 4 * 3 div 10) (sort (map ?p [1, 2, 3 :: nat])))
      = (1 + 1 / 2 ^ 30 :: real)"
    by (simp add: arithmetic_mean_def)
  show ?thesis using run m by simp
qed

lemma failed_step:
  assumes "failed_scan (Scanned r offset)"
  shows "c0_scan_step i r offset st =
     (if notfound_count st + 1 \<ge> NOTFOUND_MAX
      then (True, st\<lparr>scanned := scanned st @ [i], notfound_count := 0\<rparr>)
      else (False, st\<lparr>scanned := scanned st @ [i], notfound_count := notfound_count st + 1\<rparr>))"
  using assms by (auto simp: c0_scan_step_def Let_def)

lemma failures_stay:
  assumes "i < MAX_ARFCN" "a < pwr i" "\<forall>e \<in> set fails. failed_scan e"
    and "notfound_count st + length fails < NOTFOUND_MAX"
  shows "c0_scan_loop pwr a (i # rest) (fails @ evs) st
       = c0_scan_loop pwr a (i # rest) evs
           (st\<lparr>scanned := scanned st @ replicate (length fails) i,
                notfound_count := notfound_count st + length fails\<rparr>)"
  using assms(3,4)
proof (induction fails arbitrary: st)
  case Nil
  then show ?case by simp
next
  case (Cons e fails)
  then obtain r offset where e: "e = Scanned r offset" and f: "failed_scan (Scanned r offset)"
    by (cases e) auto
  let ?st1 = "st\<lparr>scanned := scanned st @ [i], notfound_count := notfound_count st + 1\<rparr>"
  have step: "c0_scan_step i r offset st = (False, ?st1)"
    using failed_step[OF f] Cons.prems(2) by simp
  have "c0_scan_loop pwr a (i # rest) ((e # fails) @ evs) st
      = c0_scan_loop pwr a (i # rest) (fails @ evs) ?st1"
    using assms(1,2) e step by simp
  also have "\<dots> = c0_scan_loop pwr a (i # rest) evs
           (?st1\<lparr>scanned := scanned ?st1 @ replicate (length fails) i,
                notfound_count := notfound_count ?st1 + length fails\<rparr>)"
    using Cons.prems by (intro Cons.IH) auto
  finally show ?case by (simp add: replicate_app_Cons_same)
qed

text \<open>
  Claim C7, as the code has it (\<^verbatim>\<open>NOTFOUND_MAX\<close> is 10).  On a candidate channel \<open>i\<close> reached
  with \<open>notfound_count = 0\<close>, \<open>k \<le> 10\<close> consecutive failed scans leave the driver on channel
  \<open>i\<close> with \<open>notfound_count = k\<close> as long as \<open>k < 10\<close>; the tenth failure resets the counter
  and moves the driver to the next channel.
\<close>

theorem advance_after_notfound_max:
  assumes "i < MAX_ARFCN" and "a < pwr i" and "notfound_count st = 0"
    and "\<forall>e \<in> set fails. failed_scan e" and "length fails = k" and "k \<le> 10"
  shows "c0_scan_loop pwr a (i # rest) (fails @ evs) st =
     (if k = 10
      then c0_scan_loop pwr a rest evs
             (st\<lparr>scanned := scanned st @ replicate k i, notfound_count := 0\<rparr>)
      else c0_scan_loop pwr a (i # rest) evs
             (st\<lparr>scanned := scanned st @ replicate k i, notfound_count := k\<rparr>))"
proof (cases "k = 10")
  case False
  then show ?thesis
    using failures_stay[where pwr=pwr and a=a and i=i and fails=fails and st=st
        and rest=rest and evs=evs] assms
    by (simp add: NOTFOUND_MAX_def)
next
  case True
  then have "fails \<noteq> []" using assms(5) by auto
  then obtain fs e where fe: "fails = fs @ [e]" by (metis rev_exhaust)
  then obtain r offset where e: "e = Scanned r offset" and f: "failed_scan (Scanned r offset)"
    using assms(4) by (cases e) auto
  have len: "length fs = 9" using fe assms(5) True by simp
  let ?st9 = "st\<lparr>scanned := scanned st @ replicate 9 i, notfound_count := 9\<rparr>"
  have "c0_scan_loop pwr a (i # rest) (fs @ ([e] @ evs)) st
      = c0_scan_loop pwr a (i # rest) ([e] @ evs) ?st9"
    using failures_stay[where pwr=pwr and a=a and i=i and fails=fs and st=st
        and rest=rest and evs="[e] @ evs"] assms fe len
    by (simp add: NOTFOUND_MAX_def)
  moreover have "c0_scan_step i r offset ?st9
      = (True, ?st9\<lparr>scanned := scanned ?st9 @ [i], notfound_count := 0\<rparr>)"
    using failed_step[OF f, of i ?st9] by (simp add: NOTFOUND_MAX_def)
  ultimately show ?thesis
    using True assms(1,2) e fe
    by (simp add: replicate_append_same eval_nat_numeral)
qed

text \<open>
  Claim C7, an instance: ten failed scans of channel 7, then an exit request on channel 8.
\<close>

theorem advance_after_notfound_max_witness:
  "(7::nat) < MAX_ARFCN \<and> (0::real) < (\<lambda>i. 1) (7::nat) \<and> notfound_count c0_init = 0
   \<and> list_all failed_scan (replicate 10 (Scanned False 0))
   \<and> length (replicate 10 (Scanned False 0)) = 10
   \<and> c0_scan_loop (\<lambda>i. 1) 0 [7, 8] (replicate 10 (Scanned False 0) @ [ExitRequested]) c0_init
      = Some (ScanCancelled, c0_init\<lparr>scanned := replicate 10 7\<rparr>)"
proof -
  have h: "\<forall>e \<in> set (replicate 10 (Scanned False 0)). failed_scan e" by simp
  have i: "(7::nat) < MAX_ARFCN" by (simp add: MAX_ARFCN_def)
  have z: "notfound_count c0_init = 0" by (simp add: c0_init_def)
  have l: "length (replicate 10 (Scanned False 0)) = 10" by simp
  have a: "(0::real) < (\<lambda>i. 1) (7::nat)" by simp
  show ?thesis
    using advance_after_notfound_max[where pwr="\<lambda>i. 1" and a=0 and i=7 and st=c0_init
        and fails="replicate 10 (Scanned False 0)" and k=10 and rest="[8]"
        and evs="[ExitRequested]", OF i a z h l] i
    by (simp add: c0_init_def MAX_ARFCN_def list_all_iff)
qed

text \<open>
  Claim C7 as stated fails: after five consecutive failed scans of channel 7 the sixth scan
  is still a scan of channel 7 (it is the one that finds the channel); channel 8 is reached
  only afterwards.
\<close>

theorem five_failures_counterexample:
  "c0_scan_loop (\<lambda>i. 1) 0 [7, 8]
       (replicate 5 (Scanned False 0) @ [Scanned True FCCH_NOMINAL, ExitRequested]) c0_init
     = Some (ScanCancelled,
         \<lparr>found_count = 1, notfound_count = 0, min_max = Some (0, 0),
          found = [(7, 0)], scanned = [7, 7, 7, 7, 7, 7]\<rparr>)"
  by (simp add: eval_nat_numeral c0_init_def c0_scan_step_def MAX_ARFCN_def NOTFOUND_MAX_def
        FCCH_OFFSET_MAX_def Let_def)



section \<open>Ring buffer: invariant and FIFO round trip\<close>

lemma cb_inv_loose: "cb_inv cb \<Longrightarrow> cb_loose cb"
  by (simp add: cb_inv_def)

lemma rewind_fields [simp]:
  "m_buf (rewind cb) = m_buf cb" "m_buf_size (rewind cb) = m_buf_size cb"
  "m_buf_len (rewind cb) = m_buf_len cb" "m_item_size (rewind cb) = m_item_size cb"
  "m_overwrite (rewind cb) = m_overwrite cb"
  by (simp_all add: rewind_def)

lemma rewind_diff [simp]: "m_w (rewind cb) - m_r (rewind cb) = m_w cb - m_r cb"
  by (simp add: rewind_def)

lemma rewind_cases:
  assumes "cb_loose cb"
  obtains (wrapped) "unat (m_buf_size cb) \<le> unat (m_r cb)"
      "unat (m_r (rewind cb)) = unat (m_r cb) - unat (m_buf_size cb)"
      "unat (m_w (rewind cb)) = unat (m_w cb) - unat (m_buf_size cb)"
    | (same) "unat (m_r cb) < unat (m_buf_size cb)" "rewind cb = cb"
proof (cases "unat (m_buf_size cb) \<le> unat (m_r cb)")
  case True
  have "unat (m_r cb) \<le> unat (m_w cb)" using assms by (simp add: cb_loose_def)
  then have le: "m_buf_size cb \<le> m_r cb" "m_buf_size cb \<le> m_w cb"
    using True by (simp_all add: word_le_nat_alt)
  then have "unat (m_r (rewind cb)) = unat (m_r cb) - unat (m_buf_size cb)"
    "unat (m_w (rewind cb)) = unat (m_w cb) - unat (m_buf_size cb)"
    by (simp_all add: rewind_def unat_sub)
  then show ?thesis using True wrapped by blast
next
  case False
  then have "\<not> m_buf_size cb \<le> m_r cb" by (simp add: word_le_nat_alt)
  then have "rewind cb = cb" by (simp add: rewind_def)
  then show ?thesis using False same by simp
qed

lemma rewind_used:
  assumes "cb_loose cb"
  shows "used (rewind cb) = used cb"
  using assms
proof (cases rule: rewind_cases)
  case wrapped
  moreover have "unat (m_r cb) \<le> unat (m_w cb)" using assms by (simp add: cb_loose_def)
  ultimately show ?thesis by (simp add: used_def)
next
  case same
  then show ?thesis by simp
qed

lemma rewind_inv:
  assumes "cb_loose cb"
  shows "cb_inv (rewind cb)"
proof -
  have u: "used (rewind cb) = used cb" by (rule rewind_used[OF assms])
  then have al: "aligned (rewind cb)" using assms by (simp add: aligned_def cb_loose_def)
  from assms show ?thesis
  proof (cases rule: rewind_cases)
    case wrapped
    have "unat (m_r cb) < 2 * unat (m_buf_size cb)" "unat (m_r cb) \<le> unat (m_w cb)"
      using assms by (simp_all add: cb_loose_def)
    then have "unat (m_r (rewind cb)) < unat (m_buf_size cb)"
      "unat (m_r (rewind cb)) \<le> unat (m_w (rewind cb))"
      using wrapped by simp_all
    then show ?thesis using assms u al by (simp add: cb_inv_def cb_loose_def)
  next
    case same
    then show ?thesis using assms by (simp add: cb_inv_def)
  qed
qed

lemma used_bytes: "cb_loose cb \<Longrightarrow> unat (m_w cb - m_r cb) = used cb"
  by (simp add: cb_loose_def used_def unat_sub word_le_nat_alt)

lemma free_bytes:
  assumes "cb_loose cb"
  shows "unat (m_buf_size cb - (m_w cb - m_r cb)) = unat (m_buf_size cb) - used cb"
proof -
  have "used cb \<le> unat (m_buf_size cb)" using assms by (simp add: cb_loose_def)
  then have "m_w cb - m_r cb \<le> m_buf_size cb"
    using used_bytes[OF assms] by (simp add: word_le_nat_alt)
  then show ?thesis using used_bytes[OF assms] by (simp add: unat_sub)
qed

lemma data_available_nat:
  "cb_loose cb \<Longrightarrow> unat (data_available cb) = used cb div unat (m_item_size cb)"
  by (simp add: data_available_def Let_def unat_div used_bytes)

lemma space_available_nat:
  "cb_loose cb \<Longrightarrow>
     unat (space_available cb) = (unat (m_buf_size cb) - used cb) div unat (m_item_size cb)"
  by (simp add: space_available_def Let_def unat_div free_bytes)

lemma split_div:
  fixes x S c :: nat
  assumes "0 < c" "x \<le> S" "c dvd x \<or> c dvd (S - x)"
  shows "x div c + (S - x) div c = S div c"
proof -
  from assms(3) show ?thesis
  proof
    assume "c dvd x"
    then obtain k where k: "x = c * k" by (auto simp: dvd_def)
    have "S = (S - x) + k * c" using assms(2) k by (simp add: mult.commute)
    then have "S div c = (S - x) div c + k"
      using assms(1) by (metis div_mult_self1 less_numeral_extra(3) add.commute)
    then show ?thesis using k assms(1) by simp
  next
    assume "c dvd (S - x)"
    then obtain k where k: "S - x = c * k" by (auto simp: dvd_def)
    have "S = x + k * c" using assms(2) k by (simp add: mult.commute)
    then have "S div c = x div c + k"
      using assms(1) by (metis div_mult_self1 less_numeral_extra(3) add.commute)
    then show ?thesis using k assms(1) by simp
  qed
qed

lemma inv_counts:
  assumes "cb_inv cb"
  shows "data_available cb + space_available cb = capacity cb"
proof -
  let ?S = "unat (m_buf_size cb)" and ?c = "unat (m_item_size cb)"
  have l: "cb_loose cb" using assms by (rule cb_inv_loose)
  have f: "0 < ?c" "used cb \<le> ?S" "?c dvd used cb \<or> ?c dvd (?S - used cb)"
    "unat (m_buf_len cb) = ?S div ?c"
    using l by (auto simp: cb_loose_def aligned_def)
  have s: "unat (data_available cb) + unat (space_available cb) = unat (capacity cb)"
    using split_div[OF f(1,2,3)] f(4)
    by (simp add: data_available_nat[OF l] space_available_nat[OF l] capacity_def)
  have "unat (capacity cb) < 2 ^ 32" using unsigned_less[of "capacity cb"] by simp
  then have "unat (data_available cb + space_available cb)
      = unat (data_available cb) + unat (space_available cb)"
    using s by (simp add: unat_add_lem[THEN iffD1])
  then show ?thesis using s by (simp add: word_unat_eq_iff)
qed

lemma flush_inv: "cb_loose cb \<Longrightarrow> cb_inv (flush cb)"
  by (simp add: cb_inv_def cb_loose_def flush_def used_def aligned_def)

lemma items_bytes:
  fixes k c :: u32
  assumes "unat k * unat c < 2 ^ 32"
  shows "unat (k * c) = unat k * unat c"
  using assms by (simp add: unat_mult_lem[THEN iffD1])

lemma div_mult_le_self: "(a::nat) div c * c \<le> a"
  by simp

text \<open>Advancing the read cursor by \<open>k\<close> items that are available.\<close>

lemma advance_r_loose:
  assumes inv: "cb_inv cb" and k: "k \<le> data_available cb"
  defines "cb' \<equiv> cb\<lparr>m_r := m_r cb + k * m_item_size cb\<rparr>"
  shows "cb_loose cb'" and "used cb' = used cb - unat k * unat (m_item_size cb)"
    and "unat k * unat (m_item_size cb) \<le> used cb"
    and "unat (k * m_item_size cb) = unat k * unat (m_item_size cb)"
proof -
  let ?S = "unat (m_buf_size cb)" and ?c = "unat (m_item_size cb)"
  let ?r = "unat (m_r cb)" and ?w = "unat (m_w cb)"
  have l: "cb_loose cb" using inv by (rule cb_inv_loose)
  have f: "0 < ?c" "2 * ?S < 2 ^ 32" "?r \<le> ?w" "used cb \<le> ?S" "?r < ?S" "aligned cb"
    using inv by (simp_all add: cb_inv_def cb_loose_def)
  have "unat k \<le> used cb div ?c"
    using k by (simp add: word_le_nat_alt data_available_nat[OF l])
  then have "unat k * ?c \<le> used cb div ?c * ?c" by simp
  then show kb: "unat k * ?c \<le> used cb" using div_mult_le_self[of "used cb" ?c] by linarith
  then show n: "unat (k * m_item_size cb) = unat k * ?c"
    using f by (intro items_bytes) simp
  have w: "?w = ?r + used cb" using f(3) by (simp add: used_def)
  have "?r + unat k * ?c < 2 ^ 32" using kb f w by simp
  then have r': "unat (m_r cb') = ?r + unat k * ?c"
    using n by (simp add: cb'_def unat_add_lem[THEN iffD1])
  show u: "used cb' = used cb - unat k * ?c"
    using r' w by (simp add: used_def cb'_def)
  have al: "aligned cb'"
  proof -
    from f(6) consider "?c dvd used cb" | "m_overwrite cb \<noteq> 0" "?c dvd (?S - used cb)"
      by (auto simp: aligned_def)
    then show ?thesis
    proof cases
      case 1
      then have "?c dvd used cb - unat k * ?c" by (simp add: dvd_diff_nat)
      then show ?thesis by (simp add: aligned_def u) (simp add: cb'_def)
    next
      case 2
      have "?S - (used cb - unat k * ?c) = (?S - used cb) + unat k * ?c"
        using kb f(4) by simp
      then have "?c dvd ?S - (used cb - unat k * ?c)" using 2(2) by simp
      then show ?thesis using 2(1) by (simp add: aligned_def u) (simp add: cb'_def)
    qed
  qed
  have "unat (m_r cb') \<le> unat (m_w cb')" "unat (m_r cb') < 2 * ?S"
    using r' w kb f by (simp_all add: cb'_def)
  moreover have "used cb' \<le> ?S" using u f(4) by simp
  ultimately show "cb_loose cb'"
    using l al by (simp add: cb_loose_def) (simp add: cb'_def)
qed

lemma purge_inv:
  assumes "cb_inv cb"
  shows "cb_inv (fst (purge cb len))"
proof -
  have "min len (data_available cb) \<le> data_available cb" by simp
  from advance_r_loose(1)[OF assms this]
  show ?thesis
    by (simp add: purge_def Let_def data_available_def rewind_inv)
qed

lemma purge_fields [simp]:
  "m_buf (fst (purge cb len)) = m_buf cb" "m_buf_size (fst (purge cb len)) = m_buf_size cb"
  "m_buf_len (fst (purge cb len)) = m_buf_len cb"
  "m_item_size (fst (purge cb len)) = m_item_size cb"
  "m_overwrite (fst (purge cb len)) = m_overwrite cb"
  by (simp_all add: purge_def Let_def)

lemma cb_read_inv:
  assumes "cb_inv cb" and "cb_read cb len = Inr (cb', out, t)"
  shows "cb_inv cb'" and "m_buf_size cb' = m_buf_size cb" and "m_buf_len cb' = m_buf_len cb"
    and "m_item_size cb' = m_item_size cb" and "m_overwrite cb' = m_overwrite cb"
proof -
  have "min len (data_available cb) \<le> data_available cb" by simp
  from advance_r_loose(1)[OF assms(1) this]
  have "cb_loose (cb\<lparr>m_r := m_r cb + min len (data_available cb) * m_item_size cb\<rparr>)" .
  moreover have "cb_loose cb" using assms(1) by (rule cb_inv_loose)
  ultimately show "cb_inv cb'"
    using assms(2)
    by (auto simp: cb_read_def Let_def data_available_def rewind_inv split: if_splits)
  show "m_buf_size cb' = m_buf_size cb" "m_buf_len cb' = m_buf_len cb"
    "m_item_size cb' = m_item_size cb" "m_overwrite cb' = m_overwrite cb"
    using assms(2) by (auto simp: cb_read_def Let_def split: if_splits)
qed

lemma m_buf_irrelevant [simp]:
  "used (cb\<lparr>m_buf := M\<rparr>) = used cb" "aligned (cb\<lparr>m_buf := M\<rparr>) = aligned cb"
  "cb_loose (cb\<lparr>m_buf := M\<rparr>) = cb_loose cb" "cb_inv (cb\<lparr>m_buf := M\<rparr>) = cb_inv cb"
  by (simp_all add: used_def aligned_def cb_loose_def cb_inv_def)

lemma drop_oldest_fields [simp]:
  "m_buf (drop_oldest cb) = m_buf cb" "m_buf_size (drop_oldest cb) = m_buf_size cb"
  "m_buf_len (drop_oldest cb) = m_buf_len cb" "m_item_size (drop_oldest cb) = m_item_size cb"
  "m_overwrite (drop_oldest cb) = m_overwrite cb" "m_w (drop_oldest cb) = m_w cb"
  by (simp_all add: drop_oldest_def)

lemma drop_oldest_loose:
  assumes c: "0 < unat (m_item_size cb)" and S: "0 < unat (m_buf_size cb)"
    and S2: "2 * unat (m_buf_size cb) < 2 ^ 32"
    and bl: "unat (m_buf_len cb) = unat (m_buf_size cb) div unat (m_item_size cb)"
    and r: "unat (m_r cb) < unat (m_buf_size cb)" and rw: "unat (m_r cb) \<le> unat (m_w cb)"
    and u2: "used cb \<le> 2 * unat (m_buf_size cb)"
    and al: "used cb \<le> unat (m_buf_size cb) \<Longrightarrow> aligned cb"
    and ov: "m_overwrite cb = 0 \<Longrightarrow> used cb \<le> unat (m_buf_size cb)"
  shows "cb_loose (drop_oldest cb)"
proof -
  let ?S = "unat (m_buf_size cb)" and ?r = "unat (m_r cb)" and ?w = "unat (m_w cb)"
  have d: "unat (m_w cb - m_r cb) = used cb"
    using rw by (simp add: used_def unat_sub word_le_nat_alt)
  have w: "?w = ?r + used cb" using rw by (simp add: used_def)
  show ?thesis
  proof (cases "m_overwrite cb \<noteq> 0 \<and> ?S < used cb")
    case True
    then have gt: "m_buf_size cb < m_w cb - m_r cb" by (simp add: word_less_nat_alt d)
    have eq: "drop_oldest cb = cb\<lparr>m_r := m_w cb - m_buf_size cb\<rparr>"
      using True gt by (simp add: drop_oldest_def)
    have "?S \<le> ?w" using True w by simp
    then have r2: "unat (m_w cb - m_buf_size cb) = ?w - ?S"
      by (simp add: unat_sub word_le_nat_alt)
    have "?w - ?S < 2 * ?S" "?w - ?S \<le> ?w" using w r u2 by simp_all
    moreover have us: "used (cb\<lparr>m_r := m_w cb - m_buf_size cb\<rparr>) = ?S"
      using r2 \<open>?S \<le> ?w\<close> by (simp add: used_def)
    moreover have "aligned (cb\<lparr>m_r := m_w cb - m_buf_size cb\<rparr>)"
      using True by (simp add: aligned_def us)
    ultimately show ?thesis
      using c S S2 bl by (simp add: eq cb_loose_def r2)
  next
    case False
    then have le: "used cb \<le> ?S" using ov by auto
    then have "\<not> m_buf_size cb < m_w cb - m_r cb" by (simp add: word_less_nat_alt d)
    then have eq: "drop_oldest cb = cb" by (simp add: drop_oldest_def)
    show ?thesis
      using c S S2 bl r rw le al[OF le] by (simp add: eq cb_loose_def)
  qed
qed

lemma cb_write_unfold:
  "cb_write cb s len =
     (let tw = to_write cb len; n = tw * m_item_size cb
      in if tw > 0 \<and> (length s < unat n \<or>
              unat (m_w cb mod m_buf_size cb) + unat n > 2 * unat (m_buf_size cb))
         then Inl OutOfBounds
         else Inr (rewind (drop_oldest
                (cb\<lparr>m_buf := ring_store (m_buf cb) (unat (m_buf_size cb))
                               (unat (m_w cb mod m_buf_size cb)) (take (unat n) s),
                    m_w := m_w cb + n\<rparr>)), tw))"
proof -
  have sa: "(m_buf_size cb - (m_w cb - m_r cb)) div m_item_size cb = space_available cb"
    by (simp add: space_available_def Let_def)
  have tw: "(if m_overwrite cb = 0 \<and> space_available cb < len then space_available cb else len)
      = to_write cb len"
    by (simp add: to_write_def)
  show ?thesis
    unfolding cb_write_def Let_def sa tw
    by (cases "to_write cb len = 0") (simp_all add: word_gt_0)
qed

lemma to_write_bytes:
  assumes inv: "cb_inv cb"
    and side: "m_overwrite cb = 0 \<or> len \<le> capacity cb"
  shows "unat (to_write cb len * m_item_size cb) = unat (to_write cb len) * unat (m_item_size cb)"
    and "unat (to_write cb len) * unat (m_item_size cb) \<le> unat (m_buf_size cb)"
    and "m_overwrite cb = 0 \<Longrightarrow>
           unat (to_write cb len) * unat (m_item_size cb) \<le> unat (m_buf_size cb) - used cb"
proof -
  let ?S = "unat (m_buf_size cb)" and ?c = "unat (m_item_size cb)"
  let ?t = "unat (to_write cb len)"
  have l: "cb_loose cb" using inv by (rule cb_inv_loose)
  have f: "0 < ?c" "2 * ?S < 2 ^ 32" "unat (m_buf_len cb) = ?S div ?c"
    using l by (simp_all add: cb_loose_def)
  have no: "?t * ?c \<le> ?S - used cb" if "m_overwrite cb = 0"
  proof -
    have "to_write cb len \<le> space_available cb"
      using that by (auto simp: to_write_def)
    then have "?t \<le> (?S - used cb) div ?c"
      by (simp add: word_le_nat_alt space_available_nat[OF l])
    then have "?t * ?c \<le> (?S - used cb) div ?c * ?c" by simp
    then show ?thesis using div_mult_le_self[of "?S - used cb" ?c] by linarith
  qed
  then show "m_overwrite cb = 0 \<Longrightarrow> ?t * ?c \<le> ?S - used cb" .
  show b: "?t * ?c \<le> ?S"
  proof (cases "m_overwrite cb = 0")
    case True
    then show ?thesis using no by fastforce
  next
    case False
    then have "to_write cb len \<le> capacity cb" using side by (simp add: to_write_def)
    then have "?t \<le> ?S div ?c" using f(3) by (simp add: word_le_nat_alt capacity_def)
    then have "?t * ?c \<le> ?S div ?c * ?c" by simp
    then show ?thesis using div_mult_le_self[of ?S ?c] by linarith
  qed
  show "unat (to_write cb len * m_item_size cb) = ?t * ?c"
    using b f(2) by (intro items_bytes) simp
qed

lemma cb_write_inv:
  assumes inv: "cb_inv cb"
    and side: "m_overwrite cb = 0 \<or> (3 * unat (m_buf_size cb) < 2 ^ 32 \<and> len \<le> capacity cb)"
    and res: "cb_write cb s len = Inr (cb', t)"
  shows "cb_inv cb'"
proof -
  let ?S = "unat (m_buf_size cb)" and ?c = "unat (m_item_size cb)"
  let ?r = "unat (m_r cb)" and ?w = "unat (m_w cb)"
  let ?t = "unat (to_write cb len)"
  let ?n = "to_write cb len * m_item_size cb"
  define cb1 where "cb1 = cb\<lparr>m_w := m_w cb + ?n\<rparr>"
  have l: "cb_loose cb" using inv by (rule cb_inv_loose)
  have f: "0 < ?c" "0 < ?S" "2 * ?S < 2 ^ 32" "unat (m_buf_len cb) = ?S div ?c"
    "?r \<le> ?w" "used cb \<le> ?S" "?r < ?S" "aligned cb"
    using inv by (simp_all add: cb_inv_def cb_loose_def)
  have side': "m_overwrite cb = 0 \<or> len \<le> capacity cb" using side by auto
  have n: "unat ?n = ?t * ?c" and nb: "?t * ?c \<le> ?S"
    using to_write_bytes(1,2)[OF inv side'] by simp_all
  have nf: "?t * ?c \<le> ?S - used cb" if "m_overwrite cb = 0"
    using to_write_bytes(3)[OF inv side' that] .
  have w: "?w = ?r + used cb" using f(5) by (simp add: used_def)
  have "?w + unat ?n < 2 ^ 32"
  proof (cases "m_overwrite cb = 0")
    case True
    then show ?thesis using nf n w f by simp
  next
    case False
    then have "3 * ?S < 2 ^ 32" using side by simp
    then show ?thesis using n nb w f by simp
  qed
  then have w1: "unat (m_w cb1) = ?w + ?t * ?c"
    using n by (simp add: cb1_def unat_add_lem[THEN iffD1])
  have u1: "used cb1 = used cb + ?t * ?c"
  proof -
    have "used cb1 = (?w + ?t * ?c) - ?r" using w1 by (simp add: used_def cb1_def)
    also have "\<dots> = (?w - ?r) + ?t * ?c" using f(5) by simp
    finally show ?thesis by (simp add: used_def)
  qed
  have al1: "aligned cb1" if le: "used cb1 \<le> ?S"
  proof -
    from f(8) consider "?c dvd used cb" | "m_overwrite cb \<noteq> 0" "?c dvd (?S - used cb)"
      by (auto simp: aligned_def)
    then show ?thesis
    proof cases
      case 1
      then show ?thesis by (simp add: aligned_def u1) (simp add: cb1_def)
    next
      case 2
      have "?S - used cb = (?S - (used cb + ?t * ?c)) + ?t * ?c"
        using le u1 by simp
      then have "?c dvd (?S - (used cb + ?t * ?c)) + ?t * ?c" using 2(2) by simp
      then have "?c dvd ?S - (used cb + ?t * ?c)"
        by (metis dvd_add_triv_right_iff dvd_add_left_iff dvd_triv_right)
      then show ?thesis using 2(1) by (simp add: aligned_def u1) (simp add: cb1_def)
    qed
  qed
  have lo: "cb_loose (drop_oldest cb1)"
  proof (rule drop_oldest_loose)
    show "0 < unat (m_item_size cb1)" "0 < unat (m_buf_size cb1)"
      "2 * unat (m_buf_size cb1) < 2 ^ 32"
      "unat (m_buf_len cb1) = unat (m_buf_size cb1) div unat (m_item_size cb1)"
      "unat (m_r cb1) < unat (m_buf_size cb1)"
      using f by (simp_all add: cb1_def)
    show "unat (m_r cb1) \<le> unat (m_w cb1)" using w1 f(5) by (simp add: cb1_def)
    show "used cb1 \<le> 2 * unat (m_buf_size cb1)" using u1 nb f(6) by (simp add: cb1_def)
    show "aligned cb1" if "used cb1 \<le> unat (m_buf_size cb1)"
      using that al1 by (simp add: cb1_def)
    show "used cb1 \<le> unat (m_buf_size cb1)" if "m_overwrite cb1 = 0"
      using that nf u1 f(6) by (simp add: cb1_def)
  qed
  define M where "M = ring_store (m_buf cb) ?S (unat (m_w cb mod m_buf_size cb)) (take (unat ?n) s)"
  have "cb' = rewind (drop_oldest (cb\<lparr>m_buf := M, m_w := m_w cb + ?n\<rparr>))"
    using res unfolding cb_write_unfold Let_def M_def by (auto split: if_splits)
  moreover have "cb\<lparr>m_buf := M, m_w := m_w cb + ?n\<rparr> = cb1\<lparr>m_buf := M\<rparr>"
    by (simp add: cb1_def)
  moreover have "drop_oldest (cb1\<lparr>m_buf := M\<rparr>) = (drop_oldest cb1)\<lparr>m_buf := M\<rparr>"
    by (simp add: drop_oldest_def)
  moreover have "rewind ((drop_oldest cb1)\<lparr>m_buf := M\<rparr>) = (rewind (drop_oldest cb1))\<lparr>m_buf := M\<rparr>"
    by (simp add: rewind_def)
  ultimately show ?thesis using rewind_inv[OF lo] by simp
qed

lemma cb_write_fields:
  assumes "cb_write cb s len = Inr (cb', t)"
  shows "m_buf_size cb' = m_buf_size cb" "m_buf_len cb' = m_buf_len cb"
    "m_item_size cb' = m_item_size cb" "m_overwrite cb' = m_overwrite cb"
  using assms unfolding cb_write_unfold Let_def by (auto split: if_splits)

lemma flush_fields [simp]:
  "m_buf (flush cb) = m_buf cb" "m_buf_size (flush cb) = m_buf_size cb"
  "m_buf_len (flush cb) = m_buf_len cb" "m_item_size (flush cb) = m_item_size cb"
  "m_overwrite (flush cb) = m_overwrite cb"
  by (simp_all add: flush_def)

lemma new_inv:
  assumes "circular_buffer_new pagesize os_ok buf_len item_size overwrite = Inr cb"
  shows "cb_inv cb" and "m_overwrite cb = overwrite" and "m_r cb = 0" and "m_w cb = 0"
proof -
  define bs :: u32 where "bs = word_of_int ((uint (item_size * buf_len)
      + (if pagesize < 0 then 4096 else pagesize) - 1)
      AND NOT ((if pagesize < 0 then 4096 else pagesize) - 1))"
  have cb: "cb = \<lparr>m_buf = (\<lambda>p. 0), m_buf_size = bs, m_buf_len = bs div item_size,
      m_item_size = item_size, m_overwrite = overwrite, m_r = 0, m_w = 0\<rparr>"
    and ok: "item_size \<noteq> 0" "bs \<noteq> 0" "unat (2 * bs) = 2 * unat bs"
    using assms unfolding circular_buffer_new_def Let_def bs_def[symmetric]
    by (auto split: if_splits)
  have "unat (2 * bs) < 2 ^ 32" using unsigned_less[of "2 * bs"] by simp
  then have "2 * unat bs < 2 ^ 32" using ok(3) by simp
  then show "cb_inv cb"
    using ok(1,2)
    by (simp add: cb cb_inv_def cb_loose_def used_def aligned_def unat_div unat_gt_0)
  show "m_overwrite cb = overwrite" "m_r cb = 0" "m_w cb = 0" by (simp_all add: cb)
qed

lemma cb_apply_inv:
  assumes inv: "cb_inv cb"
    and side: "m_overwrite cb = 0 \<or>
                 (3 * unat (m_buf_size cb) < 2 ^ 32 \<and> op_fits (capacity cb) op)"
    and res: "cb_apply op cb = Inr (cb', out)"
  shows "cb_inv cb'" and "m_buf_size cb' = m_buf_size cb" and "m_buf_len cb' = m_buf_len cb"
    and "m_item_size cb' = m_item_size cb" and "m_overwrite cb' = m_overwrite cb"
proof -
  have "cb_inv cb' \<and> m_buf_size cb' = m_buf_size cb \<and> m_buf_len cb' = m_buf_len cb
      \<and> m_item_size cb' = m_item_size cb \<and> m_overwrite cb' = m_overwrite cb"
  proof (cases op)
    case (Write s len)
    then obtain t where w: "cb_write cb s len = Inr (cb', t)"
      using res by (auto split: sum.splits)
    have "m_overwrite cb = 0 \<or> (3 * unat (m_buf_size cb) < 2 ^ 32 \<and> len \<le> capacity cb)"
      using side Write by auto
    from cb_write_inv[OF inv this w] cb_write_fields[OF w] show ?thesis by simp
  next
    case (Read len)
    then obtain t where r: "cb_read cb len = Inr (cb', out, t)"
      using res by (auto split: sum.splits)
    from cb_read_inv[OF inv r] show ?thesis by simp
  next
    case (Purge len)
    then show ?thesis using res purge_inv[OF inv, of len] by auto
  next
    case Flush
    then show ?thesis using res flush_inv[OF cb_inv_loose[OF inv]] by auto
  qed
  then show "cb_inv cb'" "m_buf_size cb' = m_buf_size cb" "m_buf_len cb' = m_buf_len cb"
    "m_item_size cb' = m_item_size cb" "m_overwrite cb' = m_overwrite cb" by simp_all
qed

lemma cb_run_inv:
  assumes "cb_inv cb"
    and "m_overwrite cb = 0 \<or>
           (3 * unat (m_buf_size cb) < 2 ^ 32 \<and> list_all (op_fits (capacity cb)) ops)"
    and "cb_run ops cb = Inr (cb', outs)"
  shows "cb_inv cb' \<and> m_buf_size cb' = m_buf_size cb \<and> m_buf_len cb' = m_buf_len cb
      \<and> m_item_size cb' = m_item_size cb \<and> m_overwrite cb' = m_overwrite cb"
  using assms
proof (induction ops arbitrary: cb outs)
  case Nil
  then show ?case by simp
next
  case (Cons op ops)
  from Cons.prems(3) obtain cb1 out1 outs1 where
    a: "cb_apply op cb = Inr (cb1, out1)" and r: "cb_run ops cb1 = Inr (cb', outs1)"
    by (auto split: sum.splits)
  have s1: "m_overwrite cb = 0 \<or>
              (3 * unat (m_buf_size cb) < 2 ^ 32 \<and> op_fits (capacity cb) op)"
    using Cons.prems(2) by auto
  note st = cb_apply_inv[OF Cons.prems(1) s1 a]
  have s2: "m_overwrite cb1 = 0 \<or>
        (3 * unat (m_buf_size cb1) < 2 ^ 32 \<and> list_all (op_fits (capacity cb1)) ops)"
    using Cons.prems(2) st by (auto simp: capacity_def)
  from Cons.IH[OF st(1) s2 r] st show ?case by simp
qed

lemma inv_bounds:
  assumes "cb_inv cb"
  shows "m_r cb \<le> m_w cb" and "m_w cb - m_r cb \<le> m_buf_size cb"
    and "m_overwrite cb = 0 \<or> unat (m_item_size cb) dvd unat (m_buf_size cb)
           \<Longrightarrow> m_w cb - m_r cb \<le> capacity cb * m_item_size cb"
proof -
  let ?S = "unat (m_buf_size cb)" and ?c = "unat (m_item_size cb)"
  have l: "cb_loose cb" using assms by (rule cb_inv_loose)
  have f: "0 < ?c" "2 * ?S < 2 ^ 32" "unat (m_buf_len cb) = ?S div ?c"
    "unat (m_r cb) \<le> unat (m_w cb)" "used cb \<le> ?S" "aligned cb"
    using l by (simp_all add: cb_loose_def)
  show "m_r cb \<le> m_w cb" using f(4) by (simp add: word_le_nat_alt)
  show "m_w cb - m_r cb \<le> m_buf_size cb"
    using f(5) by (simp add: word_le_nat_alt used_bytes[OF l])
  assume a: "m_overwrite cb = 0 \<or> ?c dvd ?S"
  have d: "?c dvd used cb"
  proof (rule ccontr)
    assume n: "\<not> ?c dvd used cb"
    then have "?c dvd (?S - used cb)" "m_overwrite cb \<noteq> 0" using f(6) by (auto simp: aligned_def)
    then have "?c dvd ?S" "?c dvd (?S - used cb)" using a by auto
    then have "?c dvd ?S - (?S - used cb)" by (rule dvd_diff_nat)
    then show False using n f(5) by simp
  qed
  then obtain k where k: "used cb = ?c * k" by (auto simp: dvd_def)
  then have "k \<le> ?S div ?c" using f(1,5)
    by (metis div_le_mono nonzero_mult_div_cancel_left less_numeral_extra(3))
  then have le: "used cb \<le> ?S div ?c * ?c" using k by (simp add: mult.commute)
  have "?S div ?c * ?c \<le> ?S" by simp
  then have "?S div ?c * ?c < 2 ^ 32" using f(2) by linarith
  then have "unat (m_buf_len cb) * ?c < 2 ^ 32" using f(3) by simp
  then have "unat (capacity cb * m_item_size cb) = ?S div ?c * ?c"
    using f(3) by (simp add: capacity_def items_bytes)
  then show "m_w cb - m_r cb \<le> capacity cb * m_item_size cb"
    using le by (simp add: word_le_nat_alt used_bytes[OF l])
qed

text \<open>
  Claim C3, as the code has it.  Take a constructed buffer and any finite sequence of
  writes, reads, purges and flushes that stays in bounds; for an overwrite buffer let the
  byte size be below \<open>2^32 / 3\<close> and let no single write be longer than the capacity.  Then the
  final state has \<open>data_available + space_available = capacity\<close>, \<open>w \<ge> r\<close> and
  \<open>w - r \<le> m_buf_size\<close>, the page-rounded byte size.  The bound \<open>capacity * item_size\<close> holds
  for buffers without overwrite and whenever the item size divides the byte size.
\<close>

theorem ring_invariant:
  assumes "circular_buffer_new pagesize os_ok buf_len item_size overwrite = Inr cb0"
    and "cb_run ops cb0 = Inr (cb, outs)"
    and "overwrite = 0 \<or>
           (3 * unat (m_buf_size cb0) < 2 ^ 32 \<and> list_all (op_fits (capacity cb0)) ops)"
  shows "data_available cb + space_available cb = capacity cb
       \<and> m_r cb \<le> m_w cb
       \<and> m_w cb - m_r cb \<le> m_buf_size cb
       \<and> (overwrite = 0 \<or> unat (m_item_size cb) dvd unat (m_buf_size cb)
            \<longrightarrow> m_w cb - m_r cb \<le> capacity cb * m_item_size cb)"
proof -
  note n = new_inv[OF assms(1)]
  have "m_overwrite cb0 = 0 \<or>
      (3 * unat (m_buf_size cb0) < 2 ^ 32 \<and> list_all (op_fits (capacity cb0)) ops)"
    using assms(3) n(2) by simp
  from cb_run_inv[OF n(1) this assms(2)]
  have inv: "cb_inv cb" and ov: "m_overwrite cb = overwrite" using n(2) by simp_all
  show ?thesis
    using inv_counts[OF inv] inv_bounds[OF inv] ov by auto
qed

lemma new_ring8: "circular_buffer_new 4096 True 512 8 0 = Inr ring8"
  by (simp add: circular_buffer_new_def ring8_def)

lemma new_ring3: "circular_buffer_new 4096 True 1 3 1 = Inr ring3"
  by (simp add: circular_buffer_new_def ring3_def)

text \<open>
  Claim C3 as stated fails: with three-byte items and overwrite on 4096-byte pages the
  capacity is 1365 items, and a write of 1365 items followed by a write of one item leaves
  \<open>w - r = 4096\<close>, above \<open>capacity * item_size = 4095\<close>.
\<close>

theorem ring_invariant_counterexample:
  "circular_buffer_new 4096 True 1 3 1 = Inr ring3
   \<and> map_sum id cursors (cb_run [Write (replicate 4095 0) 1365, Write (replicate 3 0) 1] ring3)
       = Inr (2, 4098, 4096, 4095)
   \<and> \<not> ((4098::u32) - 2 \<le> 4095)"
  by (simp add: new_ring3 ring3_def cursors_def cb_write_def drop_oldest_def rewind_def
        capacity_def Let_def)

text \<open>
  Claim C3, an instance: a write of three items, a read and a purge on 512 eight-byte items.
\<close>

theorem ring_invariant_witness:
  "circular_buffer_new 4096 True 512 8 0 = Inr ring8
   \<and> map_sum id cursors (cb_run [Write (replicate 24 0) 3, Read 1, Purge 1] ring8)
       = Inr (16, 24, 4096, 4096)
   \<and> data_available (fst (projr (cb_run [Write (replicate 24 0) 3, Read 1, Purge 1] ring8)))
       + space_available (fst (projr (cb_run [Write (replicate 24 0) 3, Read 1, Purge 1] ring8)))
       = capacity (fst (projr (cb_run [Write (replicate 24 0) 3, Read 1, Purge 1] ring8)))"
proof -
  let ?run = "cb_run [Write (replicate 24 0) 3, Read 1, Purge 1] ring8"
  have c: "map_sum id cursors ?run = Inr (16, 24, 4096, 4096)"
    by (simp add: ring8_def cursors_def cb_write_def cb_read_def purge_def drop_oldest_def
          rewind_def capacity_def Let_def)
  then obtain cb outs where r: "?run = Inr (cb, outs)"
    by (cases ?run) auto
  show ?thesis
    using ring_invariant[OF new_ring8 r] new_ring8 c r by simp
qed

lemma mod_inj_le:
  fixes S :: nat
  assumes "i \<le> j" "j < S" "(off + i) mod S = (off + j) mod S"
  shows "i = j"
proof -
  have "off + i \<le> off + j" using assms(1) by simp
  from mod_eq_dvd_iff_nat[OF this, of S] assms(3)
  have "S dvd (off + j) - (off + i)" by simp
  then have "S dvd j - i" by simp
  moreover have "j - i < S" using assms(2) by simp
  ultimately have "j - i = 0" by (meson dvd_imp_le not_less zero_less_iff_neq_zero)
  then show ?thesis using assms(1) by simp
qed

lemma mod_inj:
  fixes S :: nat
  assumes "i < S" "j < S" "(off + i) mod S = (off + j) mod S"
  shows "i = j"
proof (cases "i \<le> j")
  case True
  then show ?thesis using mod_inj_le assms by blast
next
  case False
  then have "j \<le> i" by simp
  then show ?thesis using mod_inj_le[of j i S off] assms by simp
qed

lemma ring_store_other:
  assumes "\<forall>i < length bs. (off + i) mod S \<noteq> p"
  shows "ring_store mem S off bs p = mem p"
  using assms
proof (induction bs arbitrary: mem off)
  case Nil
  then show ?case by simp
next
  case (Cons b bs)
  have "\<forall>i < length bs. (Suc off + i) mod S \<noteq> p"
    using Cons.prems by (metis Suc_less_eq add_Suc_shift length_Cons)
  then have "ring_store (mem(off mod S := b)) S (Suc off) bs p = (mem(off mod S := b)) p"
    by (rule Cons.IH)
  moreover have "off mod S \<noteq> p" using Cons.prems by force
  ultimately show ?case by simp
qed

lemma ring_store_get:
  assumes "length bs \<le> S" "i < length bs"
  shows "ring_store mem S off bs ((off + i) mod S) = bs ! i"
  using assms
proof (induction bs arbitrary: mem off i)
  case Nil
  then show ?case by simp
next
  case (Cons b bs)
  show ?case
  proof (cases i)
    case 0
    have "\<forall>j < length bs. (Suc off + j) mod S \<noteq> off mod S"
    proof (intro allI impI)
      fix j assume j: "j < length bs"
      show "(Suc off + j) mod S \<noteq> off mod S"
      proof
        assume a: "(Suc off + j) mod S = off mod S"
        have "(off + Suc j) mod S = (off + 0) mod S"
          using a by (simp only: add_Suc add_Suc_right add_0_right)
        moreover have "Suc j < S" "0 < S" using j Cons.prems(1) by simp_all
        ultimately have "Suc j = 0" by (rule mod_inj[rotated 2])
        then show False by simp
      qed
    qed
    then have "ring_store (mem(off mod S := b)) S (Suc off) bs (off mod S) = b"
      by (simp add: ring_store_other)
    then show ?thesis using 0 by simp
  next
    case (Suc k)
    then have "ring_store (mem(off mod S := b)) S (Suc off) bs ((Suc off + k) mod S) = bs ! k"
      using Cons.prems by (intro Cons.IH) simp_all
    then show ?thesis using Suc by simp
  qed
qed

lemma ring_load_append:
  "ring_load mem S off (m + n) = ring_load mem S off m @ ring_load mem S (off + m) n"
  by (auto simp: ring_load_def list_eq_iff_nth_eq nth_append)

lemma ring_load_nth [simp]:
  "i < n \<Longrightarrow> ring_load mem S off n ! i = mem ((off + i) mod S)"
  by (simp add: ring_load_def)

lemma ring_load_length [simp]: "length (ring_load mem S off n) = n"
  by (simp add: ring_load_def)

lemma ring_load_store:
  assumes "length bs \<le> S" "off' mod S = off mod S"
  shows "ring_load (ring_store mem S off bs) S off' (length bs) = bs"
proof -
  have "ring_store mem S off bs ((off' + i) mod S) = bs ! i" if "i < length bs" for i
  proof -
    have "(off' + i) mod S = (off + i) mod S"
      using assms(2) by (metis mod_add_left_eq)
    then show ?thesis using ring_store_get[OF assms(1) that] by simp
  qed
  note get = this
  show ?thesis
  proof (rule nth_equalityI)
    show "length (ring_load (ring_store mem S off bs) S off' (length bs)) = length bs"
      by simp
  next
    fix i assume "i < length (ring_load (ring_store mem S off bs) S off' (length bs))"
    then have i: "i < length bs" by simp
    show "ring_load (ring_store mem S off bs) S off' (length bs) ! i = bs ! i"
      using get[OF i] by (simp only: ring_load_nth[OF i])
  qed
qed

lemma inv_facts:
  assumes "cb_inv cb"
  shows "0 < unat (m_item_size cb)" "0 < unat (m_buf_size cb)"
    "2 * unat (m_buf_size cb) < 2 ^ 32" "unat (m_r cb) < unat (m_buf_size cb)"
    "unat (m_r cb) \<le> unat (m_w cb)" "used cb \<le> unat (m_buf_size cb)"
    "unat (m_w cb) = unat (m_r cb) + used cb"
  using assms by (simp_all add: cb_inv_def cb_loose_def used_def)

lemma r_offset: "cb_inv cb \<Longrightarrow> unat (m_r cb mod m_buf_size cb) = unat (m_r cb)"
  by (simp add: unat_mod inv_facts)

lemma contents_eq:
  assumes "cb_inv cb"
  shows "cb_contents cb = ring_load (m_buf cb) (unat (m_buf_size cb)) (unat (m_r cb))
           (unat (data_available cb) * unat (m_item_size cb))"
  using assms by (simp add: cb_contents_def cb_peek_def Let_def r_offset data_available_def)

lemma rewind_id: "cb_inv cb \<Longrightarrow> rewind cb = cb"
  by (simp add: rewind_def word_le_nat_alt inv_facts(4) not_le[symmetric, of "unat (m_r cb)"]
      del: not_le) (use inv_facts(4)[of cb] in linarith)

lemma ring_load_0 [simp]: "ring_load mem S off 0 = []"
  by (simp add: ring_load_def)

lemma cb_read_all:
  assumes inv: "cb_inv cb"
  shows "\<exists>cb'. cb_read cb (data_available cb) = Inr (cb', cb_contents cb, data_available cb)"
proof -
  let ?S = "unat (m_buf_size cb)" and ?c = "unat (m_item_size cb)"
  let ?da = "data_available cb"
  have le: "?da \<le> data_available cb" by simp
  note a = advance_r_loose[OF inv le]
  have bound: "unat (m_r cb mod m_buf_size cb) + unat (?da * m_item_size cb) \<le> 2 * ?S"
    using a(3,4) inv_facts(4,6)[OF inv] by (simp add: r_offset[OF inv])
  have da: "(m_w cb - m_r cb) div m_item_size cb = ?da"
    by (simp add: data_available_def)
  show ?thesis
  proof (cases "?da = 0")
    case True
    then show ?thesis
      using contents_eq[OF inv] by (simp add: cb_read_def Let_def da)
  next
    case False
    then have "0 < ?da" by (simp add: word_gt_0)
    then show ?thesis
      using bound contents_eq[OF inv] a(4)
      by (simp add: cb_read_def Let_def da r_offset[OF inv])
  qed
qed

lemma cb_write_contents:
  assumes inv: "cb_inv cb" and al: "unat (m_item_size cb) dvd used cb"
    and tws: "to_write cb len \<le> space_available cb"
    and ls: "unat (to_write cb len) * unat (m_item_size cb) \<le> length s"
  shows "\<exists>cb'. cb_write cb s len = Inr (cb', to_write cb len) \<and> cb_inv cb'
           \<and> unat (m_item_size cb) dvd used cb'
           \<and> m_buf_size cb' = m_buf_size cb \<and> m_buf_len cb' = m_buf_len cb
           \<and> m_item_size cb' = m_item_size cb \<and> m_overwrite cb' = m_overwrite cb
           \<and> data_available cb' = data_available cb + to_write cb len
           \<and> unat (data_available cb') = unat (data_available cb) + unat (to_write cb len)
           \<and> cb_contents cb' = cb_contents cb
                @ take (unat (to_write cb len) * unat (m_item_size cb)) s"
proof -
  let ?S = "unat (m_buf_size cb)" and ?c = "unat (m_item_size cb)"
  let ?r = "unat (m_r cb)" and ?w = "unat (m_w cb)"
  let ?tw = "to_write cb len"
  let ?t = "unat ?tw"
  let ?n = "?tw * m_item_size cb"
  let ?off = "unat (m_w cb mod m_buf_size cb)"
  define M where "M = ring_store (m_buf cb) ?S ?off (take (unat ?n) s)"
  define cb1 where "cb1 = cb\<lparr>m_buf := M, m_w := m_w cb + ?n\<rparr>"
  have l: "cb_loose cb" using inv by (rule cb_inv_loose)
  note f = inv_facts[OF inv]
  have "?t \<le> (?S - used cb) div ?c"
    using tws by (simp add: word_le_nat_alt space_available_nat[OF l])
  then have "?t * ?c \<le> (?S - used cb) div ?c * ?c" by simp
  then have nf: "?t * ?c \<le> ?S - used cb"
    using div_mult_le_self[of "?S - used cb" ?c] by linarith
  then have "?t * ?c < 2 ^ 32" using f(3) by linarith
  then have n: "unat ?n = ?t * ?c" by (rule items_bytes)
  have off: "?off = ?w mod ?S" by (simp add: unat_mod)
  then have offS: "?off < ?S" using f(2) by simp
  have bound: "\<not> (length s < unat ?n \<or> ?off + unat ?n > 2 * ?S)"
    using ls n nf offS by simp
  have "?w + unat ?n < 2 ^ 32" using n nf f by simp
  then have w1: "unat (m_w cb + ?n) = ?w + ?t * ?c"
    using n by (simp add: unat_add_lem[THEN iffD1])
  have u1: "used cb1 = used cb + ?t * ?c"
    using w1 f(5) by (simp add: used_def cb1_def)
  have d1: "unat (m_w cb1 - m_r cb1) = used cb1"
    using w1 f(5) by (simp add: used_def cb1_def unat_sub word_le_nat_alt)
  have "\<not> m_buf_size cb1 < m_w cb1 - m_r cb1"
    using u1 nf f(6) by (simp add: word_less_nat_alt d1) (simp add: cb1_def)
  then have dro: "drop_oldest cb1 = cb1" by (simp add: drop_oldest_def)
  have al1: "?c dvd used cb1" using al u1 by simp
  have lo1: "cb_loose cb1"
    using l f w1 u1 nf al1 by (simp add: cb_loose_def aligned_def) (simp add: cb1_def)
  then have inv1: "cb_inv cb1" using f(4) by (simp add: cb_inv_def) (simp add: cb1_def)
  have wr: "cb_write cb s len = Inr (cb1, ?tw)"
    unfolding cb_write_unfold Let_def using bound dro rewind_id[OF inv1]
    by (simp add: cb1_def M_def)
  have c1': "m_item_size cb1 = m_item_size cb" by (simp add: cb1_def)
  have "unat (data_available cb1) = (used cb + ?t * ?c) div ?c"
    using data_available_nat[OF lo1] u1 by (simp only: c1')
  also have "\<dots> = used cb div ?c + ?t" using f(1) by simp
  also have "\<dots> = unat (data_available cb) + ?t"
    by (simp only: data_available_nat[OF l])
  finally have da1n: "unat (data_available cb1) = unat (data_available cb) + ?t" .
  have k: "used cb = unat (data_available cb) * ?c"
    using al by (simp add: data_available_nat[OF l])
  have "unat (data_available cb1) < 2 ^ 32" using unsigned_less[of "data_available cb1"] by simp
  then have "unat (data_available cb + ?tw) = unat (data_available cb) + ?t"
    using da1n by (simp add: unat_add_lem[THEN iffD1])
  then have da1: "data_available cb1 = data_available cb + ?tw"
    using da1n by (simp add: word_unat_eq_iff)
  have tk: "length (take (unat ?n) s) = ?t * ?c" using ls n by simp
  have c1: "cb_contents cb1 = ring_load M ?S ?r (used cb + ?t * ?c)"
    using contents_eq[OF inv1] da1n k by (simp add: cb1_def distrib_right)
  have old: "ring_load M ?S ?r (used cb) = ring_load (m_buf cb) ?S ?r (used cb)"
  proof (rule nth_equalityI)
    show "length (ring_load M ?S ?r (used cb)) = length (ring_load (m_buf cb) ?S ?r (used cb))"
      by simp
  next
    fix i assume "i < length (ring_load M ?S ?r (used cb))"
    then have i: "i < used cb" by simp
    have "\<forall>j < length (take (unat ?n) s). (?off + j) mod ?S \<noteq> (?r + i) mod ?S"
    proof (intro allI impI notI)
      fix j assume j: "j < length (take (unat ?n) s)"
        and e: "(?off + j) mod ?S = (?r + i) mod ?S"
      have "(?off + j) mod ?S = (?w + j) mod ?S" by (simp add: off mod_add_left_eq)
      then have "(?r + (used cb + j)) mod ?S = (?r + i) mod ?S"
        using e f(7) by (simp add: add.assoc)
      moreover have "j < ?t * ?c" using j by (simp only: tk)
      then have "used cb + j < ?S" "i < ?S" using nf i f(6) by linarith+
      ultimately have "used cb + j = i" by (rule mod_inj[rotated 2])
      then show False using i by simp
    qed
    then have "M ((?r + i) mod ?S) = m_buf cb ((?r + i) mod ?S)"
      unfolding M_def by (rule ring_store_other)
    then show "ring_load M ?S ?r (used cb) ! i = ring_load (m_buf cb) ?S ?r (used cb) ! i"
      by (simp only: ring_load_nth[OF i])
  qed
  have new: "ring_load M ?S (?r + used cb) (?t * ?c) = take (unat ?n) s"
  proof -
    have "(?r + used cb) mod ?S = ?off mod ?S" using f(7) by (simp add: off)
    moreover have "length (take (unat ?n) s) \<le> ?S" using tk nf by simp
    ultimately have "ring_load (ring_store (m_buf cb) ?S ?off (take (unat ?n) s)) ?S
        (?r + used cb) (length (take (unat ?n) s)) = take (unat ?n) s"
      by (intro ring_load_store)
    then show ?thesis by (simp only: tk M_def)
  qed
  have "cb_contents cb1 = cb_contents cb @ take (?t * ?c) s"
    using c1 old new n k contents_eq[OF inv] by (simp add: ring_load_append)
  then show ?thesis
    using wr inv1 al1 da1 da1n by (intro exI[of _ cb1]) (simp add: cb1_def)
qed

lemma aligned_dvd:
  assumes "cb_inv cb"
    and "m_overwrite cb = 0 \<or> unat (m_item_size cb) dvd unat (m_buf_size cb)"
  shows "unat (m_item_size cb) dvd used cb"
proof (rule ccontr)
  let ?S = "unat (m_buf_size cb)" and ?c = "unat (m_item_size cb)"
  assume n: "\<not> ?c dvd used cb"
  have "aligned cb" "used cb \<le> ?S" using assms(1) by (simp_all add: cb_inv_def cb_loose_def)
  then have "?c dvd (?S - used cb)" "m_overwrite cb \<noteq> 0" using n by (auto simp: aligned_def)
  then have "?c dvd ?S" "?c dvd (?S - used cb)" using assms(2) by auto
  then have "?c dvd ?S - (?S - used cb)" by (rule dvd_diff_nat)
  then show False using n \<open>used cb \<le> ?S\<close> by simp
qed

lemma to_write_fits: "len \<le> space_available cb \<Longrightarrow> to_write cb len = len"
  by (auto simp: to_write_def)

text \<open>
  Claim C4, as the code has it.  In a state reached from construction (for an overwrite
  buffer: byte size below \<open>2^32 / 3\<close>, item size dividing the byte size, no earlier write
  longer than the capacity), writing \<open>n\<close> items that fit into the free space and then reading
  delivers the buffer in FIFO order: first the items already held, then the \<open>n\<close> items written.
  When the buffer holds no unread item, reading \<open>n\<close> items returns exactly the sequence written.
\<close>

theorem write_then_read:
  assumes new: "circular_buffer_new pagesize os_ok buf_len item_size overwrite = Inr cb0"
    and run: "cb_run ops cb0 = Inr (cb, outs)"
    and side: "overwrite = 0 \<or>
           (3 * unat (m_buf_size cb0) < 2 ^ 32 \<and> list_all (op_fits (capacity cb0)) ops
            \<and> unat (m_item_size cb0) dvd unat (m_buf_size cb0))"
    and fit: "len \<le> space_available cb"
    and ls: "length s = unat len * unat (m_item_size cb)"
  shows "map_sum id snd (cb_run [Write s len, Read (data_available cb + len)] cb)
           = Inr (cb_contents cb @ s)
       \<and> (data_available cb = 0 \<longrightarrow>
            map_sum id snd (cb_run [Write s len, Read len] cb) = Inr s)"
proof -
  note n = new_inv[OF new]
  have "m_overwrite cb0 = 0 \<or>
      (3 * unat (m_buf_size cb0) < 2 ^ 32 \<and> list_all (op_fits (capacity cb0)) ops)"
    using side n(2) by auto
  from cb_run_inv[OF n(1) this run]
  have inv: "cb_inv cb" and same: "m_buf_size cb = m_buf_size cb0"
    "m_item_size cb = m_item_size cb0" "m_overwrite cb = overwrite"
    using n(2) by simp_all
  have "m_overwrite cb = 0 \<or> unat (m_item_size cb) dvd unat (m_buf_size cb)"
    using side same by auto
  then have al: "unat (m_item_size cb) dvd used cb" by (rule aligned_dvd[OF inv])
  have tw: "to_write cb len = len" using fit by (rule to_write_fits)
  have "to_write cb len \<le> space_available cb"
    "unat (to_write cb len) * unat (m_item_size cb) \<le> length s"
    using fit ls by (simp_all add: tw)
  from cb_write_contents[OF inv al this]
  obtain cb1 where w: "cb_write cb s len = Inr (cb1, len)" and inv1: "cb_inv cb1"
    and da1: "data_available cb1 = data_available cb + len"
    and c1: "cb_contents cb1 = cb_contents cb @ s"
    using ls by (auto simp: tw)
  obtain cb2 where r: "cb_read cb1 (data_available cb + len)
      = Inr (cb2, cb_contents cb @ s, data_available cb + len)"
    using cb_read_all[OF inv1] by (auto simp: da1 c1)
  have main: "map_sum id snd (cb_run [Write s len, Read (data_available cb + len)] cb)
      = Inr (cb_contents cb @ s)"
    by (simp add: w r)
  show ?thesis
  proof (intro conjI impI)
    show "map_sum id snd (cb_run [Write s len, Read (data_available cb + len)] cb)
        = Inr (cb_contents cb @ s)"
      by (rule main)
  next
    assume z: "data_available cb = 0"
    then have "cb_contents cb = []" using contents_eq[OF inv] by simp
    then show "map_sum id snd (cb_run [Write s len, Read len] cb) = Inr s"
      using main by (simp add: z)
  qed
qed

text \<open>
  Claim C4 as stated fails in a state that still holds an item: after one item \<open>a\<close> has
  been written (511 items free), writing \<open>b\<close> and reading one item returns \<open>a\<close>, not \<open>b\<close>.
\<close>

theorem write_then_read_counterexample:
  "circular_buffer_new 4096 True 512 8 0 = Inr ring8
   \<and> map_sum id (space_available \<circ> fst) (cb_run [Write item_a 1] ring8) = Inr 511
   \<and> map_sum id snd (cb_run [Write item_a 1, Write item_b 1, Read 1] ring8) = Inr item_a
   \<and> item_a \<noteq> item_b"
  by (simp add: new_ring8 ring8_def item_a_def item_b_def cb_write_def cb_read_def
        drop_oldest_def rewind_def space_available_def ring_load_def Let_def upt_conv_Cons)

text \<open>
  Claim C4, an instance: after an item has been written and purged, writing \<open>b\<close> and reading
  one item returns \<open>b\<close>.
\<close>

theorem write_then_read_witness:
  "circular_buffer_new 4096 True 512 8 0 = Inr ring8
   \<and> map_sum id (data_available \<circ> fst) (cb_run [Write item_a 1, Purge 1] ring8) = Inr 0
   \<and> map_sum id (space_available \<circ> fst) (cb_run [Write item_a 1, Purge 1] ring8) = Inr 512
   \<and> length item_b = unat (1 :: u32) * unat (8 :: u32)
   \<and> map_sum id snd
        (cb_run [Write item_b 1, Read 1] (fst (projr (cb_run [Write item_a 1, Purge 1] ring8))))
       = Inr item_b"
proof -
  let ?run = "cb_run [Write item_a 1, Purge 1] ring8"
  have d: "map_sum id (data_available \<circ> fst) ?run = Inr 0"
    and sp: "map_sum id (space_available \<circ> fst) ?run = Inr 512"
    by (simp_all add: ring8_def item_a_def cb_write_def purge_def drop_oldest_def rewind_def
          space_available_def data_available_def Let_def)
  then obtain cb outs where r: "?run = Inr (cb, outs)" by (cases ?run) auto
  have da: "data_available cb = 0" and fit: "1 \<le> space_available cb"
    and c: "m_item_size cb = 8"
    using d sp r cb_run_inv[OF new_inv(1)[OF new_ring8] _ r] by (simp_all add: ring8_def)
  have ls: "length item_b = unat (1 :: u32) * unat (m_item_size cb)"
    by (simp add: c item_b_def)
  have side: "(0::int) = 0 \<or>
           (3 * unat (m_buf_size ring8) < 2 ^ 32
            \<and> list_all (op_fits (capacity ring8)) [Write item_a 1, Purge 1]
            \<and> unat (m_item_size ring8) dvd unat (m_buf_size ring8))"
    by simp
  have "map_sum id snd (cb_run [Write item_b 1, Read 1] cb) = Inr item_b"
    using write_then_read[OF new_ring8 r side fit ls] da by blast
  then show ?thesis
    using new_ring8 d sp r by (simp add: item_b_def)
qed

section \<open>The FCCH detector\<close>

subsection \<open>A filter step without enough input\<close>

lemma sint_small:
  fixes x :: u32
  assumes "unat x < 2 ^ 31"
  shows "sint x = int (unat x)"
proof -
  have "uint x = int (unat x)" by simp
  moreover have "int (unat x) < 2 ^ 31" using assms by (simp only: of_nat_less_numeral_power_cancel_iff)
  ultimately have "uint x < 2 ^ 31" by (simp only:)
  moreover have "0 \<le> uint x" by simp
  ultimately have "signed_take_bit 31 (uint x) = uint x"
    by (intro signed_take_bit_int_eq_self) linarith+
  then show ?thesis by (simp add: sint_uint)
qed

lemma peek_count: "cb_peek cb = (unat (m_r cb mod m_buf_size cb), data_available cb)"
  by (simp add: cb_peek_def data_available_def Let_def)

lemma window_top:
  fixes L D :: u32
  assumes "0 < unat L" "unat L + unat D < 2 ^ 31"
  shows "unat (L - 1) = unat L - 1" and "unat (L - 1 + D) = unat L - 1 + unat D"
proof -
  have "1 \<le> L" using assms(1) by (simp add: word_le_nat_alt)
  then show a: "unat (L - 1) = unat L - 1" by (simp add: unat_sub)
  have "unat (L - 1) + unat D < 2 ^ 32" using a assms by simp
  then show "unat (L - 1 + D) = unat L - 1 + unat D"
    using a by (simp add: unat_add_lem[THEN iffD1])
qed

lemma short_window:
  assumes "0 < unat (m_w_len d)" and "unat (m_w_len d) + unat (m_D d) < 2 ^ 31"
    and "unat (data_available (m_x_cb d)) < unat (m_w_len d) + unat (m_D d)"
  shows "next_norm_error A d
           = Inr (int (unat (m_w_len d) + unat (m_D d) - unat (data_available (m_x_cb d))), None, d)"
proof -
  let ?L = "unat (m_w_len d)" and ?D = "unat (m_D d)"
  let ?max = "data_available (m_x_cb d)"
  let ?n = "m_w_len d - 1"
  note t = window_top[OF assms(1,2)]
  have ge: "?max \<le> ?n + m_D d"
    using assms(1,3) t by (simp add: word_le_nat_alt)
  define short where "short = ?n + m_D d - ?max"
  have s: "unat short = ?L - 1 + ?D - unat ?max"
    unfolding short_def using ge t by (simp only: unat_sub)
  have "unat short + unat (1 :: u32) < 2 ^ LENGTH(32)" using s assms(2) by simp
  then have "unat (short + 1) = unat short + unat (1 :: u32)"
    by (simp only: unat_add_lem)
  then have u: "unat (short + 1) = ?L + ?D - unat ?max"
    using s assms(1,3) by simp
  have "unat (short + 1) < 2 ^ 31" using u assms(2) by simp
  then have "sint (short + 1) = int (?L + ?D - unat ?max)"
    using u by (simp only: sint_small)
  moreover have "next_norm_error A d = Inr (sint (short + 1), None, d)"
    unfolding next_norm_error_def peek_count Let_def short_def
    using ge by (simp only: prod.case if_True)
  ultimately show ?thesis by (simp only:)
qed

lemma fresh_new:
  "fcch_detector_new x_arith 4096 True (Fin GSM_RATE) 4 (Fin (1 / 4)) (Fin 1) = Inr fresh_detector"
  by (simp add: fcch_detector_new_def circular_buffer_new_def fresh_detector_def x_arith_def
        GSM_RATE_def HIGH_def)

text \<open>
  Claim C10.  When the sample ring holds fewer than \<open>L + D\<close> samples (\<open>L = m_w_len\<close>,
  \<open>D = m_D\<close>, with \<open>0 < L\<close> and \<open>L + D\<close> below \<open>2^31\<close> so that the 32-bit sum and the
  conversion to \<^verbatim>\<open>int\<close> are exact), \<^verbatim>\<open>next_norm_error\<close> returns \<open>L + D - available\<close>, which is
  positive, stores nothing through \<open>error\<close> and leaves the whole detector (weights, gain,
  error average, the three rings) as it was.  \<open>L + D\<close> is \<^verbatim>\<open>get_delay() + 1\<close>.
\<close>

theorem need_more_input:
  assumes "0 < unat (m_w_len d)" and "unat (m_w_len d) + unat (m_D d) < 2 ^ 31"
    and "unat (data_available (m_x_cb d)) < unat (m_w_len d) + unat (m_D d)"
  shows "next_norm_error A d
           = Inr (int (unat (m_w_len d) + unat (m_D d) - unat (data_available (m_x_cb d))), None, d)
       \<and> 0 < unat (m_w_len d) + unat (m_D d) - unat (data_available (m_x_cb d))
       \<and> unat (get_delay d) + 1 = unat (m_w_len d) + unat (m_D d)"
  using short_window[OF assms, of A] assms window_top[OF assms(1,2)]
  by (simp add: get_delay_def)

text \<open>
  Claim C10, an instance: the detector fresh from the constructor has an empty sample ring
  and asks for \<open>17 + 4 = 21\<close> samples.
\<close>

theorem need_more_input_witness:
  "fcch_detector_new x_arith 4096 True (Fin GSM_RATE) 4 (Fin (1 / 4)) (Fin 1) = Inr fresh_detector
   \<and> unat (data_available (m_x_cb fresh_detector)) = 0
   \<and> next_norm_error x_arith fresh_detector = Inr (21, None, fresh_detector)
   \<and> get_delay fresh_detector = 20"
proof -
  have f: "m_w_len fresh_detector = 17" "m_D fresh_detector = 4"
    "data_available (m_x_cb fresh_detector) = 0"
    by (simp_all add: fresh_detector_def data_available_def)
  have "next_norm_error x_arith fresh_detector = Inr (21, None, fresh_detector)"
    using need_more_input[of fresh_detector x_arith] by (simp add: f)
  then show ?thesis
    using fresh_new by (simp add: f get_delay_def)
qed

subsection \<open>Reading the rings\<close>

lemma le_bytes_length [simp]: "length (le_bytes n w) = n"
  by (induction n arbitrary: w) simp_all

lemma ring_load_slice:
  assumes "n + m \<le> tot"
  shows "take m (drop n (ring_load mem S off tot)) = ring_load mem S (off + n) m"
proof (rule nth_equalityI)
  show "length (take m (drop n (ring_load mem S off tot))) = length (ring_load mem S (off + n) m)"
    using assms by simp
next
  fix i assume "i < length (take m (drop n (ring_load mem S off tot)))"
  then have i: "i < m" by simp
  then have "n + i < tot" using assms by simp
  then have "take m (drop n (ring_load mem S off tot)) ! i = mem ((off + (n + i)) mod S)"
    using i by simp
  then show "take m (drop n (ring_load mem S off tot)) ! i = ring_load mem S (off + n) m ! i"
    using i by (simp add: add.assoc)
qed

lemma peek_item_live:
  assumes inv: "cb_inv cb" and i: "i < unat (data_available cb)"
  shows "peek_item cb i = Inr (ring_items cb ! i)"
proof -
  let ?S = "unat (m_buf_size cb)" and ?c = "unat (m_item_size cb)"
  let ?k = "unat (data_available cb)"
  have l: "cb_loose cb" using inv by (rule cb_inv_loose)
  note f = inv_facts[OF inv]
  have "(i + 1) * ?c \<le> ?k * ?c" using i by (intro mult_le_mono1) simp
  moreover have "?k * ?c \<le> used cb"
    using div_mult_le_self[of "used cb" ?c] by (simp add: data_available_nat[OF l])
  ultimately have b: "(i + 1) * ?c \<le> used cb" "i * ?c + ?c \<le> ?k * ?c" by simp_all
  then have "unat (m_r cb) + (i + 1) * ?c \<le> 2 * ?S" using f(4,6) by linarith
  then have "peek_item cb i = Inr (ring_load (m_buf cb) ?S (unat (m_r cb) + i * ?c) ?c)"
    by (simp add: peek_item_def peek_count r_offset[OF inv] Let_def)
  moreover have "ring_items cb ! i = ring_load (m_buf cb) ?S (unat (m_r cb) + i * ?c) ?c"
    using i ring_load_slice[OF b(2)] by (simp add: ring_items_def contents_eq[OF inv])
  ultimately show ?thesis by simp
qed

lemma all_right_map:
  assumes "\<And>i. i < k \<Longrightarrow> f i = Inr (g i)"
  shows "all_right (map f [0..<k]) = Inr (map g [0..<k])"
  using assms
proof (induction k)
  case 0
  then show ?case by simp
next
  case (Suc k)
  have app: "all_right (xs @ [Inr a]) = (case all_right xs of Inl e \<Rightarrow> Inl e | Inr as \<Rightarrow> Inr (as @ [a]))"
    for xs :: "('e + 'x) list" and a
    by (induction xs rule: all_right.induct) (auto split: sum.splits)
  have "all_right (map f [0..<k]) = Inr (map g [0..<k])" using Suc by simp
  then show ?case using Suc.prems[of k] by (simp add: app)
qed

lemma ring_items_length [simp]: "length (ring_items cb) = unat (data_available cb)"
  by (simp add: ring_items_def)

lemma ring_complex_length [simp]: "length (ring_complex A cb) = unat (data_available cb)"
  by (simp add: ring_complex_def)

lemma peek_complex_live:
  assumes inv: "cb_inv cb" and k: "k \<le> unat (data_available cb)"
  shows "peek_complex A cb k = Inr (take k (ring_complex A cb))"
proof -
  have "all_right (map (\<lambda>i. map_sum id (\<lambda>bs. c_of_bits A (le_word bs)) (peek_item cb i)) [0..<k])
      = Inr (map (\<lambda>i. c_of_bits A (le_word (ring_items cb ! i))) [0..<k])"
    using k by (intro all_right_map) (simp add: peek_item_live[OF inv])
  moreover have "map (\<lambda>i. c_of_bits A (le_word (ring_items cb ! i))) [0..<k]
      = take k (ring_complex A cb)"
    using k by (auto simp: list_eq_iff_nth_eq ring_complex_def)
  ultimately show ?thesis by (simp add: peek_complex_def)
qed

lemma ring_item_size:
  assumes inv: "cb_inv cb" and i: "i < unat (data_available cb)"
  shows "length (ring_items cb ! i) = unat (m_item_size cb)"
proof -
  let ?c = "unat (m_item_size cb)" and ?k = "unat (data_available cb)"
  have "i * ?c + ?c \<le> ?k * ?c"
    using i by (metis Suc_leI mult_Suc mult_le_mono1 add.commute)
  then show ?thesis
    using i by (simp add: ring_items_def contents_eq[OF inv])
qed

lemma write_one:
  assumes inv: "cb_inv cb" and side: "m_overwrite cb = 0 \<or>
      (3 * unat (m_buf_size cb) < 2 ^ 32 \<and> 1 \<le> capacity cb)"
    and c: "unat (m_item_size cb) \<le> unat (m_buf_size cb)" and ls: "length bs = unat (m_item_size cb)"
  shows "\<exists>cb' t. cb_write cb bs 1 = Inr (cb', t) \<and> cb_inv cb'
           \<and> m_buf_size cb' = m_buf_size cb \<and> m_buf_len cb' = m_buf_len cb
           \<and> m_item_size cb' = m_item_size cb \<and> m_overwrite cb' = m_overwrite cb"
proof -
  let ?S = "unat (m_buf_size cb)" and ?c = "unat (m_item_size cb)"
  note f = inv_facts[OF inv]
  have "to_write cb 1 \<le> 1" by (simp add: to_write_def word_le_nat_alt)
  then have t: "unat (to_write cb 1) \<le> 1" by (simp add: word_le_nat_alt)
  then have "unat (to_write cb 1) * ?c \<le> ?c"
    by (metis mult_le_mono1 nat_mult_1)
  then have le: "unat (to_write cb 1) * ?c \<le> ?c" "unat (to_write cb 1) * ?c < 2 ^ 32"
    using c f(3) by linarith+
  have n: "unat (to_write cb 1 * m_item_size cb) \<le> ?c"
    using items_bytes[OF le(2)] le(1) by simp
  have "unat (m_w cb mod m_buf_size cb) < ?S" using f(2) by (simp add: unat_mod)
  then have "\<not> (length bs < unat (to_write cb 1 * m_item_size cb)
      \<or> unat (m_w cb mod m_buf_size cb) + unat (to_write cb 1 * m_item_size cb) > 2 * ?S)"
    using n ls c by linarith
  then obtain cb' where w: "cb_write cb bs 1 = Inr (cb', to_write cb 1)"
    unfolding cb_write_unfold Let_def by auto
  show ?thesis
    using w cb_write_inv[OF inv side w] cb_write_fields[OF w] by blast
qed

subsection \<open>A filter step\<close>

lemma det_window:
  assumes inv: "det_inv d"
  shows "0 < unat (m_w_len d)" "unat (m_w_len d) + unat (m_D d) < 2 ^ 28"
    "unat (m_w_len d - 1) = unat (m_w_len d) - 1"
    "unat (m_w_len d - 1 + m_D d) = unat (m_w_len d) - 1 + unat (m_D d)"
proof -
  let ?x = "m_x_cb d"
  have x: "cb_inv ?x" and c: "m_item_size ?x = 8" using inv by (simp_all add: det_inv_def)
  note f = inv_facts[OF x]
  have "unat (capacity ?x) = unat (m_buf_size ?x) div 8"
    using x c by (simp add: capacity_def cb_inv_def cb_loose_def)
  then have "unat (capacity ?x) < 2 ^ 28" using f(3) by simp
  then show b: "unat (m_w_len d) + unat (m_D d) < 2 ^ 28"
    using inv by (simp add: det_inv_def)
  show p: "0 < unat (m_w_len d)" using inv by (simp add: det_inv_def)
  have "unat (m_w_len d) + unat (m_D d) < 2 ^ 31" using b by simp
  from window_top[OF p this]
  show "unat (m_w_len d - 1) = unat (m_w_len d) - 1"
    "unat (m_w_len d - 1 + m_D d) = unat (m_w_len d) - 1 + unat (m_D d)" by simp_all
qed

lemma nlms_step_full:
  assumes inv: "det_inv d"
    and av: "unat (m_w_len d) + unat (m_D d) \<le> unat (data_available (m_x_cb d))"
  shows "\<exists>y_cb w.
     next_norm_error A d =
       Inr (0,
            Some (if f_gt A (f_div A (window_energy A d) (f_of_u32 A (m_w_len d)))
                       (f_lit A (1 / 10 ^ 20))
                  then f_div A (f_add A (f_mul A (f_sub A (f_lit A 1) (m_p d)) (m_e d))
                                        (f_mul A (m_p d) (c_norm A (filter_error A d))))
                         (f_div A (window_energy A d) (f_of_u32 A (m_w_len d)))
                  else f_lit A 0),
            d\<lparr>m_G := (if f_gt A (window_energy A d) (f_lit A (1 / 10 ^ 10))
                      then f_div A (f_lit A 1) (window_energy A d) else m_G d),
              m_e := f_add A (f_mul A (f_sub A (f_lit A 1) (m_p d)) (m_e d))
                             (f_mul A (m_p d) (c_norm A (filter_error A d))),
              m_w_vec := w, m_y_cb := y_cb, m_x_cb := fst (purge (m_x_cb d) 1)\<rparr>)
     \<and> length w = unat (m_w_len d) \<and> w = next_weights A d
     \<and> cb_inv y_cb \<and> m_buf_size y_cb = m_buf_size (m_y_cb d)
     \<and> m_buf_len y_cb = m_buf_len (m_y_cb d) \<and> m_item_size y_cb = m_item_size (m_y_cb d)
     \<and> m_overwrite y_cb = m_overwrite (m_y_cb d)"
proof -
  let ?L = "unat (m_w_len d)" and ?D = "unat (m_D d)"
  let ?x = "m_x_cb d" and ?y = "m_y_cb d"
  note w = det_window[OF inv]
  have x: "cb_inv ?x" and cx: "m_item_size ?x = 8" and y: "cb_inv ?y" and cy: "m_item_size ?y = 8"
    and lw: "length (m_w_vec d) = ?L"
    using inv by (simp_all add: det_inv_def)
  have nge: "\<not> data_available ?x \<le> m_w_len d - 1 + m_D d"
    using av w by (simp add: word_le_nat_alt)
  have mx: "Suc (Max {unat (m_w_len d - 1), unat (m_w_len d - 1 + m_D d)}) = ?L + ?D"
    using w by simp
  have pk: "peek_complex A ?x (?L + ?D) = Inr (window A d)"
    using peek_complex_live[OF x av] by (simp add: window_def)
  have top: "?L - 1 + ?D < unat (data_available ?x)" using av w(1) by simp
  have pi: "peek_item ?x (?L - 1 + ?D) = Inr (ring_items ?x ! (?L - 1 + ?D))"
    using peek_item_live[OF x top] .
  have "length (ring_items ?x ! (?L - 1 + ?D)) = unat (m_item_size ?y)"
    using ring_item_size[OF x top] cx cy by simp
  moreover have "unat (m_item_size ?y) \<le> unat (m_buf_size ?y)"
  proof -
    have "unat (m_buf_len ?y) = unat (m_buf_size ?y) div 8"
      using y cy by (simp add: cb_inv_def cb_loose_def)
    moreover have "1 \<le> unat (m_buf_len ?y)"
      using inv by (simp add: det_inv_def capacity_def word_le_nat_alt)
    ultimately have "1 \<le> unat (m_buf_size ?y) div 8" by simp
    then have "8 \<le> unat (m_buf_size ?y)" by simp
    then show ?thesis using cy by simp
  qed
  moreover have "m_overwrite ?y = 0 \<or> (3 * unat (m_buf_size ?y) < 2 ^ 32 \<and> 1 \<le> capacity ?y)"
    using inv by (simp add: det_inv_def)
  ultimately obtain y_cb t where
    wr: "cb_write ?y (ring_items ?x ! (?L - 1 + ?D)) 1 = Inr (y_cb, t)" and yi: "cb_inv y_cb"
    and yf: "m_buf_size y_cb = m_buf_size ?y" "m_buf_len y_cb = m_buf_len ?y"
      "m_item_size y_cb = m_item_size ?y" "m_overwrite y_cb = m_overwrite ?y"
    using write_one[OF y] by blast
  define G where "G = (if f_gt A (window_energy A d) (f_lit A (1 / 10 ^ 10))
                      then f_div A (f_lit A 1) (window_energy A d) else m_G d)"
  define w' where "w' = map (\<lambda>i. c_add A (m_w_vec d ! i)
                     (c_mul A (c_scale A G (c_conj A (filter_error A d)))
                        (window A d ! (?L - 1 - i)))) [0..<?L]"
  have "next_norm_error A d =
       Inr (0,
            Some (if f_gt A (f_div A (window_energy A d) (f_of_u32 A (m_w_len d)))
                       (f_lit A (1 / 10 ^ 20))
                  then f_div A (f_add A (f_mul A (f_sub A (f_lit A 1) (m_p d)) (m_e d))
                                        (f_mul A (m_p d) (c_norm A (filter_error A d))))
                         (f_div A (window_energy A d) (f_of_u32 A (m_w_len d)))
                  else f_lit A 0),
            d\<lparr>m_G := G,
              m_e := f_add A (f_mul A (f_sub A (f_lit A 1) (m_p d)) (m_e d))
                             (f_mul A (m_p d) (c_norm A (filter_error A d))),
              m_w_vec := w', m_y_cb := y_cb, m_x_cb := fst (purge (m_x_cb d) 1)\<rparr>)"
    unfolding next_norm_error_def peek_count Let_def prod.case mx G_def w'_def
    using nge pk pi wr lw w
    by (simp add: window_energy_def filter_error_def filter_output_def)
  moreover have "length w' = ?L" by (simp add: w'_def)
  moreover have "w' = next_weights A d" by (simp add: w'_def G_def next_weights_def)
  ultimately show ?thesis
    unfolding G_def using yi yf by blast
qed

lemma x_arith_simps:
  "f_lit x_arith = Fin" "f_add x_arith = x_add" "f_sub x_arith = x_sub" "f_mul x_arith = x_mul"
  "f_div x_arith = x_div" "f_gt x_arith = x_gt" "f_le x_arith = x_le"
  "f_of_u32 x_arith = (\<lambda>w. Fin (real (unat w)))" "f_to_u32 x_arith = x_to_u32"
  "f_of_d x_arith = (\<lambda>x. x)" "d_lit x_arith = Fin" "d_of_f x_arith = (\<lambda>x. x)"
  "d_of_u32 x_arith = (\<lambda>w. Fin (real (unat w)))" "d_to_u32 x_arith = x_to_u32"
  "d_add x_arith = x_add" "d_mul x_arith = x_mul" "d_div x_arith = x_div"
  "c_make x_arith = Pair" "c_add x_arith = xc_add" "c_sub x_arith = xc_sub"
  "c_mul x_arith = xc_mul" "c_scale x_arith = xc_scale" "c_conj x_arith = xc_conj"
  "c_norm x_arith = xc_norm" "c_bits x_arith = xc_bits" "c_of_bits x_arith = xc_of_bits"
  "f_bits x_arith = (\<lambda>x. word_of_int (x_fixed 16 x))"
  "f_of_bits x_arith = (\<lambda>w. Fin (real_of_int (sint w) / 2 ^ 16))"
  "tone_estimate x_arith = x_tone"
  by (simp_all add: x_arith_def)

lemma quiet_fields:
  "m_w_len (quiet_detector b) = 17" "m_D (quiet_detector b) = 4"
  "m_p (quiet_detector b) = Fin (1 / 4)" "m_e (quiet_detector b) = Fin 0"
  "m_G (quiet_detector b) = Fin 1" "m_w_vec (quiet_detector b) = replicate 17 (Fin 0, Fin 0)"
  by (simp_all add: quiet_detector_def fresh_detector_def)

lemma quiet_inv: "det_inv (quiet_detector b)"
  by (simp add: quiet_detector_def fresh_detector_def det_inv_def cb_inv_def cb_loose_def
        used_def aligned_def capacity_def)

lemma quiet_avail: "data_available (m_x_cb (quiet_detector b)) = 21"
  by (simp add: quiet_detector_def data_available_def)

lemma quiet_item:
  assumes "i < 21"
  shows "ring_items (m_x_cb (quiet_detector b)) ! i
           = (if i = 0 \<or> i = 20 then b else 0) # replicate 7 0"
proof -
  let ?x = "m_x_cb (quiet_detector b)"
  have x: "cb_inv ?x" using quiet_inv by (simp add: det_inv_def)
  have f: "m_item_size ?x = 8" "m_r ?x = 0" "m_buf_size ?x = 65536"
    "m_buf ?x = (\<lambda>p. 0)(0 := b, 160 := b)"
    by (simp_all add: quiet_detector_def)
  have "i * 8 + 8 \<le> 168" using assms by simp
  then have "take 8 (drop (i * 8) (ring_load (m_buf ?x) 65536 0 168))
      = ring_load (m_buf ?x) 65536 (0 + i * 8) 8"
    by (rule ring_load_slice)
  then have "ring_items ?x ! i = ring_load (m_buf ?x) 65536 (i * 8) 8"
    using assms by (simp add: ring_items_def contents_eq[OF x] quiet_avail f(1,2,3))
  also have "\<dots> = map (\<lambda>j. m_buf ?x (i * 8 + j)) [0..<8]"
    using assms by (simp add: ring_load_def)
  also have "\<dots> = map (\<lambda>j. if j = 0 \<and> (i = 0 \<or> i = 20) then b else 0) [0..<8]"
  proof (rule map_cong[OF refl])
    fix j assume "j \<in> set [0..<8]"
    have "i * 8 + j = 0 \<longleftrightarrow> j = 0 \<and> i = 0" by auto
    moreover have "i * 8 + j = 160 \<longleftrightarrow> j = 0 \<and> i = 20"
    proof -
      have "j < 8" using \<open>j \<in> set [0..<8]\<close> by simp
      then show ?thesis by presburger
    qed
    ultimately show "m_buf ?x (i * 8 + j) = (if j = 0 \<and> (i = 0 \<or> i = 20) then b else 0)"
      unfolding f(4) by (simp only: fun_upd_apply) simp
  qed
  also have "\<dots> = (if i = 0 \<or> i = 20 then b else 0) # replicate 7 0"
  proof -
    have "[0..<8] = [0, 1, 2, 3, 4, 5, 6, 7]" by code_simp
    moreover have "replicate 7 (0 :: byte) = [0, 0, 0, 0, 0, 0, 0]" by code_simp
    ultimately show ?thesis by simp
  qed
  finally show ?thesis .
qed

lemma le_word_zeros [simp]: "le_word (replicate n 0) = 0"
  by (induction n) simp_all

lemma quiet_sample:
  assumes "i < 21" and "b = 1 \<or> b = 2"
  shows "ring_complex x_arith (m_x_cb (quiet_detector b)) ! i
    = (if i = 0 \<or> i = 20 then (Fin (real (unat b) / 2 ^ 32), Fin 0) else (Fin 0, Fin 0))"
  using assms by (auto simp: ring_complex_def quiet_avail quiet_item x_arith_simps xc_of_bits_def)

lemma quiet_window:
  assumes "b = 1 \<or> b = 2"
  shows "window x_arith (quiet_detector b) = quiet_input (real (unat b) / 2 ^ 32)"
proof -
  let ?rc = "ring_complex x_arith (m_x_cb (quiet_detector b))"
  have "?rc = quiet_input (real (unat b) / 2 ^ 32)"
  proof (rule nth_equalityI)
    show "length ?rc = length (quiet_input (real (unat b) / 2 ^ 32))"
      by (simp add: quiet_avail quiet_input_def)
  next
    fix i assume "i < length ?rc"
    then have i: "i < 21" by (simp add: quiet_avail)
    have "quiet_input a ! i = (if i = 0 \<or> i = 20 then (Fin a, Fin 0) else (Fin 0, Fin 0))" for a
      using i by (auto simp: quiet_input_def nth_Cons' nth_append)
    then show "?rc ! i = quiet_input (real (unat b) / 2 ^ 32) ! i"
      using quiet_sample[OF i assms] by simp
  qed
  then show ?thesis
    by (simp add: window_def quiet_fields quiet_input_def)
qed

lemma xc_norm_fin [simp]: "xc_norm (Fin a, Fin b) = Fin (a * a + b * b)"
  by (simp add: xc_norm_def)

lemma energy_zeros:
  "foldl (\<lambda>e x. x_add e (xc_norm x)) (Fin a) (replicate n (Fin 0, Fin 0)) = Fin a"
  by (induction n) simp_all

lemma quiet_energy:
  assumes "b = 1 \<or> b = 2"
  shows "window_energy x_arith (quiet_detector b) = Fin ((real (unat b) / 2 ^ 32)\<^sup>2)"
proof -
  have "take 17 (quiet_input a) = (Fin a, Fin 0) # replicate 16 (Fin 0, Fin 0)" for a
    by (simp add: quiet_input_def)
  then show ?thesis
    by (simp add: window_energy_def quiet_window[OF assms] vectornorm2_def x_arith_simps
          energy_zeros quiet_fields power2_eq_square)
qed

lemma output_zeros:
  assumes "k \<le> n" "n \<le> length xs" "\<forall>x \<in> set xs. \<exists>a b. x = (Fin a, Fin b)"
  shows "foldl (\<lambda>y i. xc_add y (xc_mul (xc_conj (replicate n (Fin 0, Fin 0) ! i)) (xs ! (n - 1 - i))))
           (Fin 0, Fin 0) [0..<k] = (Fin 0, Fin 0)"
  using assms(1)
proof (induction k)
  case 0
  then show ?case by simp
next
  case (Suc k)
  have "n - 1 - k < length xs" using Suc.prems assms(2) by simp
  then have "xs ! (n - 1 - k) \<in> set xs" by simp
  then obtain a b where "xs ! (n - 1 - k) = (Fin a, Fin b)" using assms(3) by blast
  then show ?case using Suc by (simp add: xc_add_def xc_mul_def xc_conj_def x_sub_def)
qed

lemma quiet_output:
  assumes "b = 1 \<or> b = 2"
  shows "filter_output x_arith (quiet_detector b) = (Fin 0, Fin 0)"
proof -
  let ?in = "quiet_input (real (unat b) / 2 ^ 32)"
  have "x = (Fin (real (unat b) / 2 ^ 32), Fin 0) \<or> x = (Fin 0, Fin 0)" if "x \<in> set ?in" for x
    using that by (auto simp: quiet_input_def)
  then have "\<forall>x \<in> set ?in. \<exists>a b. x = (Fin a, Fin b)" by blast
  moreover have "17 \<le> length ?in" by (simp add: quiet_input_def)
  ultimately show ?thesis
    using output_zeros[of 17 17 ?in]
    by (simp add: filter_output_def quiet_window[OF assms] quiet_fields x_arith_simps)
qed

lemma quiet_error:
  assumes "b = 1 \<or> b = 2"
  shows "filter_error x_arith (quiet_detector b) = (Fin (real (unat b) / 2 ^ 32), Fin 0)"
proof -
  have "quiet_input a ! 20 = (Fin a, Fin 0)" for a
    by (simp add: quiet_input_def nth_Cons' nth_append)
  then show ?thesis
    by (simp add: filter_error_def quiet_window[OF assms] quiet_output[OF assms] quiet_fields
          x_arith_simps xc_sub_def x_sub_def)
qed

lemma quiet_ready:
  "unat (m_w_len (quiet_detector b)) + unat (m_D (quiet_detector b))
      \<le> unat (data_available (m_x_cb (quiet_detector b)))"
  by (simp add: quiet_avail quiet_fields)

lemma quiet_energy_1: "window_energy x_arith (quiet_detector 1) = Fin (1 / 2 ^ 64)"
  by (simp add: quiet_energy power2_eq_square)

lemma quiet_energy_2: "window_energy x_arith (quiet_detector 2) = Fin (1 / 2 ^ 62)"
  by (simp add: quiet_energy power2_eq_square)

lemma quiet_step_1:
  "\<exists>d'. next_norm_error x_arith (quiet_detector 1) = Inr (0, Some (Fin 0), d')
      \<and> m_e d' = Fin (1 / 2 ^ 66)"
  using nlms_step_full[OF quiet_inv quiet_ready, of x_arith 1]
  by (auto simp: quiet_energy_1 quiet_error x_arith_simps quiet_fields x_sub_def)

text \<open>
  Claim C2, amended.  In a well-formed detector whose sample ring holds at least \<open>L + D\<close>
  samples, \<^verbatim>\<open>next_norm_error\<close> returns 0 and stores an error.  With \<open>E\<close> the energy of the
  first \<open>L\<close> samples of the ring: the gain becomes \<open>1 / E\<close> when \<open>E > 10^-10\<close> and is kept
  otherwise; the error average becomes \<open>(1 - p) * e + p * |err|^2\<close>; and the stored error
  is the new error average divided by \<open>E / L\<close> when \<open>E / L > 10^-20\<close> (the guard is on the
  mean energy \<open>E / L\<close>, not on \<open>E\<close>), and 0 otherwise.
\<close>

theorem nlms_step:
  assumes "det_inv d"
    and "unat (m_w_len d) + unat (m_D d) \<le> unat (data_available (m_x_cb d))"
  shows "\<exists>d' err.
     next_norm_error A d = Inr (0, Some err, d')
     \<and> m_G d' = (if f_gt A (window_energy A d) (f_lit A (1 / 10 ^ 10))
                 then f_div A (f_lit A 1) (window_energy A d) else m_G d)
     \<and> m_e d' = f_add A (f_mul A (f_sub A (f_lit A 1) (m_p d)) (m_e d))
                         (f_mul A (m_p d) (c_norm A (filter_error A d)))
     \<and> err = (if f_gt A (f_div A (window_energy A d) (f_of_u32 A (m_w_len d)))
                   (f_lit A (1 / 10 ^ 20))
              then f_div A (m_e d') (f_div A (window_energy A d) (f_of_u32 A (m_w_len d)))
              else f_lit A 0)"
proof -
  from nlms_step_full[OF assms, of A] obtain y_cb w where
    "next_norm_error A d =
       Inr (0,
            Some (if f_gt A (f_div A (window_energy A d) (f_of_u32 A (m_w_len d)))
                       (f_lit A (1 / 10 ^ 20))
                  then f_div A (f_add A (f_mul A (f_sub A (f_lit A 1) (m_p d)) (m_e d))
                                        (f_mul A (m_p d) (c_norm A (filter_error A d))))
                         (f_div A (window_energy A d) (f_of_u32 A (m_w_len d)))
                  else f_lit A 0),
            d\<lparr>m_G := (if f_gt A (window_energy A d) (f_lit A (1 / 10 ^ 10))
                      then f_div A (f_lit A 1) (window_energy A d) else m_G d),
              m_e := f_add A (f_mul A (f_sub A (f_lit A 1) (m_p d)) (m_e d))
                             (f_mul A (m_p d) (c_norm A (filter_error A d))),
              m_w_vec := w, m_y_cb := y_cb, m_x_cb := fst (purge (m_x_cb d) 1)\<rparr>)"
    by blast
  then show ?thesis by simp
qed

text \<open>
  Claim C2, an instance: 21 samples in the ring of a fresh detector, the first and the last
  \<open>2 / 2^32\<close>, the others 0.  \<open>E = 2^-62\<close>, the gain stays 1, the error average becomes
  \<open>2^-64\<close> and the stored error is \<open>17/4\<close>.
\<close>

theorem nlms_step_witness:
  "det_inv (quiet_detector 2)
   \<and> unat (m_w_len (quiet_detector 2)) + unat (m_D (quiet_detector 2)) = 21
   \<and> unat (data_available (m_x_cb (quiet_detector 2))) = 21
   \<and> window_energy x_arith (quiet_detector 2) = Fin (1 / 2 ^ 62)
   \<and> (\<exists>d'. next_norm_error x_arith (quiet_detector 2) = Inr (0, Some (Fin (17 / 4)), d')
           \<and> m_G d' = Fin 1 \<and> m_e d' = Fin (1 / 2 ^ 64))"
proof -
  note e = quiet_energy_2
  have "\<exists>d'. next_norm_error x_arith (quiet_detector 2) = Inr (0, Some (Fin (17 / 4)), d')
           \<and> m_G d' = Fin 1 \<and> m_e d' = Fin (1 / 2 ^ 64)"
    using nlms_step[OF quiet_inv quiet_ready, of x_arith 2]
    by (auto simp: e quiet_error x_arith_simps quiet_fields x_sub_def)
  then show ?thesis
    using quiet_inv[of 2] e by (simp add: quiet_avail quiet_fields)
qed

text \<open>
  Claim C2 as stated fails: with first and last sample \<open>1 / 2^32\<close> the energy
  \<open>E = 2^-64\<close> exceeds \<open>10^-20\<close>, but \<open>E / 17\<close> does not, and the stored error is 0 rather
  than \<open>e_avg / (E / L) = 17/4\<close>.
\<close>

theorem mean_energy_counterexample:
  "det_inv (quiet_detector 1)
   \<and> unat (m_w_len (quiet_detector 1)) + unat (m_D (quiet_detector 1)) = 21
   \<and> unat (data_available (m_x_cb (quiet_detector 1))) = 21
   \<and> window_energy x_arith (quiet_detector 1) = Fin (1 / 2 ^ 64)
   \<and> x_gt (Fin (1 / 2 ^ 64)) (Fin (1 / 10 ^ 20))
   \<and> (\<exists>d'. next_norm_error x_arith (quiet_detector 1) = Inr (0, Some (Fin 0), d')
           \<and> m_e d' = Fin (1 / 2 ^ 66))
   \<and> x_div (Fin (1 / 2 ^ 66)) (x_div (Fin (1 / 2 ^ 64)) (Fin 17)) = Fin (17 / 4)"
proof -
  note quiet_energy_1
  moreover have "x_gt (Fin (1 / 2 ^ 64)) (Fin (1 / 10 ^ 20))" by simp
  moreover have "x_div (Fin (1 / 2 ^ 66)) (x_div (Fin (1 / 2 ^ 64)) (Fin 17)) = Fin (17 / 4)"
    by simp
  ultimately show ?thesis
    using quiet_inv[of 1] quiet_step_1 by (simp add: quiet_avail quiet_fields)
qed

subsection \<open>The scan loops\<close>

lemma to_write_plain:
  assumes "m_overwrite cb = 0"
  shows "unat (to_write cb len) = min (unat len) (unat (space_available cb))"
    and "to_write cb len \<le> space_available cb" and "to_write cb len \<le> len"
  using assms by (auto simp: to_write_def word_le_nat_alt word_less_nat_alt)

lemma write_plain:
  assumes inv: "cb_inv cb" and ov: "m_overwrite cb = 0"
    and ls: "unat len * unat (m_item_size cb) \<le> length s"
  shows "\<exists>cb'. cb_write cb s len = Inr (cb', to_write cb len) \<and> cb_inv cb'
           \<and> m_buf_size cb' = m_buf_size cb \<and> m_buf_len cb' = m_buf_len cb
           \<and> m_item_size cb' = m_item_size cb \<and> m_overwrite cb' = m_overwrite cb
           \<and> unat (data_available cb') = unat (data_available cb) + unat (to_write cb len)"
proof -
  have "unat (to_write cb len) \<le> unat len"
    using to_write_plain(3)[OF ov] by (simp add: word_le_nat_alt)
  then have "unat (to_write cb len) * unat (m_item_size cb) \<le> unat len * unat (m_item_size cb)"
    by (rule mult_le_mono1)
  then have l: "unat (to_write cb len) * unat (m_item_size cb) \<le> length s"
    using ls by linarith
  have al: "unat (m_item_size cb) dvd used cb"
    using inv ov by (intro aligned_dvd) simp_all
  from cb_write_contents[OF inv al to_write_plain(2)[OF ov] l]
  show ?thesis by blast
qed

lemma purge_one:
  assumes inv: "cb_inv cb" and k: "0 < unat (data_available cb)"
  shows "unat (data_available (fst (purge cb 1))) = unat (data_available cb) - 1"
proof -
  let ?c = "unat (m_item_size cb)"
  define cb' where "cb' = cb\<lparr>m_r := m_r cb + 1 * m_item_size cb\<rparr>"
  have one: "(1 :: u32) \<le> data_available cb" using k by (simp add: word_le_nat_alt)
  then have m: "min 1 (data_available cb) = 1" by (simp add: min_def)
  have p: "fst (purge cb 1) = rewind cb'"
    using m by (simp add: purge_def Let_def data_available_def cb'_def)
  note a = advance_r_loose[OF inv one, folded cb'_def]
  have c: "0 < ?c" using inv_facts(1)[OF inv] .
  have i': "cb_inv (rewind cb')" using a(1) by (rule rewind_inv)
  have "unat (data_available (rewind cb')) = used (rewind cb') div unat (m_item_size (rewind cb'))"
    using cb_inv_loose[OF i'] by (rule data_available_nat)
  also have "\<dots> = (used cb - ?c) div ?c"
    using rewind_used[OF a(1)] a(2) by (simp add: cb'_def)
  also have "\<dots> = used cb div ?c - 1"
  proof (cases "?c \<le> used cb")
    case True
    then show ?thesis using le_div_geq[OF c True] by simp
  next
    case False
    then show ?thesis by simp
  qed
  also have "\<dots> = unat (data_available cb) - 1"
    using data_available_nat[OF cb_inv_loose[OF inv]] by simp
  finally show ?thesis using p by simp
qed

lemma float_bytes_length [simp]: "length (float_bytes A es) = 4 * length es"
  by (induction es) (simp_all add: float_bytes_def)

lemma complex_bytes_length [simp]: "length (complex_bytes A xs) = 8 * length xs"
  by (induction xs) (simp_all add: complex_bytes_def)

lemma batch_write:
  assumes inv: "cb_inv cb" and ov: "m_overwrite cb = 0" and c: "m_item_size cb = 4"
  shows "\<exists>cb' t. cb_write cb (float_bytes A batch) (of_nat (length batch)) = Inr (cb', t)
           \<and> cb_inv cb' \<and> m_overwrite cb' = 0 \<and> m_item_size cb' = 4
           \<and> unat (data_available cb') \<le> unat (data_available cb) + length batch"
proof -
  let ?len = "of_nat (length batch) :: u32"
  have le: "unat ?len \<le> length batch" by (simp add: unat_of_nat)
  then have "unat ?len * unat (m_item_size cb) \<le> length (float_bytes A batch)"
    using c by simp
  from write_plain[OF inv ov this] obtain cb' where
    w: "cb_write cb (float_bytes A batch) ?len = Inr (cb', to_write cb ?len)" "cb_inv cb'"
      "m_item_size cb' = m_item_size cb" "m_overwrite cb' = m_overwrite cb"
      "unat (data_available cb') = unat (data_available cb) + unat (to_write cb ?len)"
    by blast
  have "unat (to_write cb ?len) \<le> unat ?len"
    using to_write_plain(3)[OF ov] by (simp add: word_le_nat_alt)
  then have "unat (data_available cb') \<le> unat (data_available cb) + length batch"
    using w(5) le by linarith
  then show ?thesis using w ov c by auto
qed

lemma det_inv_e_cb:
  assumes "det_inv d" "cb_inv e_cb" "m_overwrite e_cb = 0" "m_item_size e_cb = 4"
  shows "det_inv (d\<lparr>m_e_cb := e_cb\<rparr>)"
  using assms by (simp add: det_inv_def)

lemma counts_nat:
  assumes inv: "cb_inv cb"
  shows "unat (data_available cb) + unat (space_available cb) = unat (capacity cb)"
proof -
  let ?S = "unat (m_buf_size cb)" and ?c = "unat (m_item_size cb)"
  have l: "cb_loose cb" using inv by (rule cb_inv_loose)
  note f = inv_facts[OF inv]
  have "used cb div ?c \<le> used cb" "(?S - used cb) div ?c \<le> ?S - used cb"
    by (rule div_le_dividend)+
  then have "used cb div ?c + (?S - used cb) div ?c < 2 ^ 32"
    using f(3,6) by linarith
  then have "unat (data_available cb) + unat (space_available cb) < 2 ^ 32"
    by (simp only: data_available_nat[OF l] space_available_nat[OF l])
  then have "unat (data_available cb + space_available cb)
      = unat (data_available cb) + unat (space_available cb)"
    by (simp add: unat_add_lem[THEN iffD1])
  then show ?thesis using inv_counts[OF inv] by simp
qed

lemma det_inv_x_cb:
  assumes "det_inv d" "cb_inv x_cb" "m_overwrite x_cb = 0" "m_item_size x_cb = 8"
    "m_buf_len x_cb = m_buf_len (m_x_cb d)"
  shows "det_inv (d\<lparr>m_x_cb := x_cb\<rparr>)"
  using assms by (simp add: det_inv_def capacity_def)

lemma ring_load_mod: "ring_load mem S (off mod S) n = ring_load mem S off n"
  by (simp add: ring_load_def mod_add_left_eq)

lemma ring_load_drop:
  assumes "m \<le> n"
  shows "drop m (ring_load mem S off n) = ring_load mem S (off + m) (n - m)"
proof -
  have "take (n - m) (drop m (ring_load mem S off n)) = ring_load mem S (off + m) (n - m)"
    using assms by (intro ring_load_slice) simp
  then show ?thesis by simp
qed

lemma purge_contents:
  assumes inv: "cb_inv cb" and k: "0 < unat (data_available cb)"
  shows "cb_contents (fst (purge cb 1)) = drop (unat (m_item_size cb)) (cb_contents cb)"
proof -
  let ?c = "unat (m_item_size cb)" and ?S = "unat (m_buf_size cb)" and ?r = "unat (m_r cb)"
  let ?k = "unat (data_available cb)"
  define cb' where "cb' = cb\<lparr>m_r := m_r cb + 1 * m_item_size cb\<rparr>"
  have one: "(1 :: u32) \<le> data_available cb" using k by (simp add: word_le_nat_alt)
  then have m: "min 1 (data_available cb) = 1" by (simp add: min_def)
  have p: "fst (purge cb 1) = rewind cb'"
    using m by (simp add: purge_def Let_def data_available_def cb'_def)
  note a = advance_r_loose[OF inv one, folded cb'_def]
  note f = inv_facts[OF inv]
  have "?r + ?c < 2 ^ 32" using a(3) f(3,4,6) by simp
  then have r': "unat (m_r cb') = ?r + ?c"
    by (simp add: cb'_def unat_add_lem[THEN iffD1])
  have rr: "unat (m_r (rewind cb')) mod ?S = (?r + ?c) mod ?S"
  proof (rule rewind_cases[OF a(1)])
    assume "unat (m_buf_size cb') \<le> unat (m_r cb')"
      and "unat (m_r (rewind cb')) = unat (m_r cb') - unat (m_buf_size cb')"
    then show ?thesis
      using r' by (simp add: cb'_def le_mod_geq)
  next
    assume "rewind cb' = cb'"
    then show ?thesis using r' by simp
  qed
  have i': "cb_inv (rewind cb')" using a(1) by (rule rewind_inv)
  have kk: "unat (data_available (rewind cb')) = ?k - 1"
    using purge_one[OF inv k] p by simp
  have ck: "?c \<le> ?k * ?c" using k by simp
  have "cb_contents (rewind cb')
      = ring_load (m_buf cb) ?S (unat (m_r (rewind cb'))) ((?k - 1) * ?c)"
    using contents_eq[OF i'] kk by (simp add: cb'_def)
  also have "\<dots> = ring_load (m_buf cb) ?S (?r + ?c) ((?k - 1) * ?c)"
    using rr ring_load_mod[of "m_buf cb" ?S] by metis
  also have "\<dots> = ring_load (m_buf cb) ?S (?r + ?c) (?k * ?c - ?c)"
    by (simp add: diff_mult_distrib)
  also have "\<dots> = drop ?c (ring_load (m_buf cb) ?S ?r (?k * ?c))"
    using ring_load_drop[OF ck] by simp
  finally show ?thesis using p contents_eq[OF inv] by simp
qed

lemma purge_items:
  assumes inv: "cb_inv cb" and k: "0 < unat (data_available cb)"
  shows "ring_items (fst (purge cb 1)) = tl (ring_items cb)"
proof (rule nth_equalityI)
  show "length (ring_items (fst (purge cb 1))) = length (tl (ring_items cb))"
    using purge_one[OF inv k] by simp
next
  fix i assume "i < length (ring_items (fst (purge cb 1)))"
  then have i: "i < unat (data_available cb) - 1" using purge_one[OF inv k] by simp
  let ?c = "unat (m_item_size cb)"
  have "ring_items (fst (purge cb 1)) ! i
      = take ?c (drop (i * ?c) (drop ?c (cb_contents cb)))"
    using i purge_one[OF inv k] by (simp add: ring_items_def purge_contents[OF inv k])
  also have "\<dots> = take ?c (drop (Suc i * ?c) (cb_contents cb))"
    by (simp add: add.commute)
  also have "\<dots> = ring_items cb ! Suc i"
  proof -
    have "Suc i < unat (data_available cb)" using i by simp
    then show ?thesis by (simp add: ring_items_def)
  qed
  finally show "ring_items (fst (purge cb 1)) ! i = tl (ring_items cb) ! i"
    using i by (simp add: nth_tl)
qed

lemma purge_complex:
  assumes "cb_inv cb" and "0 < unat (data_available cb)"
  shows "ring_complex A (fst (purge cb 1)) = tl (ring_complex A cb)"
  by (simp add: ring_complex_def purge_items[OF assms] map_tl)

lemma chunk_nth:
  assumes "\<forall>x \<in> set xs. length (enc x) = c" and "i < length xs"
  shows "take c (drop (i * c) (concat (map enc xs))) = enc (xs ! i)"
  using assms
proof (induction xs arbitrary: i)
  case Nil
  then show ?case by simp
next
  case (Cons x xs)
  show ?case
  proof (cases i)
    case 0
    then show ?thesis using Cons.prems by simp
  next
    case (Suc j)
    then have "take c (drop (j * c) (concat (map enc xs))) = enc (xs ! j)"
      using Cons by simp
    then show ?thesis using Suc Cons.prems(1) by simp
  qed
qed

lemma chunk_length:
  assumes "\<forall>x \<in> set xs. length (enc x) = c"
  shows "length (concat (map enc xs)) = length xs * c"
  using assms by (induction xs) simp_all

lemma items_of_contents:
  assumes "cb_contents cb = concat (map enc xs)" and "\<forall>x \<in> set xs. length (enc x) = unat (m_item_size cb)"
    and "unat (data_available cb) = length xs"
  shows "ring_items cb = map enc xs"
proof (rule nth_equalityI)
  show "length (ring_items cb) = length (map enc xs)" using assms(3) by simp
next
  fix i assume "i < length (ring_items cb)"
  then have i: "i < length xs" using assms(3) by simp
  then have "ring_items cb ! i
      = take (unat (m_item_size cb)) (drop (i * unat (m_item_size cb)) (concat (map enc xs)))"
    unfolding ring_items_def assms(3) assms(1) by simp
  also have "\<dots> = enc (xs ! i)" using assms(2) i by (rule chunk_nth)
  finally show "ring_items cb ! i = map enc xs ! i" using i by simp
qed

lemma le_word_le_bytes:
  fixes w :: "'a::len word"
  shows "(le_word (le_bytes n w) :: 'a word) = take_bit (8 * n) w"
proof (induction n arbitrary: w)
  case 0
  then show ?case by simp
next
  case (Suc n)
  have "(ucast (ucast w :: byte) :: 'a word) OR push_bit 8 (take_bit (8 * n) (drop_bit 8 w))
      = take_bit (8 * Suc n) w"
    by (rule bit_word_eqI) (auto simp: bit_simps)
  then show ?case using Suc by simp
qed

lemma le_roundtrip_64 [simp]: "le_word (le_bytes 8 (w :: 64 word)) = w"
  by (simp add: le_word_le_bytes take_bit_word_eq_self)

lemma le_roundtrip_32 [simp]: "le_word (le_bytes 4 (w :: 32 word)) = w"
  by (simp add: le_word_le_bytes take_bit_word_eq_self)

subsection \<open>The filter on a stream\<close>

declare filter_run.simps [simp del]

lemma filter_run_short:
  assumes "length xs < unat L + unat D"
  shows "filter_run A p L D st xs = ([], st, xs)"
  using assms by (cases xs) (simp_all add: filter_run.simps)

lemma filter_run_step:
  assumes "unat L + unat D \<le> length xs" and "xs \<noteq> []"
    and "filter_step A p L D st (take (unat L + unat D) xs) = (err, st')"
    and "filter_run A p L D st' (tl xs) = (errs, st'', rest)"
  shows "filter_run A p L D st xs = (err # errs, st'', rest)"
  using assms by (cases xs) (simp_all add: filter_run.simps)

lemma filter_run_append:
  assumes "filter_run A p L D st xs = (es1, st1, r1)"
    and "filter_run A p L D st1 (r1 @ ys) = (es2, st2, r2)"
  shows "filter_run A p L D st (xs @ ys) = (es1 @ es2, st2, r2)"
  using assms
proof (induction xs arbitrary: st es1)
  case Nil
  then show ?case by (simp add: filter_run.simps)
next
  case (Cons x xs)
  show ?case
  proof (cases "length (x # xs) < unat L + unat D")
    case True
    then show ?thesis using Cons.prems by (simp add: filter_run.simps)
  next
    case False
    obtain err st' where s: "filter_step A p L D st (take (unat L + unat D) (x # xs)) = (err, st')"
      by (cases "filter_step A p L D st (take (unat L + unat D) (x # xs))")
    obtain errs st'' rest where r: "filter_run A p L D st' xs = (errs, st'', rest)"
      by (cases "filter_run A p L D st' xs") auto
    have e: "es1 = err # errs" "st1 = st''" "r1 = rest"
      using Cons.prems(1) False s r by (simp_all add: filter_run.simps)
    have r': "filter_run A p L D st' xs = (errs, st1, r1)" using r e by simp
    have "filter_run A p L D st' (xs @ ys) = (errs @ es2, st2, r2)"
      using r' Cons.prems(2) by (rule Cons.IH)
    moreover have "take (unat L + unat D) ((x # xs) @ ys) = take (unat L + unat D) (x # xs)"
      using False by (simp only: take_append) simp
    moreover have "\<not> length ((x # xs) @ ys) < unat L + unat D" using False by simp
    ultimately show ?thesis
      using s e by (simp add: filter_run.simps del: take_Cons' take_append)
  qed
qed

lemma filter_run_rest:
  assumes "filter_run A p L D st xs = (es, st', rest)"
  shows "rest = drop (length es) xs \<and> length es = length xs - min (length xs) (unat L + unat D - 1)"
  using assms
proof (induction xs arbitrary: st es st' rest)
  case Nil
  then show ?case by (simp add: filter_run.simps)
next
  case (Cons x xs)
  show ?case
  proof (cases "length (x # xs) < unat L + unat D")
    case True
    then have "es = []" "rest = x # xs" using Cons.prems by (auto simp: filter_run.simps)
    then show ?thesis using True by simp
  next
    case False
    obtain err st1 where s: "filter_step A p L D st (take (unat L + unat D) (x # xs)) = (err, st1)"
      by (cases "filter_step A p L D st (take (unat L + unat D) (x # xs))")
    obtain errs st2 r where r: "filter_run A p L D st1 xs = (errs, st2, r)"
      by (cases "filter_run A p L D st1 xs") auto
    have e: "es = err # errs" "rest = r"
      using Cons.prems False s r by (simp_all add: filter_run.simps)
    from Cons.IH[OF r] show ?thesis using e False by (auto simp: min_def)
  qed
qed

lemma chunk_take:
  assumes "\<forall>x \<in> set xs. length (enc x) = c"
  shows "take (t * c) (concat (map enc xs)) = concat (map enc (take t xs))"
  using assms
proof (induction xs arbitrary: t)
  case Nil
  then show ?case by simp
next
  case (Cons x xs)
  show ?case
  proof (cases t)
    case 0
    then show ?thesis by simp
  next
    case (Suc j)
    have "take (j * c) (concat (map enc xs)) = concat (map enc (take j xs))"
      using Cons by simp
    then show ?thesis using Suc Cons.prems by simp
  qed
qed

lemma contents_length:
  assumes "cb_inv cb"
  shows "length (cb_contents cb) = unat (data_available cb) * unat (m_item_size cb)"
  by (simp add: contents_eq[OF assms])

lemma write_items:
  assumes inv: "cb_inv cb" and ov: "m_overwrite cb = 0"
    and sz: "\<forall>x \<in> set xs. length (enc x) = unat (m_item_size cb)"
    and ln: "unat len \<le> length xs"
  shows "\<exists>cb'. cb_write cb (concat (map enc xs)) len = Inr (cb', to_write cb len) \<and> cb_inv cb'
           \<and> m_buf_size cb' = m_buf_size cb \<and> m_buf_len cb' = m_buf_len cb
           \<and> m_item_size cb' = m_item_size cb \<and> m_overwrite cb' = m_overwrite cb
           \<and> unat (data_available cb') = unat (data_available cb) + unat (to_write cb len)
           \<and> ring_items cb' = ring_items cb @ map enc (take (unat (to_write cb len)) xs)"
proof -
  let ?c = "unat (m_item_size cb)" and ?k = "unat (data_available cb)"
  let ?t = "unat (to_write cb len)"
  let ?s = "concat (map enc xs)"
  have tl: "?t \<le> unat len"
    using to_write_plain(3)[OF ov] by (simp add: word_le_nat_alt)
  then have tx: "?t \<le> length xs" using ln by linarith
  have ls: "length ?s = length xs * ?c" using sz by (rule chunk_length)
  have "?t * ?c \<le> length xs * ?c" using tx by (rule mult_le_mono1)
  then have l: "?t * ?c \<le> length ?s" using ls by simp
  have al: "?c dvd used cb" using inv ov by (intro aligned_dvd) simp_all
  from cb_write_contents[OF inv al to_write_plain(2)[OF ov] l] obtain cb' where
    wr: "cb_write cb ?s len = Inr (cb', to_write cb len)" and i': "cb_inv cb'"
    and f: "m_buf_size cb' = m_buf_size cb" "m_buf_len cb' = m_buf_len cb"
      "m_item_size cb' = m_item_size cb" "m_overwrite cb' = m_overwrite cb"
    and a: "unat (data_available cb') = ?k + ?t"
    and c: "cb_contents cb' = cb_contents cb @ take (?t * ?c) ?s"
    by blast
  have c': "cb_contents cb' = cb_contents cb @ concat (map enc (take ?t xs))"
    using c chunk_take[OF sz] by simp
  have sz': "\<forall>x \<in> set (take ?t xs). length (enc x) = ?c"
    using sz by (meson in_set_takeD)
  have "ring_items cb' = ring_items cb @ map enc (take ?t xs)"
  proof (rule nth_equalityI)
    show "length (ring_items cb') = length (ring_items cb @ map enc (take ?t xs))"
      using a tx by simp
  next
    fix i assume "i < length (ring_items cb')"
    then have i: "i < ?k + ?t" using a by simp
    have it: "ring_items cb' ! i = take ?c (drop (i * ?c) (cb_contents cb'))"
      using i a by (simp add: ring_items_def f)
    show "ring_items cb' ! i = (ring_items cb @ map enc (take ?t xs)) ! i"
    proof (cases "i < ?k")
      case True
      have "i * ?c + ?c \<le> ?k * ?c"
        using True by (metis Suc_leI mult_Suc mult_le_mono1 add.commute)
      then have "take ?c (drop (i * ?c) (cb_contents cb'))
          = take ?c (drop (i * ?c) (cb_contents cb))"
        unfolding c' using contents_length[OF inv] by simp
      then show ?thesis using True it by (simp add: nth_append ring_items_def)
    next
      case False
      then have j: "i - ?k < length (take ?t xs)" using i tx by simp
      have "i * ?c = ?k * ?c + (i - ?k) * ?c"
        using False by (simp add: add_mult_distrib[symmetric])
      then have "drop (i * ?c) (cb_contents cb')
          = drop ((i - ?k) * ?c) (concat (map enc (take ?t xs)))"
        unfolding c' using contents_length[OF inv] by simp
      then have "ring_items cb' ! i = enc (take ?t xs ! (i - ?k))"
        using it chunk_nth[OF sz' j] by simp
      then show ?thesis using False j by (simp add: nth_append)
    qed
  qed
  then show ?thesis using wr i' f a by blast
qed

lemma write_complex:
  assumes inv: "cb_inv cb" and ov: "m_overwrite cb = 0" and c: "m_item_size cb = 8"
    and ln: "unat len \<le> length xs"
  shows "\<exists>cb'. cb_write cb (complex_bytes A xs) len = Inr (cb', to_write cb len) \<and> cb_inv cb'
           \<and> m_buf_size cb' = m_buf_size cb \<and> m_buf_len cb' = m_buf_len cb
           \<and> m_item_size cb' = m_item_size cb \<and> m_overwrite cb' = m_overwrite cb
           \<and> unat (data_available cb') = unat (data_available cb) + unat (to_write cb len)
           \<and> ring_complex A cb' = ring_complex A cb
                @ map (stored_complex A) (take (unat (to_write cb len)) xs)"
proof -
  have sz: "\<forall>x \<in> set xs. length (le_bytes 8 (c_bits A x)) = unat (m_item_size cb)"
    using c by simp
  from write_items[OF inv ov sz ln] show ?thesis
    unfolding complex_bytes_def ring_complex_def
    by (auto simp: stored_complex_def comp_def)
qed

lemma write_floats:
  assumes inv: "cb_inv cb" and ov: "m_overwrite cb = 0" and c: "m_item_size cb = 4"
    and ln: "unat len \<le> length es"
  shows "\<exists>cb'. cb_write cb (float_bytes A es) len = Inr (cb', to_write cb len) \<and> cb_inv cb'
           \<and> m_buf_size cb' = m_buf_size cb \<and> m_buf_len cb' = m_buf_len cb
           \<and> m_item_size cb' = m_item_size cb \<and> m_overwrite cb' = m_overwrite cb
           \<and> unat (data_available cb') = unat (data_available cb) + unat (to_write cb len)
           \<and> ring_floats A cb' = ring_floats A cb
                @ map (stored_float A) (take (unat (to_write cb len)) es)"
proof -
  have sz: "\<forall>x \<in> set es. length (le_bytes 4 (f_bits A x)) = unat (m_item_size cb)"
    using c by simp
  from write_items[OF inv ov sz ln] show ?thesis
    unfolding float_bytes_def ring_floats_def
    by (auto simp: stored_float_def comp_def)
qed

lemma ring_floats_length [simp]: "length (ring_floats A cb) = unat (data_available cb)"
  by (simp add: ring_floats_def)

lemma step_state_inv:
  assumes inv: "det_inv d" and w: "length w = unat (m_w_len d)"
    and y: "cb_inv y_cb" "m_buf_size y_cb = m_buf_size (m_y_cb d)"
      "m_buf_len y_cb = m_buf_len (m_y_cb d)" "m_item_size y_cb = m_item_size (m_y_cb d)"
      "m_overwrite y_cb = m_overwrite (m_y_cb d)"
  shows "det_inv (d\<lparr>m_G := G, m_e := e, m_w_vec := w, m_y_cb := y_cb,
                    m_x_cb := fst (purge (m_x_cb d) 1)\<rparr>)"
proof -
  have x: "cb_inv (m_x_cb d)" using inv by (simp add: det_inv_def)
  show ?thesis
    using inv w y purge_inv[OF x, of 1] by (simp add: det_inv_def capacity_def)
qed

lemma step_run:
  assumes inv: "det_inv d"
    and av: "unat (m_w_len d) + unat (m_D d) \<le> unat (data_available (m_x_cb d))"
  shows "\<exists>err d'. next_norm_error A d = Inr (0, Some err, d') \<and> det_inv d'
           \<and> m_w_len d' = m_w_len d \<and> m_D d' = m_D d \<and> m_p d' = m_p d
           \<and> m_e_cb d' = m_e_cb d
           \<and> m_sample_rate d' = m_sample_rate d \<and> m_fcch_burst_len d' = m_fcch_burst_len d
           \<and> capacity (m_x_cb d') = capacity (m_x_cb d)
           \<and> unat (data_available (m_x_cb d')) = unat (data_available (m_x_cb d)) - 1
           \<and> ring_complex A (m_x_cb d') = tl (ring_complex A (m_x_cb d))
           \<and> filter_step A (m_p d) (m_w_len d) (m_D d) (m_w_vec d, m_G d, m_e d) (window A d)
                = (err, (m_w_vec d', m_G d', m_e d'))"
proof -
  from nlms_step_full[OF inv av, of A] obtain y_cb w where
    st: "next_norm_error A d =
       Inr (0,
            Some (if f_gt A (f_div A (window_energy A d) (f_of_u32 A (m_w_len d)))
                       (f_lit A (1 / 10 ^ 20))
                  then f_div A (f_add A (f_mul A (f_sub A (f_lit A 1) (m_p d)) (m_e d))
                                        (f_mul A (m_p d) (c_norm A (filter_error A d))))
                         (f_div A (window_energy A d) (f_of_u32 A (m_w_len d)))
                  else f_lit A 0),
            d\<lparr>m_G := (if f_gt A (window_energy A d) (f_lit A (1 / 10 ^ 10))
                      then f_div A (f_lit A 1) (window_energy A d) else m_G d),
              m_e := f_add A (f_mul A (f_sub A (f_lit A 1) (m_p d)) (m_e d))
                             (f_mul A (m_p d) (c_norm A (filter_error A d))),
              m_w_vec := w, m_y_cb := y_cb, m_x_cb := fst (purge (m_x_cb d) 1)\<rparr>)"
    and w: "length w = unat (m_w_len d)" "w = next_weights A d"
    and y: "cb_inv y_cb" "m_buf_size y_cb = m_buf_size (m_y_cb d)"
      "m_buf_len y_cb = m_buf_len (m_y_cb d)" "m_item_size y_cb = m_item_size (m_y_cb d)"
      "m_overwrite y_cb = m_overwrite (m_y_cb d)"
    by blast
  define G where "G = (if f_gt A (window_energy A d) (f_lit A (1 / 10 ^ 10))
                      then f_div A (f_lit A 1) (window_energy A d) else m_G d)"
  define e where "e = f_add A (f_mul A (f_sub A (f_lit A 1) (m_p d)) (m_e d))
                             (f_mul A (m_p d) (c_norm A (filter_error A d)))"
  define err where "err = (if f_gt A (f_div A (window_energy A d) (f_of_u32 A (m_w_len d)))
                       (f_lit A (1 / 10 ^ 20))
                  then f_div A e (f_div A (window_energy A d) (f_of_u32 A (m_w_len d)))
                  else f_lit A 0)"
  define d' where "d' = d\<lparr>m_G := G, m_e := e, m_w_vec := w, m_y_cb := y_cb,
             m_x_cb := fst (purge (m_x_cb d) 1)\<rparr>"
  have st': "next_norm_error A d = Inr (0, Some err, d')"
    using st by (simp add: G_def e_def err_def d'_def)
  have x: "cb_inv (m_x_cb d)" using inv by (simp add: det_inv_def)
  have pos: "0 < unat (data_available (m_x_cb d))"
    using av inv by (simp add: det_inv_def)
  have i': "det_inv d'"
    unfolding d'_def using inv w(1) y by (rule step_state_inv)
  have a': "unat (data_available (m_x_cb d')) = unat (data_available (m_x_cb d)) - 1"
    using purge_one[OF x pos] by (simp add: d'_def)
  have r': "ring_complex A (m_x_cb d') = tl (ring_complex A (m_x_cb d))"
    using purge_complex[OF x pos, of A] by (simp add: d'_def)
  have c': "capacity (m_x_cb d') = capacity (m_x_cb d)"
    using purge_inv[OF x, of 1] by (simp add: d'_def capacity_def)
  have fs: "filter_step A (m_p d) (m_w_len d) (m_D d) (m_w_vec d, m_G d, m_e d) (window A d)
      = (err, (m_w_vec d', m_G d', m_e d'))"
    by (simp add: filter_step_def Let_def err_def d'_def G_def e_def w(2) next_weights_def
          window_energy_def filter_error_def filter_output_def)
  show ?thesis
    using st' i' a' r' c' fs by (simp add: d'_def)
qed

lemma drain_run:
  assumes "det_inv d" and "length batch < E_BATCH_SIZE"
  shows "\<exists>d' batch' sm' es.
           drain A d batch sm = Some (Inr (d', batch', sm')) \<and> det_inv d'
           \<and> m_w_len d' = m_w_len d \<and> m_D d' = m_D d \<and> m_p d' = m_p d
           \<and> m_sample_rate d' = m_sample_rate d \<and> m_fcch_burst_len d' = m_fcch_burst_len d
           \<and> capacity (m_x_cb d') = capacity (m_x_cb d)
           \<and> capacity (m_e_cb d') = capacity (m_e_cb d)
           \<and> filter_run A (m_p d) (m_w_len d) (m_D d) (m_w_vec d, m_G d, m_e d)
                (ring_complex A (m_x_cb d))
               = (es, (m_w_vec d', m_G d', m_e d'), ring_complex A (m_x_cb d'))
           \<and> sm' = foldl (\<lambda>s e. d_add A s (d_of_f A e)) sm es
           \<and> length batch' < E_BATCH_SIZE
           \<and> unat (data_available (m_e_cb d')) + length batch'
                \<le> unat (data_available (m_e_cb d)) + length batch + length es
           \<and> (unat (data_available (m_e_cb d)) + length batch + length es
                  \<le> unat (capacity (m_e_cb d))
                \<longrightarrow> ring_floats A (m_e_cb d') @ map (stored_float A) batch'
                      = ring_floats A (m_e_cb d) @ map (stored_float A) (batch @ es))"
  using assms
proof (induction "unat (data_available (m_x_cb d))" arbitrary: d batch sm rule: less_induct)
  case less
  let ?L = "unat (m_w_len d)" and ?D = "unat (m_D d)"
  let ?av = "unat (data_available (m_x_cb d))"
  let ?st = "(m_w_vec d, m_G d, m_e d)"
  note inv = less.prems(1) and bl = less.prems(2)
  note w = det_window[OF inv]
  show ?case
  proof (cases "?av < ?L + ?D")
    case True
    have "?L + ?D < 2 ^ 31" using w(2) by simp
    from short_window[OF w(1) this True, of A]
    obtain r :: int where "next_norm_error A d = Inr (r, None, d)" and "r \<noteq> 0"
      using True by (metis of_nat_0_eq_iff zero_less_diff less_numeral_extra(3))
    then have "drain A d batch sm = Some (Inr (d, batch, sm))"
      by (subst drain.simps) simp
    moreover have "filter_run A (m_p d) (m_w_len d) (m_D d) ?st (ring_complex A (m_x_cb d))
        = ([], ?st, ring_complex A (m_x_cb d))"
      using True by (intro filter_run_short) simp
    ultimately show ?thesis using inv bl by simp
  next
    case False
    then have av: "?L + ?D \<le> ?av" by simp
    from step_run[OF inv av, of A] obtain err d1 where
      st: "next_norm_error A d = Inr (0, Some err, d1)" and i1: "det_inv d1"
      and f1: "m_w_len d1 = m_w_len d" "m_D d1 = m_D d" "m_p d1 = m_p d" "m_e_cb d1 = m_e_cb d"
        "m_sample_rate d1 = m_sample_rate d" "m_fcch_burst_len d1 = m_fcch_burst_len d"
        "capacity (m_x_cb d1) = capacity (m_x_cb d)"
      and a1: "unat (data_available (m_x_cb d1)) = ?av - 1"
      and r1: "ring_complex A (m_x_cb d1) = tl (ring_complex A (m_x_cb d))"
      and s1: "filter_step A (m_p d) (m_w_len d) (m_D d) ?st (window A d)
                = (err, (m_w_vec d1, m_G d1, m_e d1))"
      by blast
    have lt1: "unat (data_available (m_x_cb d1)) < ?av" using a1 av w(1) by simp
    have ne: "ring_complex A (m_x_cb d) \<noteq> []"
      using av w(1) by (metis length_0_conv ring_complex_length not_less add_gr_0 le_zero_eq
          less_numeral_extra(3))
    have run_step: "filter_run A (m_p d) (m_w_len d) (m_D d) ?st (ring_complex A (m_x_cb d))
        = (err # es, st', rest)"
      if "filter_run A (m_p d1) (m_w_len d1) (m_D d1) (m_w_vec d1, m_G d1, m_e d1)
            (ring_complex A (m_x_cb d1)) = (es, st', rest)" for es st' rest
    proof (rule filter_run_step)
      show "?L + ?D \<le> length (ring_complex A (m_x_cb d))" using av by simp
      show "ring_complex A (m_x_cb d) \<noteq> []" by (rule ne)
      show "filter_step A (m_p d) (m_w_len d) (m_D d) ?st
              (take (?L + ?D) (ring_complex A (m_x_cb d))) = (err, (m_w_vec d1, m_G d1, m_e d1))"
        using s1 by (simp add: window_def)
      show "filter_run A (m_p d) (m_w_len d) (m_D d) (m_w_vec d1, m_G d1, m_e d1)
              (tl (ring_complex A (m_x_cb d))) = (es, st', rest)"
        using that by (simp add: f1 r1)
    qed
    show ?thesis
    proof (cases "length (batch @ [err]) \<ge> E_BATCH_SIZE")
      case True
      then have lb: "length (batch @ [err]) = 512" using bl by (simp add: E_BATCH_SIZE_def)
      have u: "unat (of_nat (length (batch @ [err])) :: u32) = 512"
        unfolding lb by simp
      have e1: "cb_inv (m_e_cb d1)" "m_overwrite (m_e_cb d1) = 0" "m_item_size (m_e_cb d1) = 4"
        using i1 by (simp_all add: det_inv_def)
      have ln: "unat (of_nat (length (batch @ [err])) :: u32) \<le> length (batch @ [err])"
        using u lb by simp
      define t where "t = to_write (m_e_cb d1) (of_nat (length (batch @ [err])))"
      from write_floats[OF e1 ln, of A] obtain e_cb where
        bw: "cb_write (m_e_cb d1) (float_bytes A (batch @ [err])) (of_nat (length (batch @ [err])))
               = Inr (e_cb, t)"
        and e2: "cb_inv e_cb" "m_overwrite e_cb = 0" "m_item_size e_cb = 4"
          "m_buf_len e_cb = m_buf_len (m_e_cb d1)"
        and c2: "unat (data_available e_cb) = unat (data_available (m_e_cb d1)) + unat t"
        and rf: "ring_floats A e_cb = ring_floats A (m_e_cb d1)
                   @ map (stored_float A) (take (unat t) (batch @ [err]))"
        unfolding t_def using e1 by auto
      have tm: "unat t = min 512 (unat (space_available (m_e_cb d1)))"
        unfolding t_def using to_write_plain(1)[OF e1(2)] u by simp
      define d2 where "d2 = d1\<lparr>m_e_cb := e_cb\<rparr>"
      have i2: "det_inv d2" unfolding d2_def using i1 e2(1-3) by (rule det_inv_e_cb)
      have x2: "m_x_cb d2 = m_x_cb d1" by (simp add: d2_def)
      have lt2: "unat (data_available (m_x_cb d2)) < ?av" using lt1 x2 by simp
      have b0: "length ([] :: 'a list) < E_BATCH_SIZE" by (simp add: E_BATCH_SIZE_def)
      from less.hyps[OF lt2 i2 b0, of "d_add A sm (d_of_f A err)"]
      obtain d' batch' sm' es where
        r: "drain A d2 [] (d_add A sm (d_of_f A err)) = Some (Inr (d', batch', sm'))"
        and i': "det_inv d'"
        and f': "m_w_len d' = m_w_len d2" "m_D d' = m_D d2" "m_p d' = m_p d2"
          "m_sample_rate d' = m_sample_rate d2"
          "m_fcch_burst_len d' = m_fcch_burst_len d2" "capacity (m_x_cb d') = capacity (m_x_cb d2)"
          "capacity (m_e_cb d') = capacity (m_e_cb d2)"
        and fr: "filter_run A (m_p d2) (m_w_len d2) (m_D d2) (m_w_vec d2, m_G d2, m_e d2)
                  (ring_complex A (m_x_cb d2))
               = (es, (m_w_vec d', m_G d', m_e d'), ring_complex A (m_x_cb d'))"
        and sm': "sm' = foldl (\<lambda>s e. d_add A s (d_of_f A e)) (d_add A sm (d_of_f A err)) es"
        and bl': "length batch' < E_BATCH_SIZE"
        and c': "unat (data_available (m_e_cb d')) + length batch'
                \<le> unat (data_available (m_e_cb d2)) + length ([] :: 'a list) + length es"
        and q': "unat (data_available (m_e_cb d2)) + length ([] :: 'a list) + length es
                  \<le> unat (capacity (m_e_cb d2))
                \<longrightarrow> ring_floats A (m_e_cb d') @ map (stored_float A) batch'
                      = ring_floats A (m_e_cb d2) @ map (stored_float A) ([] @ es)"
        by blast
      have g2: "m_w_len d2 = m_w_len d1" "m_D d2 = m_D d1" "m_p d2 = m_p d1"
        "m_w_vec d2 = m_w_vec d1" "m_G d2 = m_G d1" "m_e d2 = m_e d1" "m_e_cb d2 = e_cb"
        "m_sample_rate d2 = m_sample_rate d1" "m_fcch_burst_len d2 = m_fcch_burst_len d1"
        by (simp_all add: d2_def)
      have dr: "drain A d batch sm = Some (Inr (d', batch', sm'))"
        using st True bw r by (subst drain.simps) (simp add: Let_def d2_def)
      have run: "filter_run A (m_p d) (m_w_len d) (m_D d) ?st (ring_complex A (m_x_cb d))
          = (err # es, (m_w_vec d', m_G d', m_e d'), ring_complex A (m_x_cb d'))"
        using fr by (intro run_step) (simp add: g2 x2)
      have cap: "capacity (m_e_cb d') = capacity (m_e_cb d)"
        using f'(7) e2(4) by (simp add: g2 f1 capacity_def)
      have cnt: "unat (data_available (m_e_cb d')) + length batch'
          \<le> unat (data_available (m_e_cb d)) + length batch + length (err # es)"
        using c' c2 tm lb by (simp add: g2 f1)
      have room: "ring_floats A (m_e_cb d') @ map (stored_float A) batch'
                      = ring_floats A (m_e_cb d) @ map (stored_float A) (batch @ err # es)"
        if h: "unat (data_available (m_e_cb d)) + length batch + length (err # es)
                  \<le> unat (capacity (m_e_cb d))"
      proof -
        have "unat (data_available (m_e_cb d1)) + 512 \<le> unat (capacity (m_e_cb d1))"
          using h lb by (simp add: f1)
        then have "512 \<le> unat (space_available (m_e_cb d1))"
          using counts_nat[OF e1(1)] by linarith
        then have t512: "unat t = 512" using tm by simp
        then have rf': "ring_floats A e_cb = ring_floats A (m_e_cb d)
                   @ map (stored_float A) (batch @ [err])"
          using rf lb by (simp add: f1)
        have "unat (data_available (m_e_cb d2)) + length ([] :: 'a list) + length es
                  \<le> unat (capacity (m_e_cb d2))"
          using h c2 t512 lb e2(4) by (simp add: g2 f1 capacity_def)
        with q' have "ring_floats A (m_e_cb d') @ map (stored_float A) batch'
                      = ring_floats A (m_e_cb d2) @ map (stored_float A) ([] @ es)"
          by blast
        then show ?thesis using rf' by (simp add: g2)
      qed
      have sm2: "sm' = foldl (\<lambda>s e. d_add A s (d_of_f A e)) sm (err # es)"
        using sm' by simp
      show ?thesis
        using dr i' f' f1 run cap cnt room sm2 bl' by (simp add: g2 x2)
    next
      case False
      then have bl1: "length (batch @ [err]) < E_BATCH_SIZE" by simp
      from less.hyps[OF lt1 i1 bl1, of "d_add A sm (d_of_f A err)"]
      obtain d' batch' sm' es where
        r: "drain A d1 (batch @ [err]) (d_add A sm (d_of_f A err)) = Some (Inr (d', batch', sm'))"
        and i': "det_inv d'"
        and f': "m_w_len d' = m_w_len d1" "m_D d' = m_D d1" "m_p d' = m_p d1"
          "m_sample_rate d' = m_sample_rate d1"
          "m_fcch_burst_len d' = m_fcch_burst_len d1" "capacity (m_x_cb d') = capacity (m_x_cb d1)"
          "capacity (m_e_cb d') = capacity (m_e_cb d1)"
        and fr: "filter_run A (m_p d1) (m_w_len d1) (m_D d1) (m_w_vec d1, m_G d1, m_e d1)
                  (ring_complex A (m_x_cb d1))
               = (es, (m_w_vec d', m_G d', m_e d'), ring_complex A (m_x_cb d'))"
        and sm': "sm' = foldl (\<lambda>s e. d_add A s (d_of_f A e)) (d_add A sm (d_of_f A err)) es"
        and bl': "length batch' < E_BATCH_SIZE"
        and c': "unat (data_available (m_e_cb d')) + length batch'
                \<le> unat (data_available (m_e_cb d1)) + length (batch @ [err]) + length es"
        and q': "unat (data_available (m_e_cb d1)) + length (batch @ [err]) + length es
                  \<le> unat (capacity (m_e_cb d1))
                \<longrightarrow> ring_floats A (m_e_cb d') @ map (stored_float A) batch'
                      = ring_floats A (m_e_cb d1) @ map (stored_float A) ((batch @ [err]) @ es)"
        by blast
      have dr: "drain A d batch sm = Some (Inr (d', batch', sm'))"
        using st False r by (subst drain.simps) (simp add: Let_def)
      have run: "filter_run A (m_p d) (m_w_len d) (m_D d) ?st (ring_complex A (m_x_cb d))
          = (err # es, (m_w_vec d', m_G d', m_e d'), ring_complex A (m_x_cb d'))"
        using fr by (rule run_step)
      have cnt: "unat (data_available (m_e_cb d')) + length batch'
          \<le> unat (data_available (m_e_cb d)) + length batch + length (err # es)"
        using c' by (simp add: f1)
      have room: "unat (data_available (m_e_cb d)) + length batch + length (err # es)
                  \<le> unat (capacity (m_e_cb d))
           \<longrightarrow> ring_floats A (m_e_cb d') @ map (stored_float A) batch'
                      = ring_floats A (m_e_cb d) @ map (stored_float A) (batch @ err # es)"
        using q' by (simp add: f1)
      have sm2: "sm' = foldl (\<lambda>s e. d_add A s (d_of_f A e)) sm (err # es)"
        using sm' by simp
      show ?thesis
        using dr i' f' f1 run cnt room sm2 bl' by simp
    qed
  qed
qed

lemma scan_fill_run:
  assumes "det_inv d"
    and "unat (data_available (m_x_cb d)) < unat (m_w_len d) + unat (m_D d)"
    and "length s = unat s_len" and "len \<le> s_len"
    and "length batch < E_BATCH_SIZE"
  shows "\<exists>d' batch' sm' es.
           scan_fill A s s_len d batch sm len = Some (Inr (d', batch', sm', s_len))
           \<and> det_inv d'
           \<and> unat (data_available (m_x_cb d')) < unat (m_w_len d') + unat (m_D d')
           \<and> m_sample_rate d' = m_sample_rate d \<and> m_fcch_burst_len d' = m_fcch_burst_len d
           \<and> m_w_len d' = m_w_len d \<and> m_D d' = m_D d \<and> m_p d' = m_p d
           \<and> capacity (m_e_cb d') = capacity (m_e_cb d)
           \<and> filter_run A (m_p d) (m_w_len d) (m_D d) (m_w_vec d, m_G d, m_e d)
                (ring_complex A (m_x_cb d) @ map (stored_complex A) (drop (unat len) s))
               = (es, (m_w_vec d', m_G d', m_e d'), ring_complex A (m_x_cb d'))
           \<and> sm' = foldl (\<lambda>s e. d_add A s (d_of_f A e)) sm es
           \<and> length batch' < E_BATCH_SIZE
           \<and> unat (data_available (m_e_cb d')) + length batch'
                \<le> unat (data_available (m_e_cb d)) + length batch + length es
           \<and> (unat (data_available (m_e_cb d)) + length batch + length es
                  \<le> unat (capacity (m_e_cb d))
                \<longrightarrow> ring_floats A (m_e_cb d') @ map (stored_float A) batch'
                      = ring_floats A (m_e_cb d) @ map (stored_float A) (batch @ es))"
  using assms
proof (induction "unat s_len - unat len" arbitrary: d batch sm len rule: less_induct)
  case less
  let ?L = "unat (m_w_len d)" and ?D = "unat (m_D d)"
  let ?x = "m_x_cb d"
  let ?st = "(m_w_vec d, m_G d, m_e d)"
  note inv = less.prems(1) and short = less.prems(2) and ls = less.prems(3)
    and le = less.prems(4) and bl = less.prems(5)
  show ?case
  proof (cases "len < s_len")
    case False
    then have eq: "len = s_len" using le by simp
    have "filter_run A (m_p d) (m_w_len d) (m_D d) ?st (ring_complex A ?x)
        = ([], ?st, ring_complex A ?x)"
      using short by (intro filter_run_short) simp
    moreover have "scan_fill A s s_len d batch sm len = Some (Inr (d, batch, sm, s_len))"
      using eq by (subst scan_fill.simps) simp
    ultimately show ?thesis
      using inv short bl ls eq by simp
  next
    case True
    have x: "cb_inv ?x" "m_overwrite ?x = 0" "m_item_size ?x = 8"
      and cap: "?L + ?D \<le> unat (capacity ?x)"
      using inv by (simp_all add: det_inv_def)
    have rest: "unat (s_len - len) = unat s_len - unat len"
      using le by (simp add: unat_sub)
    have pos: "0 < unat (s_len - len)"
      using True rest by (simp add: word_less_nat_alt)
    have ln: "unat (s_len - len) \<le> length (drop (unat len) s)"
      using rest ls by simp
    define t where "t = to_write ?x (s_len - len)"
    from write_complex[OF x ln, of A] obtain x_cb where
      wr: "cb_write ?x (complex_bytes A (drop (unat len) s)) (s_len - len) = Inr (x_cb, t)"
      and x1: "cb_inv x_cb" "m_buf_len x_cb = m_buf_len ?x" "m_item_size x_cb = m_item_size ?x"
        "m_overwrite x_cb = m_overwrite ?x"
      and a1: "unat (data_available x_cb) = unat (data_available ?x) + unat t"
      and rc1: "ring_complex A x_cb = ring_complex A ?x
                  @ map (stored_complex A) (take (unat t) (drop (unat len) s))"
      unfolding t_def by blast
    have tmin: "unat t = min (unat (s_len - len)) (unat (space_available ?x))"
      unfolding t_def using x(2) by (rule to_write_plain(1))
    have "0 < unat (space_available ?x)"
      using counts_nat[OF x(1)] cap short by linarith
    then have tpos: "0 < unat t" using tmin pos by simp
    have tle: "unat t \<le> unat s_len - unat len" using tmin rest by simp
    have "unat s_len < 2 ^ 32" using unsigned_less[of s_len] by simp
    moreover have "unat len \<le> unat s_len" using le by (simp add: word_le_nat_alt)
    ultimately have "unat len + unat t < 2 ^ 32"
      using tle by linarith
    then have len': "unat (len + t) = unat len + unat t"
      by (simp add: unat_add_lem[THEN iffD1])
    have le': "len + t \<le> s_len"
      using len' tle le by (simp add: word_le_nat_alt)
    define d1 where "d1 = d\<lparr>m_x_cb := x_cb\<rparr>"
    have i1: "det_inv d1"
      unfolding d1_def using inv x1 x by (intro det_inv_x_cb) simp_all
    have g: "m_w_len d1 = m_w_len d" "m_D d1 = m_D d" "m_p d1 = m_p d" "m_x_cb d1 = x_cb"
      "m_e_cb d1 = m_e_cb d" "m_w_vec d1 = m_w_vec d" "m_G d1 = m_G d" "m_e d1 = m_e d"
      "m_sample_rate d1 = m_sample_rate d" "m_fcch_burst_len d1 = m_fcch_burst_len d"
      by (simp_all add: d1_def)
    from drain_run[OF i1 bl, of A sm] obtain d2 batch2 sm2 es1 where
      dr: "drain A d1 batch sm = Some (Inr (d2, batch2, sm2))" and i2: "det_inv d2"
      and f2: "m_w_len d2 = m_w_len d1" "m_D d2 = m_D d1" "m_p d2 = m_p d1"
        "m_sample_rate d2 = m_sample_rate d1" "m_fcch_burst_len d2 = m_fcch_burst_len d1"
        "capacity (m_e_cb d2) = capacity (m_e_cb d1)"
      and fr1: "filter_run A (m_p d1) (m_w_len d1) (m_D d1) (m_w_vec d1, m_G d1, m_e d1)
                  (ring_complex A (m_x_cb d1))
               = (es1, (m_w_vec d2, m_G d2, m_e d2), ring_complex A (m_x_cb d2))"
      and sm2: "sm2 = foldl (\<lambda>s e. d_add A s (d_of_f A e)) sm es1"
      and bl2: "length batch2 < E_BATCH_SIZE"
      and c2: "unat (data_available (m_e_cb d2)) + length batch2
                \<le> unat (data_available (m_e_cb d1)) + length batch + length es1"
      and q2: "unat (data_available (m_e_cb d1)) + length batch + length es1
                  \<le> unat (capacity (m_e_cb d1))
                \<longrightarrow> ring_floats A (m_e_cb d2) @ map (stored_float A) batch2
                      = ring_floats A (m_e_cb d1) @ map (stored_float A) (batch @ es1)"
      by blast
    have w0: "0 < ?L" using inv by (simp add: det_inv_def)
    from filter_run_rest[OF fr1]
    have "length (ring_complex A (m_x_cb d2))
        = length (ring_complex A (m_x_cb d1)) - length es1"
      and "length es1 = length (ring_complex A (m_x_cb d1))
             - min (length (ring_complex A (m_x_cb d1))) (unat (m_w_len d1) + unat (m_D d1) - 1)"
      by simp_all
    then have short2: "unat (data_available (m_x_cb d2)) < unat (m_w_len d2) + unat (m_D d2)"
      using w0 by (simp add: f2 g min_def split: if_splits)
    have m: "unat s_len - unat (len + t) < unat s_len - unat len"
      using len' tpos tle True by (simp add: word_less_nat_alt)
    from less.hyps[OF m i2 short2 ls le' bl2, of sm2] obtain d' batch' sm' es2 where
      r: "scan_fill A s s_len d2 batch2 sm2 (len + t) = Some (Inr (d', batch', sm', s_len))"
      and post: "det_inv d'"
        "unat (data_available (m_x_cb d')) < unat (m_w_len d') + unat (m_D d')"
        "m_sample_rate d' = m_sample_rate d2" "m_fcch_burst_len d' = m_fcch_burst_len d2"
        "m_w_len d' = m_w_len d2" "m_D d' = m_D d2" "m_p d' = m_p d2"
        "capacity (m_e_cb d') = capacity (m_e_cb d2)"
      and fr2: "filter_run A (m_p d2) (m_w_len d2) (m_D d2) (m_w_vec d2, m_G d2, m_e d2)
                (ring_complex A (m_x_cb d2) @ map (stored_complex A) (drop (unat (len + t)) s))
               = (es2, (m_w_vec d', m_G d', m_e d'), ring_complex A (m_x_cb d'))"
      and sm': "sm' = foldl (\<lambda>s e. d_add A s (d_of_f A e)) sm2 es2"
      and bl': "length batch' < E_BATCH_SIZE"
      and c': "unat (data_available (m_e_cb d')) + length batch'
                \<le> unat (data_available (m_e_cb d2)) + length batch2 + length es2"
      and q': "unat (data_available (m_e_cb d2)) + length batch2 + length es2
                  \<le> unat (capacity (m_e_cb d2))
                \<longrightarrow> ring_floats A (m_e_cb d') @ map (stored_float A) batch'
                      = ring_floats A (m_e_cb d2) @ map (stored_float A) (batch2 @ es2)"
      by blast
    have fill: "scan_fill A s s_len d batch sm len = Some (Inr (d', batch', sm', s_len))"
      using True wr dr r by (subst scan_fill.simps) (simp add: d1_def)
    have split: "ring_complex A x_cb @ map (stored_complex A) (drop (unat (len + t)) s)
        = ring_complex A ?x @ map (stored_complex A) (drop (unat len) s)"
    proof -
      have "take (unat t) (drop (unat len) s) @ drop (unat (len + t)) s = drop (unat len) s"
        unfolding len' by (metis append_take_drop_id drop_drop add.commute)
      then have "map (stored_complex A) (take (unat t) (drop (unat len) s))
          @ map (stored_complex A) (drop (unat (len + t)) s)
          = map (stored_complex A) (drop (unat len) s)"
        by (metis map_append)
      then show ?thesis unfolding rc1 by simp
    qed
    have "filter_run A (m_p d) (m_w_len d) (m_D d) ?st
            (ring_complex A x_cb @ map (stored_complex A) (drop (unat (len + t)) s))
        = (es1 @ es2, (m_w_vec d', m_G d', m_e d'), ring_complex A (m_x_cb d'))"
    proof (rule filter_run_append)
      show "filter_run A (m_p d) (m_w_len d) (m_D d) ?st (ring_complex A x_cb)
          = (es1, (m_w_vec d2, m_G d2, m_e d2), ring_complex A (m_x_cb d2))"
        using fr1 by (simp add: g)
      show "filter_run A (m_p d) (m_w_len d) (m_D d) (m_w_vec d2, m_G d2, m_e d2)
              (ring_complex A (m_x_cb d2) @ map (stored_complex A) (drop (unat (len + t)) s))
          = (es2, (m_w_vec d', m_G d', m_e d'), ring_complex A (m_x_cb d'))"
        using fr2 by (simp add: f2 g)
    qed
    then have run: "filter_run A (m_p d) (m_w_len d) (m_D d) ?st
            (ring_complex A ?x @ map (stored_complex A) (drop (unat len) s))
        = (es1 @ es2, (m_w_vec d', m_G d', m_e d'), ring_complex A (m_x_cb d'))"
      unfolding split .
    have sm3: "sm' = foldl (\<lambda>s e. d_add A s (d_of_f A e)) sm (es1 @ es2)"
      using sm' sm2 by simp
    have cnt: "unat (data_available (m_e_cb d')) + length batch'
        \<le> unat (data_available (m_e_cb d)) + length batch + length (es1 @ es2)"
      using c' c2 by (simp add: g)
    have room: "ring_floats A (m_e_cb d') @ map (stored_float A) batch'
                      = ring_floats A (m_e_cb d) @ map (stored_float A) (batch @ es1 @ es2)"
      if h: "unat (data_available (m_e_cb d)) + length batch + length (es1 @ es2)
                  \<le> unat (capacity (m_e_cb d))"
    proof -
      have "unat (data_available (m_e_cb d1)) + length batch + length es1
                  \<le> unat (capacity (m_e_cb d1))"
        using h by (simp add: g)
      with q2 have e1: "ring_floats A (m_e_cb d2) @ map (stored_float A) batch2
                      = ring_floats A (m_e_cb d) @ map (stored_float A) (batch @ es1)"
        by (simp add: g)
      have "unat (data_available (m_e_cb d2)) + length batch2 + length es2
                  \<le> unat (capacity (m_e_cb d2))"
        using h c2 by (simp add: g f2)
      with q' have "ring_floats A (m_e_cb d') @ map (stored_float A) batch'
                      = ring_floats A (m_e_cb d2) @ map (stored_float A) (batch2 @ es2)"
        by blast
      also have "\<dots> = (ring_floats A (m_e_cb d2) @ map (stored_float A) batch2)
                         @ map (stored_float A) es2"
        by simp
      also have "\<dots> = ring_floats A (m_e_cb d) @ map (stored_float A) (batch @ es1 @ es2)"
        unfolding e1 by simp
      finally show ?thesis .
    qed
    have fin: "capacity (m_e_cb d') = capacity (m_e_cb d)"
      using post(8) f2(6) by (simp add: g)
    show ?thesis
      using fill post(1-7) run sm3 bl' cnt room fin f2 g by auto
  qed
qed

subsection \<open>The search loop and the result of a scan\<close>

lemma low_to_high_parts:
  "snd (low_to_high A e a d)
     = d\<lparr>m_lth_state := m_lth_state (snd (low_to_high A e a d)),
         m_lth_count := m_lth_count (snd (low_to_high A e a d))\<rparr>"
  "unat (fst (low_to_high A e a d)) \<le> unat (m_lth_count d)"
  "unat (m_lth_count (snd (low_to_high A e a d))) \<le> unat (m_lth_count d) + 1"
proof -
  have "unat (m_lth_count d + 1) \<le> unat (m_lth_count d) + 1"
    by (simp add: unat_word_ariths(1))
  then show "unat (m_lth_count (snd (low_to_high A e a d))) \<le> unat (m_lth_count d) + 1"
    by (simp add: low_to_high_def)
qed (simp_all add: low_to_high_def)

lemma low_to_high_frame:
  "\<exists>l st c. low_to_high A e a d = (l, d\<lparr>m_lth_state := st, m_lth_count := c\<rparr>)
      \<and> unat l \<le> unat (m_lth_count d) \<and> unat c \<le> unat (m_lth_count d) + 1"
proof -
  obtain l d1 where r: "low_to_high A e a d = (l, d1)" by (cases "low_to_high A e a d")
  from low_to_high_parts[of A e a d]
  have "d1 = d\<lparr>m_lth_state := m_lth_state d1, m_lth_count := m_lth_count d1\<rparr>"
    "unat l \<le> unat (m_lth_count d)" "unat (m_lth_count d1) \<le> unat (m_lth_count d) + 1"
    by (simp_all only: r fst_conv snd_conv)
  then show ?thesis using r by metis
qed

lemma scan_search_total:
  assumes "unat (m_lth_count d) \<le> i" "n \<le> length s" "n < 2 ^ 32"
  shows "\<exists>st c pm' loff'.
           scan_search A s a limit mfl [i..<n] (d, pm, loff)
             = Inr (d\<lparr>m_lth_state := st, m_lth_count := c\<rparr>, pm', loff')"
  using assms(1)
proof (induction "n - i" arbitrary: i d pm loff)
  case 0
  then have "[i..<n] = []" by simp
  moreover have "d = d\<lparr>m_lth_state := m_lth_state d, m_lth_count := m_lth_count d\<rparr>" by simp
  ultimately show ?case by (metis scan_search.simps(1))
next
  case (Suc k)
  then have i: "i < n" by simp
  then have up: "[i..<n] = i # [Suc i..<n]" by (rule upt_conv_Cons)
  from low_to_high_frame[of A "a ! i" limit d] obtain l st c where
    lh: "low_to_high A (a ! i) limit d = (l, d\<lparr>m_lth_state := st, m_lth_count := c\<rparr>)"
    and l: "unat l \<le> unat (m_lth_count d)" and c: "unat c \<le> unat (m_lth_count d) + 1"
    by blast
  define d1 where "d1 = d\<lparr>m_lth_state := st, m_lth_count := c\<rparr>"
  have c1: "unat (m_lth_count d1) \<le> Suc i" using c Suc.prems by (simp add: d1_def)
  have k: "k = n - Suc i" using Suc.hyps(2) by simp
  have rec: "\<exists>st' c' pm' loff'.
           scan_search A s a limit mfl [Suc i..<n] (d1, p, q)
             = Inr (d\<lparr>m_lth_state := st', m_lth_count := c'\<rparr>, pm', loff')" for p q
    using Suc.hyps(1)[OF k c1, of p q] by (simp add: d1_def)
  show ?case
  proof (cases "l \<ge> mfl")
    case False
    then show ?thesis
      using rec[of "f_lit A 0" loff] lh up by (simp add: d1_def)
  next
    case True
    define y_len where "y_len = (if l < m_fcch_burst_len d1 then l else m_fcch_burst_len d1)"
    define len where "len = (if y_len < FFT_SIZE then y_len else FFT_SIZE)"
    have "unat len \<le> unat l"
      by (simp add: len_def y_len_def word_le_nat_alt word_less_nat_alt)
    moreover have ii: "unat (of_nat i :: u32) = i"
      using i assms(3) by (simp add: unat_of_nat)
    moreover have "unat ((of_nat i :: u32) - l) = i - unat l"
    proof -
      have "l \<le> of_nat i" using l Suc.prems ii by (simp add: word_le_nat_alt)
      then show ?thesis using ii by (simp add: unat_sub)
    qed
    ultimately have "unat ((of_nat i :: u32) - l) + unat len \<le> length s"
      using l Suc.prems i assms(2) by linarith
    then obtain loff' pm' where
      fd: "freq_detect A d1 s (unat ((of_nat i :: u32) - l)) y_len = Inr (loff', pm')"
      by (cases "tone_estimate A (m_sample_rate d1)
                   (take (unat len) (drop (unat ((of_nat i :: u32) - l)) s))")
         (simp add: freq_detect_def len_def[symmetric] Let_def)
    show ?thesis
    proof (cases "f_gt A pm' (f_of_u32 A 50)")
      case True
      then show ?thesis
        using lh up \<open>l \<ge> mfl\<close> fd
        by (simp add: d1_def[symmetric] y_len_def[symmetric] Let_def) (auto simp: d1_def)
    next
      case False
      then show ?thesis
        using rec[of pm' loff'] lh up \<open>l \<ge> mfl\<close> fd
        by (simp add: d1_def[symmetric] y_len_def[symmetric] Let_def)
    qed
  qed
qed

lemma flush_empty [simp]: "data_available (flush cb) = 0"
  by (simp add: flush_def data_available_def)

lemma det_inv_lth [simp]:
  "det_inv (d\<lparr>m_lth_state := st, m_lth_count := c\<rparr>) = det_inv d"
  by (simp add: det_inv_def)

lemma det_inv_flush:
  assumes "det_inv d"
  shows "det_inv (d\<lparr>m_e_cb := flush (m_e_cb d), m_x_cb := flush (m_x_cb d),
                    m_y_cb := flush (m_y_cb d)\<rparr>)"
  using assms by (simp add: det_inv_def flush_inv cb_inv_loose capacity_def)

lemma final_write:
  assumes e: "cb_inv cb" "m_overwrite cb = 0" "m_item_size cb = 4"
  shows "\<exists>e_cb t. (if length batch > 0
                    then cb_write cb (float_bytes A batch) (of_nat (length batch))
                    else Inr (cb, 0)) = Inr (e_cb, t)
           \<and> cb_inv e_cb \<and> m_overwrite e_cb = 0 \<and> m_item_size e_cb = 4
           \<and> unat (data_available e_cb) \<le> unat (data_available cb) + length batch"
proof (cases "length batch > 0")
  case True
  then show ?thesis using batch_write[OF e, of A batch] by simp
next
  case False
  then show ?thesis using e by simp
qed

lemma scan_after_fill:
  assumes fill: "scan_fill A s s_len d [] (d_lit A 0) 0 = Some (Inr (d1, batch, sm, s_len))"
    and i1: "det_inv d1"
    and s1: "unat (data_available (m_x_cb d1)) < unat (m_w_len d1) + unat (m_D d1)"
    and c1: "unat (data_available (m_e_cb d1)) + length batch \<le> unat s_len"
    and ls: "length s = unat s_len"
  shows "\<exists>res. scan A d s s_len = Some (Inr res) \<and> consumed_out res = s_len
           \<and> (found_flag res = 0 \<and> offset_out res = None \<or>
               found_flag res = 1 \<and> offset_out res \<noteq> None)
           \<and> scan_ready (detector res)
           \<and> m_w_vec (detector res) = m_w_vec d1 \<and> m_G (detector res) = m_G d1
           \<and> m_e (detector res) = m_e d1"
proof -
  have e1: "cb_inv (m_e_cb d1)" "m_overwrite (m_e_cb d1) = 0" "m_item_size (m_e_cb d1) = 4"
    using i1 by (simp_all add: det_inv_def)
  from final_write[OF e1, of batch A] obtain e_cb t where
    fw: "(if length batch > 0
          then cb_write (m_e_cb d1) (float_bytes A batch) (of_nat (length batch))
          else Inr (m_e_cb d1, 0)) = Inr (e_cb, t)"
    and e2: "cb_inv e_cb" "m_overwrite e_cb = 0" "m_item_size e_cb = 4"
    and c2: "unat (data_available e_cb) \<le> unat (data_available (m_e_cb d1)) + length batch"
    by blast
  define d2 where "d2 = d1\<lparr>m_e_cb := e_cb\<rparr>"
  define e_count where "e_count = data_available e_cb"
  have i2: "det_inv d2" unfolding d2_def using i1 e2 by (rule det_inv_e_cb)
  have s2: "unat (data_available (m_x_cb d2)) < unat (m_w_len d2) + unat (m_D d2)"
    using s1 by (simp add: d2_def)
  have n: "unat e_count \<le> length s" using c1 c2 ls by (simp add: e_count_def)
  show ?thesis
  proof (cases "e_count = 0")
    case True
    have "scan A d s s_len = Some (Inr \<lparr>found_flag = 0, offset_out = None,
            consumed_out = s_len, detector = d2\<rparr>)"
      unfolding scan_def Let_def using fill fw True
      by (simp add: peek_count e_count_def d2_def)
    moreover have "scan_ready d2"
      using i2 s2 True by (simp add: scan_ready_def e_count_def d2_def)
    ultimately show ?thesis by (simp add: d2_def)
  next
    case False
    have pk: "all_right (map (peek_item e_cb) [0..<unat e_count])
        = Inr (map (\<lambda>i. ring_items e_cb ! i) [0..<unat e_count])"
      by (intro all_right_map) (simp add: peek_item_live[OF e2(1)] e_count_def)
    define a where "a = map ((\<lambda>bs. f_of_bits A (le_word bs)) \<circ> (!) (ring_items e_cb))
                          [0..<unat e_count]"
    define limit where "limit = f_of_d A (d_mul A (d_lit A (7 / 10))
                                  (d_div A sm (d_of_u32 A e_count)))"
    define mfl where "mfl = f_to_u32 A (f_mul A (f_lit A 100)
                              (f_div A (m_sample_rate d) (f_of_d A (d_lit A GSM_RATE))))"
    have "unat (m_lth_count (low_to_high_init d2)) \<le> 0"
      by (simp add: low_to_high_init_def)
    moreover have "unat e_count < 2 ^ 32" using unsigned_less[of e_count] by simp
    ultimately obtain st c pm loff where
      ss: "scan_search A s a limit mfl [0..<unat e_count]
             (low_to_high_init d2, f_lit A 0, f_lit A 0)
           = Inr ((low_to_high_init d2)\<lparr>m_lth_state := st, m_lth_count := c\<rparr>, pm, loff)"
      using scan_search_total[OF _ n, of "low_to_high_init d2" 0 A a limit mfl
              "f_lit A 0" "f_lit A 0"]
      by blast
    define d3 where "d3 = (low_to_high_init d2)\<lparr>m_lth_state := st, m_lth_count := c\<rparr>"
    define d4 where "d4 = d3\<lparr>m_e_cb := flush (m_e_cb d3), m_x_cb := flush (m_x_cb d3),
                               m_y_cb := flush (m_y_cb d3)\<rparr>"
    have "det_inv d3" using i2 by (simp add: d3_def low_to_high_init_def)
    then have i4: "det_inv d4" unfolding d4_def by (rule det_inv_flush)
    have "0 < unat (m_w_len d4)" using i4 by (simp add: det_inv_def)
    then have r4: "scan_ready d4"
      using i4 by (simp add: scan_ready_def) (simp add: d4_def)
    have "scan A d s s_len =
      (if f_le A pm (f_of_u32 A 50)
       then Some (Inr \<lparr>found_flag = 0, offset_out = None, consumed_out = s_len, detector = d4\<rparr>)
       else Some (Inr \<lparr>found_flag = 1, offset_out = Some loff, consumed_out = s_len,
                        detector = d4\<rparr>))"
      unfolding scan_def Let_def using fill fw False pk ss
      by (simp add: peek_count e_count_def[symmetric] d2_def[symmetric] a_def[symmetric]
            limit_def[symmetric] mfl_def[symmetric] d3_def[symmetric] d4_def[symmetric])
    moreover have "m_w_vec d4 = m_w_vec d1" "m_G d4 = m_G d1" "m_e d4 = m_e d1"
      by (simp_all add: d4_def d3_def d2_def low_to_high_init_def)
    ultimately show ?thesis using r4 by (cases "f_le A pm (f_of_u32 A 50)") simp_all
  qed
qed

lemma final_errors:
  assumes e: "cb_inv cb" "m_overwrite cb = 0" "m_item_size cb = 4"
    and bl: "length batch < E_BATCH_SIZE"
    and room: "unat (data_available cb) + length batch \<le> unat (capacity cb)"
  shows "\<exists>e_cb t. (if length batch > 0
                    then cb_write cb (float_bytes A batch) (of_nat (length batch))
                    else Inr (cb, 0)) = Inr (e_cb, t)
           \<and> cb_inv e_cb \<and> m_overwrite e_cb = 0 \<and> m_item_size e_cb = 4
           \<and> ring_floats A e_cb = ring_floats A cb @ map (stored_float A) batch"
proof (cases "length batch > 0")
  case False
  then show ?thesis using e by simp
next
  case True
  let ?len = "of_nat (length batch) :: u32"
  have u: "unat ?len = length batch"
    using bl by (simp add: unat_of_nat E_BATCH_SIZE_def)
  then have ln: "unat ?len \<le> length batch" by simp
  from write_floats[OF e ln, of A] obtain e_cb where
    wr: "cb_write cb (float_bytes A batch) ?len = Inr (e_cb, to_write cb ?len)"
    and e2: "cb_inv e_cb" "m_overwrite e_cb = m_overwrite cb" "m_item_size e_cb = m_item_size cb"
    and rf: "ring_floats A e_cb = ring_floats A cb
               @ map (stored_float A) (take (unat (to_write cb ?len)) batch)"
    by blast
  have "length batch \<le> unat (space_available cb)"
    using counts_nat[OF e(1)] room by linarith
  then have "unat (to_write cb ?len) = length batch"
    using to_write_plain(1)[OF e(2), of ?len] u by simp
  then have "ring_floats A e_cb = ring_floats A cb @ map (stored_float A) batch"
    using rf by simp
  then show ?thesis using True wr e2 e by simp
qed

lemma scan_by_search:
  assumes rdy: "scan_ready d" and ls: "length s = unat s_len"
    and run: "filter_run A (m_p d) (m_w_len d) (m_D d) (m_w_vec d, m_G d, m_e d)
                (ring_complex A (m_x_cb d) @ map (stored_complex A) s) = (es, st, rest)"
    and room: "length es \<le> unat (capacity (m_e_cb d))" and ne: "es \<noteq> []"
  shows "\<exists>d2 d3 pm loff res.
           m_lth_state d2 = HIGH \<and> m_lth_count d2 = 0
           \<and> m_fcch_burst_len d2 = m_fcch_burst_len d \<and> m_sample_rate d2 = m_sample_rate d
           \<and> scan_search A s (map (stored_float A) es)
                (f_of_d A (d_mul A (d_lit A (7 / 10))
                   (d_div A (foldl (\<lambda>s e. d_add A s (d_of_f A e)) (d_lit A 0) es)
                      (d_of_u32 A (of_nat (length es))))))
                (f_to_u32 A (f_mul A (f_lit A 100)
                   (f_div A (m_sample_rate d) (f_of_d A (d_lit A GSM_RATE)))))
                [0..<length es] (d2, f_lit A 0, f_lit A 0) = Inr (d3, pm, loff)
           \<and> scan A d s s_len = Some (Inr res) \<and> consumed_out res = s_len
           \<and> found_flag res = (if f_le A pm (f_of_u32 A 50) then 0 else 1)
           \<and> offset_out res = (if f_le A pm (f_of_u32 A 50) then None else Some loff)"
proof -
  have inv: "det_inv d"
    and short: "unat (data_available (m_x_cb d)) < unat (m_w_len d) + unat (m_D d)"
    and e0: "data_available (m_e_cb d) = 0"
    using rdy by (simp_all add: scan_ready_def)
  have b0: "length ([] :: 'a list) < E_BATCH_SIZE" by (simp add: E_BATCH_SIZE_def)
  have z: "(0 :: u32) \<le> s_len" by simp
  from scan_fill_run[OF inv short ls z b0, of A "d_lit A 0"]
  obtain d1 batch sm es' where
    fill: "scan_fill A s s_len d [] (d_lit A 0) 0 = Some (Inr (d1, batch, sm, s_len))"
    and i1: "det_inv d1"
    and f1: "m_sample_rate d1 = m_sample_rate d" "m_fcch_burst_len d1 = m_fcch_burst_len d"
      "capacity (m_e_cb d1) = capacity (m_e_cb d)"
    and run': "filter_run A (m_p d) (m_w_len d) (m_D d) (m_w_vec d, m_G d, m_e d)
                (ring_complex A (m_x_cb d) @ map (stored_complex A) s)
               = (es', (m_w_vec d1, m_G d1, m_e d1), ring_complex A (m_x_cb d1))"
    and sm': "sm = foldl (\<lambda>s e. d_add A s (d_of_f A e)) (d_lit A 0) es'"
    and bl: "length batch < E_BATCH_SIZE"
    and cnt': "unat (data_available (m_e_cb d1)) + length batch
                \<le> unat (data_available (m_e_cb d)) + length ([] :: 'a list) + length es'"
    and room': "unat (data_available (m_e_cb d)) + length ([] :: 'a list) + length es'
                  \<le> unat (capacity (m_e_cb d))
                \<longrightarrow> ring_floats A (m_e_cb d1) @ map (stored_float A) batch
                      = ring_floats A (m_e_cb d) @ map (stored_float A) ([] @ es')"
    by auto
  have es: "es' = es" using run run' by simp
  have rf0: "ring_floats A (m_e_cb d) = []"
    using e0 by (metis length_0_conv ring_floats_length unat_0)
  have sm: "sm = foldl (\<lambda>s e. d_add A s (d_of_f A e)) (d_lit A 0) es"
    using sm' es by simp
  have cnt: "unat (data_available (m_e_cb d1)) + length batch \<le> length es"
    using cnt' e0 es by simp
  have held: "ring_floats A (m_e_cb d1) @ map (stored_float A) batch = map (stored_float A) es"
    using room' room e0 rf0 es by simp
  from filter_run_rest[OF run]
  have "length es = unat (data_available (m_x_cb d)) + unat s_len
      - min (unat (data_available (m_x_cb d)) + unat s_len)
            (unat (m_w_len d) + unat (m_D d) - 1)"
    using ls by simp
  then have les: "length es \<le> unat s_len" using short by (simp add: min_def split: if_splits)
  have e1: "cb_inv (m_e_cb d1)" "m_overwrite (m_e_cb d1) = 0" "m_item_size (m_e_cb d1) = 4"
    using i1 by (simp_all add: det_inv_def)
  have rm: "unat (data_available (m_e_cb d1)) + length batch \<le> unat (capacity (m_e_cb d1))"
    using cnt room f1(3) by simp
  from final_errors[OF e1 bl rm, of A] obtain e_cb t where
    fw: "(if length batch > 0
          then cb_write (m_e_cb d1) (float_bytes A batch) (of_nat (length batch))
          else Inr (m_e_cb d1, 0)) = Inr (e_cb, t)"
    and e2: "cb_inv e_cb"
    and rf: "ring_floats A e_cb = ring_floats A (m_e_cb d1) @ map (stored_float A) batch"
    by blast
  have all: "ring_floats A e_cb = map (stored_float A) es" using rf held by simp
  define e_count where "e_count = data_available e_cb"
  have "length (ring_floats A e_cb) = length es" using all by simp
  then have ec: "unat e_count = length es" by (simp add: e_count_def)
  then have ecw: "e_count = of_nat (length es)" by (metis of_nat_unat ucast_id)
  have nz: "e_count \<noteq> 0" using ec ne by (metis length_0_conv unat_0)
  define d2 where "d2 = low_to_high_init (d1\<lparr>m_e_cb := e_cb\<rparr>)"
  have pk: "all_right (map (peek_item e_cb) [0..<unat e_count])
        = Inr (map (\<lambda>i. ring_items e_cb ! i) [0..<unat e_count])"
    by (intro all_right_map) (simp add: peek_item_live[OF e2] e_count_def)
  have "map ((\<lambda>bs. f_of_bits A (le_word bs)) \<circ> (!) (ring_items e_cb)) [0..<unat e_count]
      = map (\<lambda>bs. f_of_bits A (le_word bs)) (ring_items e_cb)"
    using map_nth[of "ring_items e_cb"] e_count_def
    by (metis (no_types) map_map ring_items_length)
  then have a: "map ((\<lambda>bs. f_of_bits A (le_word bs)) \<circ> (!) (ring_items e_cb))
                  [0..<unat e_count] = map (stored_float A) es"
    using all by (simp add: ring_floats_def)
  define limit where "limit = f_of_d A (d_mul A (d_lit A (7 / 10))
                                  (d_div A sm (d_of_u32 A e_count)))"
  define mfl where "mfl = f_to_u32 A (f_mul A (f_lit A 100)
                              (f_div A (m_sample_rate d) (f_of_d A (d_lit A GSM_RATE))))"
  have n: "unat e_count \<le> length s" using ec les ls by simp
  have "unat (m_lth_count d2) \<le> 0" by (simp add: d2_def low_to_high_init_def)
  moreover have "unat e_count < 2 ^ 32" using unsigned_less[of e_count] by simp
  ultimately obtain d3 pm loff where
    ss: "scan_search A s (map (stored_float A) es) limit mfl [0..<unat e_count]
           (d2, f_lit A 0, f_lit A 0) = Inr (d3, pm, loff)"
    using scan_search_total[OF _ n, of d2 0 A "map (stored_float A) es" limit mfl
            "f_lit A 0" "f_lit A 0"]
    by blast
  define d4 where "d4 = d3\<lparr>m_e_cb := flush (m_e_cb d3), m_x_cb := flush (m_x_cb d3),
                             m_y_cb := flush (m_y_cb d3)\<rparr>"
  have sc: "scan A d s s_len =
      (if f_le A pm (f_of_u32 A 50)
       then Some (Inr \<lparr>found_flag = 0, offset_out = None, consumed_out = s_len, detector = d4\<rparr>)
       else Some (Inr \<lparr>found_flag = 1, offset_out = Some loff, consumed_out = s_len,
                        detector = d4\<rparr>))"
    unfolding scan_def Let_def using fill fw nz pk ss a
    by (simp add: peek_count e_count_def[symmetric] d2_def[symmetric]
          limit_def[symmetric] mfl_def[symmetric] d4_def[symmetric])
  have d2f: "m_lth_state d2 = HIGH" "m_lth_count d2 = 0"
    "m_fcch_burst_len d2 = m_fcch_burst_len d" "m_sample_rate d2 = m_sample_rate d"
    by (simp_all add: d2_def low_to_high_init_def f1)
  have ss': "scan_search A s (map (stored_float A) es)
                (f_of_d A (d_mul A (d_lit A (7 / 10))
                   (d_div A (foldl (\<lambda>s e. d_add A s (d_of_f A e)) (d_lit A 0) es)
                      (d_of_u32 A (of_nat (length es))))))
                (f_to_u32 A (f_mul A (f_lit A 100)
                   (f_div A (m_sample_rate d) (f_of_d A (d_lit A GSM_RATE)))))
                [0..<length es] (d2, f_lit A 0, f_lit A 0) = Inr (d3, pm, loff)"
    using ss unfolding limit_def mfl_def sm ecw[symmetric] ec .
  show ?thesis
  proof (cases "f_le A pm (f_of_u32 A 50)")
    case True
    then have "scan A d s s_len = Some (Inr \<lparr>found_flag = 0, offset_out = None,
        consumed_out = s_len, detector = d4\<rparr>)"
      using sc by simp
    then show ?thesis using d2f ss' True by fastforce
  next
    case False
    then have "scan A d s s_len = Some (Inr \<lparr>found_flag = 1, offset_out = Some loff,
        consumed_out = s_len, detector = d4\<rparr>)"
      using sc by simp
    then show ?thesis using d2f ss' False by fastforce
  qed
qed

lemma fresh_ready: "scan_ready fresh_detector"
  by (simp add: scan_ready_def fresh_detector_def det_inv_def cb_inv_def cb_loose_def
        used_def aligned_def capacity_def data_available_def)

text \<open>
  Claim C9.  Called between two scans (the detector well formed, fewer than \<open>L + D\<close>
  samples left in the sample ring, the error ring empty: the state after construction and
  after every scan) on an array of \<open>s_len\<close> samples, \<^verbatim>\<open>scan\<close> returns.  Its filling loop ends
  with \<open>len = s_len\<close>, and what it did is the adaptive filter run over the stream of the
  samples left in the ring followed by all \<open>s_len\<close> samples of the array, as the ring stores
  them: the weights, the gain and the error average of the detector are those at the end
  of that run, the sample ring holds the samples the run left over, fewer than \<open>L + D\<close> (so
  every sample of the stream either went through a filter step, which produced one error,
  or is still in the ring), \<^verbatim>\<open>sum\<close> is the sum of the normalised errors of the run, and (when
  the error ring has room for them) the error ring followed by the pending batch holds
  these errors in order.
  \<^verbatim>\<open>*consumed\<close> is \<open>s_len\<close> whether the result is 0 or 1, the filter state returned is the
  one at the end of the filling loop, and the detector is again in a state between two
  scans.
\<close>

theorem scan_consumes_all:
  assumes "scan_ready d" and "length s = unat s_len"
  shows "\<exists>d1 batch sm es res.
           scan_fill A s s_len d [] (d_lit A 0) 0 = Some (Inr (d1, batch, sm, s_len))
           \<and> filter_run A (m_p d) (m_w_len d) (m_D d) (m_w_vec d, m_G d, m_e d)
                (ring_complex A (m_x_cb d) @ map (stored_complex A) s)
               = (es, (m_w_vec d1, m_G d1, m_e d1), ring_complex A (m_x_cb d1))
           \<and> unat (data_available (m_x_cb d1)) < unat (m_w_len d) + unat (m_D d)
           \<and> length es + unat (data_available (m_x_cb d1))
                = unat (data_available (m_x_cb d)) + unat s_len
           \<and> sm = foldl (\<lambda>s e. d_add A s (d_of_f A e)) (d_lit A 0) es
           \<and> (length es \<le> unat (capacity (m_e_cb d))
                \<longrightarrow> ring_floats A (m_e_cb d1) @ map (stored_float A) batch
                      = map (stored_float A) es)
           \<and> scan A d s s_len = Some (Inr res) \<and> consumed_out res = s_len
           \<and> (found_flag res = 0 \<or> found_flag res = 1)
           \<and> m_w_vec (detector res) = m_w_vec d1 \<and> m_G (detector res) = m_G d1
           \<and> m_e (detector res) = m_e d1
           \<and> scan_ready (detector res)"
proof -
  have inv: "det_inv d"
    and short: "unat (data_available (m_x_cb d)) < unat (m_w_len d) + unat (m_D d)"
    and e0: "data_available (m_e_cb d) = 0"
    using assms(1) by (simp_all add: scan_ready_def)
  have b0: "length ([] :: 'a list) < E_BATCH_SIZE" by (simp add: E_BATCH_SIZE_def)
  have z: "(0 :: u32) \<le> s_len" by simp
  from scan_fill_run[OF inv short assms(2) z b0, of A "d_lit A 0"]
  obtain d1 batch sm es where
    fill: "scan_fill A s s_len d [] (d_lit A 0) 0 = Some (Inr (d1, batch, sm, s_len))"
    and i1: "det_inv d1"
    and s1: "unat (data_available (m_x_cb d1)) < unat (m_w_len d1) + unat (m_D d1)"
    and f1: "m_w_len d1 = m_w_len d" "m_D d1 = m_D d"
    and run: "filter_run A (m_p d) (m_w_len d) (m_D d) (m_w_vec d, m_G d, m_e d)
                (ring_complex A (m_x_cb d) @ map (stored_complex A) s)
               = (es, (m_w_vec d1, m_G d1, m_e d1), ring_complex A (m_x_cb d1))"
    and sm: "sm = foldl (\<lambda>s e. d_add A s (d_of_f A e)) (d_lit A 0) es"
    and cnt: "unat (data_available (m_e_cb d1)) + length batch
                \<le> unat (data_available (m_e_cb d)) + length ([] :: 'a list) + length es"
    and room: "unat (data_available (m_e_cb d)) + length ([] :: 'a list) + length es
                  \<le> unat (capacity (m_e_cb d))
                \<longrightarrow> ring_floats A (m_e_cb d1) @ map (stored_float A) batch
                      = ring_floats A (m_e_cb d) @ map (stored_float A) ([] @ es)"
    by auto
  have rf0: "ring_floats A (m_e_cb d) = []"
    using e0 by (metis length_0_conv ring_floats_length unat_0)
  define n where "n = unat (data_available (m_x_cb d)) + unat s_len"
  have ln: "length (ring_complex A (m_x_cb d) @ map (stored_complex A) s) = n"
    by (simp add: n_def assms(2))
  from filter_run_rest[OF run]
  have rest: "ring_complex A (m_x_cb d1)
      = drop (length es) (ring_complex A (m_x_cb d) @ map (stored_complex A) s)"
    and le: "length es = length (ring_complex A (m_x_cb d) @ map (stored_complex A) s)
      - min (length (ring_complex A (m_x_cb d) @ map (stored_complex A) s))
            (unat (m_w_len d) + unat (m_D d) - 1)"
    by blast+
  have le': "length es = n - min n (unat (m_w_len d) + unat (m_D d) - 1)"
    using le unfolding ln .
  have "length (ring_complex A (m_x_cb d1)) = n - length es"
    using arg_cong[OF rest, of length] unfolding length_drop ln .
  then have "length es + unat (data_available (m_x_cb d1)) = n"
    using le' by simp
  then have tot: "length es + unat (data_available (m_x_cb d1))
      = unat (data_available (m_x_cb d)) + unat s_len"
    by (simp add: n_def)
  have "length es = unat (data_available (m_x_cb d)) + unat s_len
      - min (unat (data_available (m_x_cb d)) + unat s_len)
            (unat (m_w_len d) + unat (m_D d) - 1)"
    using le' by (simp add: n_def)
  then have "length es \<le> unat s_len" using short by (simp add: min_def split: if_splits)
  then have c1: "unat (data_available (m_e_cb d1)) + length batch \<le> unat s_len"
    using cnt e0 by simp
  from scan_after_fill[OF fill i1 s1 c1 assms(2)] obtain res where
    res: "scan A d s s_len = Some (Inr res)" "consumed_out res = s_len"
      "found_flag res = 0 \<or> found_flag res = 1" "scan_ready (detector res)"
      "m_w_vec (detector res) = m_w_vec d1" "m_G (detector res) = m_G d1"
      "m_e (detector res) = m_e d1"
    by blast
  have room': "length es \<le> unat (capacity (m_e_cb d))
                \<longrightarrow> ring_floats A (m_e_cb d1) @ map (stored_float A) batch
                      = map (stored_float A) es"
    using room e0 rf0 by simp
  have s1': "unat (data_available (m_x_cb d1)) < unat (m_w_len d) + unat (m_D d)"
    using s1 f1 by simp
  show ?thesis
    by (rule exI[of _ d1], rule exI[of _ batch], rule exI[of _ sm], rule exI[of _ es],
        rule exI[of _ res])
      (intro conjI, (fact fill run s1' tot sm room' res)+)
qed

subsection \<open>A scan over an impulse\<close>

lemma sample_roundtrip:
  "xc_of_bits (xc_bits (Fin 0, Fin 0)) = (Fin 0, Fin 0)"
  "xc_of_bits (xc_bits (Fin (1 / 4), Fin 0)) = (Fin (1 / 4), Fin 0)"
  by (simp_all add: xc_of_bits_def xc_bits_def)

lemma error_roundtrip:
  "Fin (real_of_int (sint (word_of_int (x_fixed 16 (Fin 0)) :: u32)) / 2 ^ 16) = Fin 0"
  "Fin (real_of_int (sint (word_of_int (x_fixed 16 (Fin (1377 / 1024))) :: u32)) / 2 ^ 16)
     = Fin (1377 / 1024)"
  by simp_all

lemma fresh_det_inv: "det_inv fresh_detector"
  using fresh_ready by (simp add: scan_ready_def)

lemma impulse_written:
  "\<exists>x_cb. cb_write (m_x_cb fresh_detector) (complex_bytes x_arith impulse_input) 121
             = Inr (x_cb, 121)
      \<and> impulse_state 0 0 1 (fresh_detector\<lparr>m_x_cb := x_cb\<rparr>)"
proof -
  let ?x = "m_x_cb fresh_detector"
  have x: "cb_inv ?x" "m_overwrite ?x = 0" "m_item_size ?x = 8"
    using fresh_det_inv by (simp_all add: det_inv_def)
  have sp: "space_available ?x = 8192" and av: "data_available ?x = 0"
    and em: "cb_contents ?x = []"
    by (simp_all add: fresh_detector_def space_available_def data_available_def
          cb_contents_def cb_peek_def)
  have tw: "to_write ?x 121 = 121" by (simp add: to_write_def sp)
  have al: "unat (m_item_size ?x) dvd used ?x"
    using x by (intro aligned_dvd) simp_all
  have len: "length impulse_input = 121" by (simp add: impulse_input_def)
  have ls: "unat (to_write ?x 121) * unat (m_item_size ?x)
      \<le> length (complex_bytes x_arith impulse_input)"
    by (simp add: tw x(3) len)
  have tws: "to_write ?x 121 \<le> space_available ?x" by (simp add: tw sp)
  from cb_write_contents[OF x(1) al tws ls] obtain x_cb where
    wr: "cb_write ?x (complex_bytes x_arith impulse_input) 121 = Inr (x_cb, 121)"
    and x1: "cb_inv x_cb" "m_buf_len x_cb = m_buf_len ?x" "m_item_size x_cb = m_item_size ?x"
      "m_overwrite x_cb = m_overwrite ?x"
    and a1: "unat (data_available x_cb) = 121"
    and c1: "cb_contents x_cb = complex_bytes x_arith impulse_input"
    by (auto simp: tw av em x(3) len)
  have "ring_items x_cb = map (\<lambda>x. le_bytes 8 (xc_bits x)) impulse_input"
    using c1 a1 x1(3) x(3)
    by (intro items_of_contents) (simp_all add: complex_bytes_def x_arith_simps len)
  then have "ring_complex x_arith x_cb
      = map (\<lambda>x. xc_of_bits (xc_bits x)) impulse_input"
    by (simp add: ring_complex_def x_arith_simps comp_def)
  also have "\<dots> = impulse_input"
    by (rule map_idI) (auto simp: impulse_input_def sample_roundtrip)
  finally have rc: "ring_complex x_arith x_cb = impulse_input" .
  have "det_inv (fresh_detector\<lparr>m_x_cb := x_cb\<rparr>)"
    using fresh_det_inv x1 x by (intro det_inv_x_cb) simp_all
  then have "impulse_state 0 0 1 (fresh_detector\<lparr>m_x_cb := x_cb\<rparr>)"
    using rc by (simp add: impulse_state_def) (simp add: fresh_detector_def)
  then show ?thesis using wr by blast
qed

lemma impulse_finite:
  assumes "x \<in> set (take n (drop k impulse_input))"
  shows "\<exists>a b. x = (Fin a, Fin b)"
proof -
  have "x \<in> set impulse_input"
    using assms by (meson in_set_takeD in_set_dropD)
  then have "x = (Fin 0, Fin 0) \<or> x = (Fin (1 / 4), Fin 0)"
    by (auto simp: impulse_input_def)
  then show ?thesis by blast
qed

lemma map_upt_const:
  assumes "\<And>i. i < n \<Longrightarrow> f i = c"
  shows "map f [0..<n] = replicate n c"
  using assms by (auto simp: list_eq_iff_nth_eq)

lemma impulse_common:
  assumes st: "impulse_state k e g d" and k: "k \<le> 100"
  shows "window x_arith d = take 21 (drop k impulse_input)"
    and "filter_output x_arith d = (Fin 0, Fin 0)"
    and "\<exists>y_cb. next_norm_error x_arith d =
       Inr (0,
            Some (if x_gt (x_div (window_energy x_arith d) (Fin 17)) (Fin (1 / 10 ^ 20))
                  then x_div (x_add (x_mul (Fin (3 / 4)) (Fin e))
                                    (x_mul (Fin (1 / 4)) (xc_norm (filter_error x_arith d))))
                         (x_div (window_energy x_arith d) (Fin 17))
                  else Fin 0),
            d\<lparr>m_G := (if x_gt (window_energy x_arith d) (Fin (1 / 10 ^ 10))
                      then x_div (Fin 1) (window_energy x_arith d) else Fin g),
              m_e := x_add (x_mul (Fin (3 / 4)) (Fin e))
                           (x_mul (Fin (1 / 4)) (xc_norm (filter_error x_arith d))),
              m_w_vec := next_weights x_arith d, m_y_cb := y_cb,
              m_x_cb := fst (purge (m_x_cb d) 1)\<rparr>)
       \<and> (length (next_weights x_arith d) = 17 \<longrightarrow>
            det_inv (d\<lparr>m_G := G', m_e := e', m_w_vec := next_weights x_arith d, m_y_cb := y_cb,
                        m_x_cb := fst (purge (m_x_cb d) 1)\<rparr>))
       \<and> ring_complex x_arith (fst (purge (m_x_cb d) 1)) = drop (Suc k) impulse_input"
proof -
  have inv: "det_inv d" and f: "m_w_len d = 17" "m_D d = 4" "m_p d = Fin (1 / 4)"
    "m_e d = Fin e" "m_G d = Fin g" "m_w_vec d = replicate 17 (Fin 0, Fin 0)"
    and rc: "ring_complex x_arith (m_x_cb d) = drop k impulse_input"
    using st by (simp_all add: impulse_state_def)
  have len: "length impulse_input = 121" by (simp add: impulse_input_def)
  have "length (ring_complex x_arith (m_x_cb d)) = 121 - k" using rc len by simp
  then have avn: "unat (data_available (m_x_cb d)) = 121 - k" by simp
  then have av: "unat (m_w_len d) + unat (m_D d) \<le> unat (data_available (m_x_cb d))"
    using k by (simp add: f)
  show win: "window x_arith d = take 21 (drop k impulse_input)"
    by (simp add: window_def f rc)
  have fin: "\<forall>x \<in> set (take 21 (drop k impulse_input)). \<exists>a b. x = (Fin a, Fin b)"
    using impulse_finite by blast
  have "17 \<le> length (take 21 (drop k impulse_input))" using k len by simp
  from output_zeros[OF _ this fin, of 17]
  show "filter_output x_arith d = (Fin 0, Fin 0)"
    by (simp add: filter_output_def win f x_arith_simps)
  have x: "cb_inv (m_x_cb d)" using inv by (simp add: det_inv_def)
  have pos: "0 < unat (data_available (m_x_cb d))" using avn k by simp
  have tl: "ring_complex x_arith (fst (purge (m_x_cb d) 1)) = drop (Suc k) impulse_input"
    using purge_complex[OF x pos, of x_arith] rc by (simp add: drop_Suc tl_drop)
  from nlms_step_full[OF inv av, of x_arith] obtain y_cb w where
    st': "next_norm_error x_arith d =
       Inr (0,
            Some (if f_gt x_arith (f_div x_arith (window_energy x_arith d)
                                     (f_of_u32 x_arith (m_w_len d)))
                       (f_lit x_arith (1 / 10 ^ 20))
                  then f_div x_arith
                         (f_add x_arith (f_mul x_arith (f_sub x_arith (f_lit x_arith 1) (m_p d))
                                           (m_e d))
                            (f_mul x_arith (m_p d) (c_norm x_arith (filter_error x_arith d))))
                         (f_div x_arith (window_energy x_arith d) (f_of_u32 x_arith (m_w_len d)))
                  else f_lit x_arith 0),
            d\<lparr>m_G := (if f_gt x_arith (window_energy x_arith d) (f_lit x_arith (1 / 10 ^ 10))
                      then f_div x_arith (f_lit x_arith 1) (window_energy x_arith d)
                      else m_G d),
              m_e := f_add x_arith (f_mul x_arith (f_sub x_arith (f_lit x_arith 1) (m_p d))
                                      (m_e d))
                       (f_mul x_arith (m_p d) (c_norm x_arith (filter_error x_arith d))),
              m_w_vec := w, m_y_cb := y_cb, m_x_cb := fst (purge (m_x_cb d) 1)\<rparr>)"
    and w: "w = next_weights x_arith d"
    and y: "cb_inv y_cb" "m_buf_size y_cb = m_buf_size (m_y_cb d)"
      "m_buf_len y_cb = m_buf_len (m_y_cb d)" "m_item_size y_cb = m_item_size (m_y_cb d)"
      "m_overwrite y_cb = m_overwrite (m_y_cb d)"
    by blast
  have di: "length (next_weights x_arith d) = 17 \<longrightarrow>
            det_inv (d\<lparr>m_G := G', m_e := e', m_w_vec := next_weights x_arith d, m_y_cb := y_cb,
                        m_x_cb := fst (purge (m_x_cb d) 1)\<rparr>)"
    using step_state_inv[OF inv _ y, where w = "next_weights x_arith d" and G = G' and e = e']
    by (simp add: f)
  have "next_norm_error x_arith d =
       Inr (0,
            Some (if x_gt (x_div (window_energy x_arith d) (Fin 17)) (Fin (1 / 10 ^ 20))
                  then x_div (x_add (x_mul (Fin (3 / 4)) (Fin e))
                                    (x_mul (Fin (1 / 4)) (xc_norm (filter_error x_arith d))))
                         (x_div (window_energy x_arith d) (Fin 17))
                  else Fin 0),
            d\<lparr>m_G := (if x_gt (window_energy x_arith d) (Fin (1 / 10 ^ 10))
                      then x_div (Fin 1) (window_energy x_arith d) else Fin g),
              m_e := x_add (x_mul (Fin (3 / 4)) (Fin e))
                           (x_mul (Fin (1 / 4)) (xc_norm (filter_error x_arith d))),
              m_w_vec := next_weights x_arith d, m_y_cb := y_cb,
              m_x_cb := fst (purge (m_x_cb d) 1)\<rparr>)"
    using st' w by (simp add: x_arith_simps f x_sub_def)
  then show "\<exists>y_cb. next_norm_error x_arith d =
       Inr (0,
            Some (if x_gt (x_div (window_energy x_arith d) (Fin 17)) (Fin (1 / 10 ^ 20))
                  then x_div (x_add (x_mul (Fin (3 / 4)) (Fin e))
                                    (x_mul (Fin (1 / 4)) (xc_norm (filter_error x_arith d))))
                         (x_div (window_energy x_arith d) (Fin 17))
                  else Fin 0),
            d\<lparr>m_G := (if x_gt (window_energy x_arith d) (Fin (1 / 10 ^ 10))
                      then x_div (Fin 1) (window_energy x_arith d) else Fin g),
              m_e := x_add (x_mul (Fin (3 / 4)) (Fin e))
                           (x_mul (Fin (1 / 4)) (xc_norm (filter_error x_arith d))),
              m_w_vec := next_weights x_arith d, m_y_cb := y_cb,
              m_x_cb := fst (purge (m_x_cb d) 1)\<rparr>)
       \<and> (length (next_weights x_arith d) = 17 \<longrightarrow>
            det_inv (d\<lparr>m_G := G', m_e := e', m_w_vec := next_weights x_arith d, m_y_cb := y_cb,
                        m_x_cb := fst (purge (m_x_cb d) 1)\<rparr>))
       \<and> ring_complex x_arith (fst (purge (m_x_cb d) 1)) = drop (Suc k) impulse_input"
    using di tl by blast
qed

lemma silent_step:
  assumes st: "impulse_state k e g d" and k: "k \<le> 100"
    and w17: "take 17 (drop k impulse_input) = replicate 17 (Fin 0, Fin 0)"
    and w20: "drop k impulse_input ! 20 = (Fin a, Fin 0)"
  shows "\<exists>d'. next_norm_error x_arith d = Inr (0, Some (Fin 0), d')
           \<and> impulse_state (Suc k) (3 / 4 * e + 1 / 4 * (a * a)) g d'"
proof -
  let ?ws = "take 21 (drop k impulse_input)"
  note c = impulse_common[OF st k]
  have f: "m_w_len d = 17" "m_D d = 4" "m_G d = Fin g"
    "m_w_vec d = replicate 17 (Fin 0, Fin 0)"
    using st by (simp_all add: impulse_state_def)
  have t17: "take 17 ?ws = replicate 17 (Fin 0, Fin 0)" using w17 by simp
  have en: "window_energy x_arith d = Fin 0"
    by (simp add: window_energy_def c(1) f w17 vectornorm2_def x_arith_simps energy_zeros)
  have "?ws ! 20 = (Fin a, Fin 0)" using w20 by simp
  then have er: "filter_error x_arith d = (Fin a, Fin 0)"
    by (simp add: filter_error_def c(1,2) f x_arith_simps xc_sub_def x_sub_def)
  have low: "?ws ! (16 - i) = (Fin 0, Fin 0)" if "i < 17" for i
  proof -
    have "?ws ! (16 - i) = take 17 ?ws ! (16 - i)" using that by simp
    then show ?thesis unfolding t17 using that by simp
  qed
  have u: "unat (17 :: u32) = 17" by simp
  have nw: "next_weights x_arith d = replicate 17 (Fin 0, Fin 0)"
    unfolding next_weights_def Let_def c(1) er en f u x_arith_simps
  proof (rule map_upt_const)
    fix i :: nat assume "i < 17"
    then show "xc_add (replicate 17 (Fin 0, Fin 0) ! i)
        (xc_mul (xc_scale (if x_gt (Fin 0) (Fin (1 / 10 ^ 10)) then x_div (Fin 1) (Fin 0)
                           else Fin g) (xc_conj (Fin a, Fin 0)))
           (?ws ! (17 - 1 - i))) = (Fin 0, Fin 0)"
      using low[of i] by (simp add: xc_add_def xc_mul_def xc_scale_def xc_conj_def x_sub_def)
  qed
  from c(3)[where G' = "Fin g" and e' = "Fin (3 / 4 * e + 1 / 4 * (a * a))"] obtain y_cb where
    s: "next_norm_error x_arith d =
       Inr (0, Some (Fin 0),
            d\<lparr>m_G := Fin g, m_e := Fin (3 / 4 * e + 1 / 4 * (a * a)),
              m_w_vec := replicate 17 (Fin 0, Fin 0), m_y_cb := y_cb,
              m_x_cb := fst (purge (m_x_cb d) 1)\<rparr>)"
    and i: "det_inv (d\<lparr>m_G := Fin g, m_e := Fin (3 / 4 * e + 1 / 4 * (a * a)),
              m_w_vec := replicate 17 (Fin 0, Fin 0), m_y_cb := y_cb,
              m_x_cb := fst (purge (m_x_cb d) 1)\<rparr>)"
    and r: "ring_complex x_arith (fst (purge (m_x_cb d) 1)) = drop (Suc k) impulse_input"
    by (auto simp: en er nw)
  have "impulse_state (Suc k) (3 / 4 * e + 1 / 4 * (a * a)) g
          (d\<lparr>m_G := Fin g, m_e := Fin (3 / 4 * e + 1 / 4 * (a * a)),
              m_w_vec := replicate 17 (Fin 0, Fin 0), m_y_cb := y_cb,
              m_x_cb := fst (purge (m_x_cb d) 1)\<rparr>)"
    using st i r by (simp add: impulse_state_def)
  then show ?thesis using s by blast
qed

lemma loud_step:
  assumes st: "impulse_state 100 e g d"
  shows "\<exists>d'. next_norm_error x_arith d = Inr (0, Some (Fin (204 * e)), d')
           \<and> impulse_state 101 (3 / 4 * e) 16 d'"
proof -
  let ?ws = "take 21 (drop 100 impulse_input)"
  note c = impulse_common[OF st order_refl]
  have f: "m_w_len d = 17" "m_D d = 4" "m_G d = Fin g"
    "m_w_vec d = replicate 17 (Fin 0, Fin 0)"
    using st by (simp_all add: impulse_state_def)
  have ws: "?ws = replicate 16 (Fin 0, Fin 0) @ (Fin (1 / 4), Fin 0) # replicate 4 (Fin 0, Fin 0)"
    by (simp add: impulse_input_def)
  have t17: "take 17 ?ws = replicate 16 (Fin 0, Fin 0) @ [(Fin (1 / 4), Fin 0)]"
    unfolding ws by simp
  have t17': "take 17 (drop 100 impulse_input)
      = replicate 16 (Fin 0, Fin 0) @ [(Fin (1 / 4), Fin 0)]"
    by (simp add: impulse_input_def)
  have en: "window_energy x_arith d = Fin (1 / 16)"
    by (simp add: window_energy_def c(1) f t17' vectornorm2_def x_arith_simps energy_zeros)
  have "?ws ! 20 = (Fin 0, Fin 0)" unfolding ws by (simp add: nth_append)
  then have er: "filter_error x_arith d = (Fin 0, Fin 0)"
    by (simp add: filter_error_def c(1,2) f x_arith_simps xc_sub_def x_sub_def)
  have fin: "\<exists>a b. ?ws ! (16 - i) = (Fin a, Fin b)" for i
  proof -
    have "16 - i < length ?ws" unfolding ws by simp
    then have "?ws ! (16 - i) \<in> set ?ws" by (rule nth_mem)
    then show ?thesis by (rule impulse_finite)
  qed
  have u: "unat (17 :: u32) = 17" by simp
  have nw: "next_weights x_arith d = replicate 17 (Fin 0, Fin 0)"
    unfolding next_weights_def Let_def c(1) er en f u x_arith_simps
  proof (rule map_upt_const)
    fix i :: nat assume "i < 17"
    obtain a b where "?ws ! (16 - i) = (Fin a, Fin b)" using fin[of i] by blast
    then show "xc_add (replicate 17 (Fin 0, Fin 0) ! i)
        (xc_mul (xc_scale (if x_gt (Fin (1 / 16)) (Fin (1 / 10 ^ 10))
                           then x_div (Fin 1) (Fin (1 / 16)) else Fin g)
                   (xc_conj (Fin 0, Fin 0)))
           (?ws ! (17 - 1 - i))) = (Fin 0, Fin 0)"
      using \<open>i < 17\<close>
      by (simp add: xc_add_def xc_mul_def xc_scale_def xc_conj_def x_sub_def)
  qed
  from c(3)[where G' = "Fin 16" and e' = "Fin (3 / 4 * e)"] obtain y_cb where
    s: "next_norm_error x_arith d =
       Inr (0, Some (Fin (204 * e)),
            d\<lparr>m_G := Fin 16, m_e := Fin (3 / 4 * e),
              m_w_vec := replicate 17 (Fin 0, Fin 0), m_y_cb := y_cb,
              m_x_cb := fst (purge (m_x_cb d) 1)\<rparr>)"
    and i: "det_inv (d\<lparr>m_G := Fin 16, m_e := Fin (3 / 4 * e),
              m_w_vec := replicate 17 (Fin 0, Fin 0), m_y_cb := y_cb,
              m_x_cb := fst (purge (m_x_cb d) 1)\<rparr>)"
    and r: "ring_complex x_arith (fst (purge (m_x_cb d) 1)) = drop 101 impulse_input"
    by (auto simp: en er nw)
  have "impulse_state 101 (3 / 4 * e) 16
          (d\<lparr>m_G := Fin 16, m_e := Fin (3 / 4 * e),
              m_w_vec := replicate 17 (Fin 0, Fin 0), m_y_cb := y_cb,
              m_x_cb := fst (purge (m_x_cb d) 1)\<rparr>)"
    using st i r by (simp add: impulse_state_def)
  then show ?thesis using s by blast
qed

lemma impulse_quiet:
  assumes "k \<le> 95"
  shows "take 17 (drop k impulse_input) = replicate 17 (Fin 0, Fin 0)"
    and "drop k impulse_input ! 20 = (Fin 0, Fin 0)"
  using assms by (simp_all add: impulse_input_def nth_append min_def)

lemma drain_step:
  assumes "next_norm_error A d = Inr (0, Some err, d')" and "length batch + 1 < 512"
  shows "drain A d batch sm = drain A d' (batch @ [err]) (d_add A sm (d_of_f A err))"
  using assms by (subst drain.simps) (simp add: E_BATCH_SIZE_def Let_def)

lemma drain_silent:
  assumes "impulse_state k 0 1 d" and "k + n \<le> 96" and "length batch + n < 512"
  shows "\<exists>d'. impulse_state (k + n) 0 1 d'
           \<and> drain x_arith d batch (Fin q) = drain x_arith d' (batch @ replicate n (Fin 0)) (Fin q)"
  using assms
proof (induction n arbitrary: k d batch)
  case 0
  then show ?case by auto
next
  case (Suc n)
  have k: "k \<le> 95" "k \<le> 100" using Suc.prems(2) by simp_all
  from silent_step[OF Suc.prems(1) k(2) impulse_quiet[OF k(1)]] obtain d1 where
    s: "next_norm_error x_arith d = Inr (0, Some (Fin 0), d1)"
    and i: "impulse_state (Suc k) 0 1 d1"
    by auto
  have "drain x_arith d batch (Fin q) = drain x_arith d1 (batch @ [Fin 0]) (Fin q)"
    using drain_step[OF s, of batch "Fin q"] Suc.prems(3) by (simp add: x_arith_simps)
  moreover from Suc.IH[OF i, of "batch @ [Fin 0]"] Suc.prems(2,3) obtain d' where
    "impulse_state (Suc k + n) 0 1 d'"
    "drain x_arith d1 (batch @ [Fin 0]) (Fin q)
       = drain x_arith d' ((batch @ [Fin 0]) @ replicate n (Fin 0)) (Fin q)"
    by auto
  ultimately show ?case by (auto simp: replicate_app_Cons_same)
qed

lemma drain_impulse:
  assumes "impulse_state 0 0 1 d"
  shows "\<exists>d'. impulse_state 101 (81 / 16384) 16 d'
           \<and> drain x_arith d [] (Fin 0)
               = Some (Inr (d', replicate 100 (Fin 0) @ [Fin (1377 / 1024)], Fin (1377 / 1024)))"
proof -
  from drain_silent[OF assms, of 96 "[]" 0] obtain d96 where
    i96: "impulse_state 96 0 1 d96"
    and r0: "drain x_arith d [] (Fin 0) = drain x_arith d96 (replicate 96 (Fin 0)) (Fin 0)"
    by auto
  have w96: "take 17 (drop 96 impulse_input) = replicate 17 (Fin 0, Fin 0)"
      "drop 96 impulse_input ! 20 = (Fin (1 / 4), Fin 0)"
    and w97: "take 17 (drop 97 impulse_input) = replicate 17 (Fin 0, Fin 0)"
      "drop 97 impulse_input ! 20 = (Fin 0, Fin 0)"
    and w98: "take 17 (drop 98 impulse_input) = replicate 17 (Fin 0, Fin 0)"
      "drop 98 impulse_input ! 20 = (Fin 0, Fin 0)"
    and w99: "take 17 (drop 99 impulse_input) = replicate 17 (Fin 0, Fin 0)"
      "drop 99 impulse_input ! 20 = (Fin 0, Fin 0)"
    by (simp_all add: impulse_input_def nth_append)
  from silent_step[OF i96 _ w96] obtain d97 where
    s96: "next_norm_error x_arith d96 = Inr (0, Some (Fin 0), d97)"
    and i97: "impulse_state 97 (1 / 64) 1 d97"
    by auto
  from silent_step[OF i97 _ w97] obtain d98 where
    s97: "next_norm_error x_arith d97 = Inr (0, Some (Fin 0), d98)"
    and i98: "impulse_state 98 (3 / 256) 1 d98"
    by auto
  from silent_step[OF i98 _ w98] obtain d99 where
    s98: "next_norm_error x_arith d98 = Inr (0, Some (Fin 0), d99)"
    and i99: "impulse_state 99 (9 / 1024) 1 d99"
    by auto
  from silent_step[OF i99 _ w99] obtain d100 where
    s99: "next_norm_error x_arith d99 = Inr (0, Some (Fin 0), d100)"
    and i100: "impulse_state 100 (27 / 4096) 1 d100"
    by auto
  from loud_step[OF i100] obtain d101 where
    s100: "next_norm_error x_arith d100 = Inr (0, Some (Fin (1377 / 1024)), d101)"
    and i101: "impulse_state 101 (81 / 16384) 16 d101"
    by auto
  have f: "m_w_len d101 = 17" "m_D d101 = 4"
    and rc: "ring_complex x_arith (m_x_cb d101) = drop 101 impulse_input"
    using i101 by (simp_all add: impulse_state_def)
  have "length (ring_complex x_arith (m_x_cb d101)) = 20"
    unfolding rc by (simp add: impulse_input_def)
  then have av: "unat (data_available (m_x_cb d101)) = 20" by simp
  have "next_norm_error x_arith d101 = Inr (1, None, d101)"
    using short_window[of d101 x_arith] by (simp add: f av)
  then have stop: "drain x_arith d101 b s = Some (Inr (d101, b, s))" for b s
    by (subst drain.simps) simp
  have "drain x_arith d [] (Fin 0)
      = drain x_arith d97 (replicate 96 (Fin 0) @ [Fin 0]) (Fin 0)"
    using r0 drain_step[OF s96, of "replicate 96 (Fin 0)" "Fin 0"] by (simp add: x_arith_simps)
  also have "\<dots> = drain x_arith d98 (replicate 96 (Fin 0) @ [Fin 0, Fin 0]) (Fin 0)"
    using drain_step[OF s97, of "replicate 96 (Fin 0) @ [Fin 0]" "Fin 0"]
    by (simp add: x_arith_simps)
  also have "\<dots> = drain x_arith d99 (replicate 96 (Fin 0) @ [Fin 0, Fin 0, Fin 0]) (Fin 0)"
    using drain_step[OF s98, of "replicate 96 (Fin 0) @ [Fin 0, Fin 0]" "Fin 0"]
    by (simp add: x_arith_simps)
  also have "\<dots> = drain x_arith d100 (replicate 96 (Fin 0) @ [Fin 0, Fin 0, Fin 0, Fin 0])
                      (Fin 0)"
    using drain_step[OF s99, of "replicate 96 (Fin 0) @ [Fin 0, Fin 0, Fin 0]" "Fin 0"]
    by (simp add: x_arith_simps)
  also have "\<dots> = drain x_arith d101
                      (replicate 96 (Fin 0) @ [Fin 0, Fin 0, Fin 0, Fin 0, Fin (1377 / 1024)])
                      (Fin (1377 / 1024))"
    using drain_step[OF s100, of "replicate 96 (Fin 0) @ [Fin 0, Fin 0, Fin 0, Fin 0]" "Fin 0"]
    by (simp add: x_arith_simps)
  also have "\<dots> = Some (Inr (d101,
                      replicate 96 (Fin 0) @ [Fin 0, Fin 0, Fin 0, Fin 0, Fin (1377 / 1024)],
                      Fin (1377 / 1024)))"
    by (rule stop)
  also have "replicate 96 (Fin 0) @ [Fin 0, Fin 0, Fin 0, Fin 0, Fin (1377 / 1024)]
      = replicate 100 (Fin 0) @ [Fin (1377 / 1024 :: real)]"
  proof -
    have "replicate 100 (Fin 0) = replicate 96 (Fin 0) @ replicate 4 (Fin 0)"
      by (simp add: replicate_add[symmetric])
    moreover have "replicate 4 (Fin 0) = [Fin 0, Fin 0, Fin 0, Fin 0]" by code_simp
    ultimately show ?thesis by simp
  qed
  finally show ?thesis using i101 by blast
qed

lemma search_low_step:
  assumes "\<not> f_gt A (a ! i) limit" and "0 < mfl" and "m_lth_state d = LOW"
  shows "scan_search A s a limit mfl (i # is) (d, pm, loff)
           = scan_search A s a limit mfl is (d\<lparr>m_lth_count := m_lth_count d + 1\<rparr>, f_lit A 0, loff)"
proof -
  have "\<not> mfl \<le> 0" using assms(2) by (simp add: word_gt_0)
  then show ?thesis using assms(1,3) by (simp add: low_to_high_def LOW_def HIGH_def)
qed

lemma search_low_run:
  assumes "m_lth_state d = LOW" and "\<forall>j. i \<le> j \<and> j < i + n \<longrightarrow> \<not> f_gt A (a ! j) limit"
    and "0 < mfl" and "0 < n"
  shows "scan_search A s a limit mfl ([i..<i + n] @ rest) (d, pm, loff)
           = scan_search A s a limit mfl rest
               (d\<lparr>m_lth_count := m_lth_count d + of_nat n\<rparr>, f_lit A 0, loff)"
  using assms(1,2,4)
proof (induction n arbitrary: i d pm loff)
  case 0
  then show ?case by simp
next
  case (Suc n)
  have up: "[i..<i + Suc n] = i # [Suc i..<Suc i + n]" by (simp add: upt_conv_Cons)
  have lo: "\<not> f_gt A (a ! i) limit" using Suc.prems(2) by simp
  let ?d1 = "d\<lparr>m_lth_count := m_lth_count d + 1\<rparr>"
  have st: "scan_search A s a limit mfl ([i..<i + Suc n] @ rest) (d, pm, loff)
      = scan_search A s a limit mfl ([Suc i..<Suc i + n] @ rest) (?d1, f_lit A 0, loff)"
    unfolding up using search_low_step[OF lo assms(3) Suc.prems(1)] by simp
  show ?case
  proof (cases "n = 0")
    case True
    then show ?thesis using st by simp
  next
    case False
    have ih: "scan_search A s a limit mfl ([Suc i..<Suc i + n] @ rest) (?d1, f_lit A 0, loff)
        = scan_search A s a limit mfl rest
            (?d1\<lparr>m_lth_count := m_lth_count ?d1 + of_nat n\<rparr>, f_lit A 0, loff)"
      using Suc.prems(1,2) False by (intro Suc.IH) simp_all
    have cnt: "?d1\<lparr>m_lth_count := m_lth_count ?d1 + of_nat n\<rparr>
        = d\<lparr>m_lth_count := m_lth_count d + of_nat (Suc n)\<rparr>"
      by (simp add: ac_simps)
    show ?thesis unfolding st ih cnt ..
  qed
qed

lemma dft_zeros: "dft_bin (replicate n (Fin 0, Fin 0)) k = (Fin 0, Fin 0)"
proof -
  have z: "foldl xc_add (Fin 0, Fin 0) (replicate m (Fin 0, Fin 0)) = (Fin 0, Fin 0)" for m
    by (induction m) (simp_all add: xc_add_def)
  have "map (\<lambda>m. xc_mul (replicate n (Fin 0, Fin 0) ! m)
                    (Fin (cos (2 * pi * real k * real m / 1024)),
                     Fin (- sin (2 * pi * real k * real m / 1024)))) [0..<n]
      = replicate n (Fin 0, Fin 0)"
    by (rule map_upt_const) (simp add: xc_mul_def x_sub_def)
  then show ?thesis by (simp add: dft_bin_def z)
qed

lemma strongest_zeros: "strongest (replicate n (Fin 0)) i (Fin 0, j) = (Fin 0, j)"
  by (induction n arbitrary: i) simp_all

lemma tone_zeros: "x_tone (Fin r) (replicate n (Fin 0, Fin 0)) = (Fin (r / 1024), NaN)"
proof -
  have p: "map (\<lambda>k. xc_norm (dft_bin (replicate n (Fin 0, Fin 0)) k)) [0..<1024]
      = replicate 1024 (Fin 0)"
    by (rule map_upt_const) (simp add: dft_zeros)
  have s: "foldl x_add (Fin 0) (replicate m (Fin 0)) = Fin 0" for m
    by (induction m) simp_all
  have "replicate 1024 (Fin 0 :: xreal) = Fin 0 # replicate 1023 (Fin 0)"
    by (simp add: replicate_Suc[symmetric] del: replicate_Suc)
  then have m: "strongest (replicate 1024 (Fin 0)) 0 (Fin (- 1), 0) = (Fin 0, 0)"
    by (simp add: strongest_zeros)
  show ?thesis
    unfolding x_tone_def p Let_def s m by (simp add: x_sub_def)
qed

lemma fill_impulse:
  "\<exists>d1. impulse_state 101 (81 / 16384) 16 d1
     \<and> scan_fill x_arith impulse_input 121 fresh_detector [] (Fin 0) 0
         = Some (Inr (d1, replicate 100 (Fin 0) @ [Fin (1377 / 1024)], Fin (1377 / 1024), 121))"
proof -
  from impulse_written obtain x_cb where
    wr: "cb_write (m_x_cb fresh_detector) (complex_bytes x_arith impulse_input) 121
           = Inr (x_cb, 121)"
    and i0: "impulse_state 0 0 1 (fresh_detector\<lparr>m_x_cb := x_cb\<rparr>)"
    by blast
  from drain_impulse[OF i0] obtain d1 where
    i1: "impulse_state 101 (81 / 16384) 16 d1"
    and dr: "drain x_arith (fresh_detector\<lparr>m_x_cb := x_cb\<rparr>) [] (Fin 0)
               = Some (Inr (d1, replicate 100 (Fin 0) @ [Fin (1377 / 1024)], Fin (1377 / 1024)))"
    by blast
  have stop: "scan_fill x_arith impulse_input 121 d1 b s 121 = Some (Inr (d1, b, s, 121))" for b s
    by (subst scan_fill.simps) simp
  have "scan_fill x_arith impulse_input 121 fresh_detector [] (Fin 0) 0
      = Some (Inr (d1, replicate 100 (Fin 0) @ [Fin (1377 / 1024)], Fin (1377 / 1024), 121))"
    by (subst scan_fill.simps) (simp add: wr dr stop)
  then show ?thesis using i1 by blast
qed

lemma errors_written:
  assumes "m_e_cb d = m_e_cb fresh_detector"
  shows "\<exists>e_cb. cb_write (m_e_cb d)
                   (float_bytes x_arith (replicate 100 (Fin 0) @ [Fin (1377 / 1024)])) 101
                 = Inr (e_cb, 101)
           \<and> cb_inv e_cb \<and> m_overwrite e_cb = 0 \<and> m_item_size e_cb = 4
           \<and> data_available e_cb = 101
           \<and> map ((\<lambda>bs. f_of_bits x_arith (le_word bs)) \<circ> (!) (ring_items e_cb)) [0..<101]
               = replicate 100 (Fin 0) @ [Fin (1377 / 1024)]"
proof -
  let ?e = "m_e_cb fresh_detector"
  let ?batch = "replicate 100 (Fin 0) @ [Fin (1377 / 1024 :: real)]"
  have e: "cb_inv ?e" "m_overwrite ?e = 0" "m_item_size ?e = 4"
    using fresh_det_inv by (simp_all add: det_inv_def)
  have sp: "space_available ?e = 1015808" and av: "data_available ?e = 0"
    and em: "cb_contents ?e = []"
    by (simp_all add: fresh_detector_def space_available_def data_available_def
          cb_contents_def cb_peek_def)
  have tw: "to_write ?e 101 = 101" by (simp add: to_write_def sp)
  have al: "unat (m_item_size ?e) dvd used ?e"
    using e by (intro aligned_dvd) simp_all
  have ls: "unat (to_write ?e 101) * unat (m_item_size ?e) \<le> length (float_bytes x_arith ?batch)"
    by (simp add: tw e(3))
  have tws: "to_write ?e 101 \<le> space_available ?e" by (simp add: tw sp)
  from cb_write_contents[OF e(1) al tws ls] obtain e_cb where
    wr: "cb_write ?e (float_bytes x_arith ?batch) 101 = Inr (e_cb, 101)"
    and e1: "cb_inv e_cb" "m_item_size e_cb = m_item_size ?e" "m_overwrite e_cb = m_overwrite ?e"
    and a1: "data_available e_cb = 101" "unat (data_available e_cb) = 101"
    and c1: "cb_contents e_cb = float_bytes x_arith ?batch"
    by (auto simp: tw av em e(3))
  have it: "ring_items e_cb = map (\<lambda>x. le_bytes 4 (word_of_int (x_fixed 16 x) :: u32)) ?batch"
    using c1 a1 e1(2) e(3)
    by (intro items_of_contents) (simp_all add: float_bytes_def x_arith_simps)
  have "map ((\<lambda>bs. f_of_bits x_arith (le_word bs)) \<circ> (!) (ring_items e_cb)) [0..<101]
      = map (\<lambda>bs. f_of_bits x_arith (le_word bs)) (ring_items e_cb)"
    using map_nth[of "ring_items e_cb"] a1(2)
    by (metis (no_types) map_map ring_items_length)
  also have "\<dots> = map (\<lambda>x. Fin (real_of_int (sint (word_of_int (x_fixed 16 x) :: u32)) / 2 ^ 16))
                       ?batch"
    by (simp add: it x_arith_simps comp_def)
  also have "\<dots> = ?batch"
    by (rule map_idI) (use error_roundtrip in auto)
  finally show ?thesis
    using wr e1 a1 e unfolding assms by simp
qed

lemma search_impulse:
  assumes d: "m_lth_state d = HIGH" "m_lth_count d = 0" "m_fcch_burst_len d = 148"
    "m_sample_rate d = Fin GSM_RATE"
  shows "\<exists>d'. scan_search x_arith impulse_input (replicate 100 (Fin 0) @ [Fin (1377 / 1024)])
                 (Fin (7 / 10 * (1377 / 1024 / 101))) 100 [0..<101] (d, Fin 0, Fin 0)
               = Inr (d', NaN, Fin (GSM_RATE / 1024))
           \<and> d' = d\<lparr>m_lth_state := HIGH, m_lth_count := 1\<rparr>"
proof -
  let ?a = "replicate 100 (Fin 0) @ [Fin (1377 / 1024 :: real)]"
  let ?limit = "Fin (7 / 10 * (1377 / 1024 / 101))"
  let ?d1 = "d\<lparr>m_lth_state := LOW, m_lth_count := 1\<rparr>"
  let ?d2 = "?d1\<lparr>m_lth_count := m_lth_count ?d1 + of_nat 99\<rparr>"
  have up: "[0..<101] = 0 # ([1..<1 + 99] @ [100])"
  proof -
    have "[0..<101] = 0 # [1..<101]" by (simp add: upt_conv_Cons)
    moreover have "[1..<101] = [1..<100] @ [100]"
      using upt_Suc_append[of 1 100] by simp
    ultimately show ?thesis by simp
  qed
  have low: "\<not> f_gt x_arith (?a ! j) ?limit" if "j < 100" for j
    using that by (simp add: x_arith_simps nth_append)
  have first: "scan_search x_arith impulse_input ?a ?limit 100 (0 # is) (d, Fin 0, Fin 0)
      = scan_search x_arith impulse_input ?a ?limit 100 is (?d1, Fin 0, Fin 0)" for "is"
    using low[of 0] d(1) by (simp add: low_to_high_def x_arith_simps LOW_def HIGH_def)
  have run: "scan_search x_arith impulse_input ?a ?limit 100 ([1..<1 + 99] @ [100])
               (?d1, Fin 0, Fin 0)
      = scan_search x_arith impulse_input ?a ?limit 100 [100] (?d2, f_lit x_arith 0, Fin 0)"
    by (rule search_low_run) (use low in simp_all)
  have d2: "?d2 = d\<lparr>m_lth_state := LOW, m_lth_count := 100\<rparr>" by (simp add: d(2))
  have region: "take 100 impulse_input = replicate 100 (Fin 0, Fin 0)"
    by (simp add: impulse_input_def)
  have last: "scan_search x_arith impulse_input ?a ?limit 100 [100]
               (d\<lparr>m_lth_state := LOW, m_lth_count := 100\<rparr>, Fin 0, Fin 0)
      = Inr (d\<lparr>m_lth_state := HIGH, m_lth_count := 1\<rparr>, NaN, Fin (GSM_RATE / 1024))"
    by (simp add: low_to_high_def freq_detect_def x_arith_simps LOW_def HIGH_def FFT_SIZE_def
          d(3,4) region tone_zeros Let_def nth_append impulse_input_def)
  show ?thesis
    unfolding up first run d2 using last by (simp add: x_arith_simps)
qed

lemma scan_impulse:
  "\<exists>d'. scan x_arith fresh_detector impulse_input 121
      = Some (Inr \<lparr>found_flag = 1, offset_out = Some (Fin (GSM_RATE / 1024)), consumed_out = 121,
                    detector = d'\<rparr>)"
proof -
  let ?batch = "replicate 100 (Fin 0) @ [Fin (1377 / 1024 :: real)]"
  from fill_impulse obtain d1 where
    i1: "impulse_state 101 (81 / 16384) 16 d1"
    and fill: "scan_fill x_arith impulse_input 121 fresh_detector [] (Fin 0) 0
         = Some (Inr (d1, ?batch, Fin (1377 / 1024), 121))"
    by blast
  have f1: "m_e_cb d1 = m_e_cb fresh_detector" "m_sample_rate d1 = Fin GSM_RATE"
    "m_fcch_burst_len d1 = 148" "m_lth_count d1 = 0" "m_lth_state d1 = HIGH"
    using i1 by (simp_all add: impulse_state_def)
  from errors_written[OF f1(1)] obtain e_cb where
    wr: "cb_write (m_e_cb d1) (float_bytes x_arith ?batch) 101 = Inr (e_cb, 101)"
    and e1: "cb_inv e_cb" "data_available e_cb = 101"
    and a: "map ((\<lambda>bs. f_of_bits x_arith (le_word bs)) \<circ> (!) (ring_items e_cb)) [0..<101]
               = ?batch"
    by blast
  have a': "map ((\<lambda>bs. Fin (real_of_int (sint (le_word bs :: u32)) / 2 ^ 16))
                   \<circ> (!) (ring_items e_cb)) [0..<101] = ?batch"
    using a by (simp add: x_arith_simps)
  define d2 where "d2 = low_to_high_init (d1\<lparr>m_e_cb := e_cb\<rparr>)"
  have pk: "all_right (map (peek_item e_cb) [0..<101])
        = Inr (map (\<lambda>i. ring_items e_cb ! i) [0..<101])"
    by (intro all_right_map) (simp add: peek_item_live[OF e1(1)] e1(2))
  have "m_lth_state d2 = HIGH" "m_lth_count d2 = 0" "m_fcch_burst_len d2 = 148"
    "m_sample_rate d2 = Fin GSM_RATE"
    by (simp_all add: d2_def low_to_high_init_def f1)
  from search_impulse[OF this] obtain d3 where
    ss: "scan_search x_arith impulse_input ?batch (Fin (7 / 10 * (1377 / 1024 / 101))) 100
           [0..<101] (d2, Fin 0, Fin 0) = Inr (d3, NaN, Fin (GSM_RATE / 1024))"
    by blast
  have mfl: "x_to_u32 (x_mul (Fin 100) (x_div (Fin GSM_RATE) (Fin GSM_RATE))) = 100"
    by (simp add: GSM_RATE_def)
  have lim: "x_mul (Fin (7 / 10)) (x_div (Fin (1377 / 1024)) (Fin 101))
      = Fin (7 / 10 * (1377 / 1024 / 101))"
    by simp
  have rate: "m_sample_rate fresh_detector = Fin GSM_RATE" by (simp add: fresh_detector_def)
  have "scan x_arith fresh_detector impulse_input 121
      = Some (Inr \<lparr>found_flag = 1, offset_out = Some (Fin (GSM_RATE / 1024)), consumed_out = 121,
                    detector = d3\<lparr>m_e_cb := flush (m_e_cb d3), m_x_cb := flush (m_x_cb d3),
                                   m_y_cb := flush (m_y_cb d3)\<rparr>\<rparr>)"
    unfolding scan_def Let_def x_arith_simps rate mfl
    using fill wr pk ss a'
    by (simp add: peek_count e1(2) lim d2_def[symmetric])
  then show ?thesis by blast
qed

subsection \<open>A scan over silence\<close>

lemma zero_step:
  "filter_step x_arith (Fin (1 / 4)) 17 4 (replicate 17 (Fin 0, Fin 0), Fin 1, Fin 0)
       (replicate 21 (Fin 0, Fin 0))
     = (Fin 0, (replicate 17 (Fin 0, Fin 0), Fin 1, Fin 0))"
proof -
  have u: "unat (17 :: u32) = 17" "unat (4 :: u32) = 4" by simp_all
  have fin: "\<forall>x \<in> set (replicate 21 (Fin 0, Fin 0) :: xcomplex list). \<exists>a b. x = (Fin a, Fin b)"
    by simp
  have y: "foldl (\<lambda>y i. xc_add y (xc_mul (xc_conj (replicate 17 (Fin 0, Fin 0) ! i))
                                     (replicate 21 (Fin 0, Fin 0) ! (17 - 1 - i))))
             (Fin 0, Fin 0) [0..<17] = (Fin 0, Fin 0)"
    by (rule output_zeros[OF _ _ fin]) simp_all
  have w: "map (\<lambda>i. xc_add (replicate 17 (Fin 0, Fin 0) ! i)
                 (xc_mul (xc_scale (Fin 1) (xc_conj (Fin 0, Fin 0)))
                    (replicate 21 (Fin 0, Fin 0) ! (16 - i)))) [0..<17]
      = replicate 17 (Fin 0, Fin 0)"
    by (rule map_upt_const)
      (simp add: xc_add_def xc_mul_def xc_scale_def xc_conj_def x_sub_def)
  show ?thesis
    unfolding filter_step_def Let_def prod.case u x_arith_simps vectornorm2_def
    using y w
    by (simp add: energy_zeros xc_sub_def x_sub_def)
qed

lemma zero_run:
  "filter_run x_arith (Fin (1 / 4)) 17 4 (replicate 17 (Fin 0, Fin 0), Fin 1, Fin 0)
       (replicate (n + 20) (Fin 0, Fin 0))
     = (replicate n (Fin 0), (replicate 17 (Fin 0, Fin 0), Fin 1, Fin 0),
        replicate 20 (Fin 0, Fin 0))"
proof (induction n)
  case 0
  have "filter_run x_arith (Fin (1 / 4)) 17 4 (replicate 17 (Fin 0, Fin 0), Fin 1, Fin 0)
       (replicate 20 (Fin 0, Fin 0))
     = ([], (replicate 17 (Fin 0, Fin 0), Fin 1, Fin 0), replicate 20 (Fin 0, Fin 0))"
    by (rule filter_run_short) simp
  then show ?case by simp
next
  case (Suc n)
  have "filter_run x_arith (Fin (1 / 4)) 17 4 (replicate 17 (Fin 0, Fin 0), Fin 1, Fin 0)
       (replicate (Suc n + 20) (Fin 0, Fin 0))
     = (Fin 0 # replicate n (Fin 0), (replicate 17 (Fin 0, Fin 0), Fin 1, Fin 0),
        replicate 20 (Fin 0, Fin 0))"
  proof (rule filter_run_step)
    show "unat (17 :: u32) + unat (4 :: u32) \<le> length (replicate (Suc n + 20) (Fin 0, Fin 0))"
      by simp
    show "replicate (Suc n + 20) (Fin 0, Fin 0) \<noteq> []" by simp
    have "take (unat (17 :: u32) + unat (4 :: u32)) (replicate (Suc n + 20) (Fin 0, Fin 0))
        = replicate 21 (Fin 0, Fin 0)"
      by (simp add: min_def)
    then show "filter_step x_arith (Fin (1 / 4)) 17 4 (replicate 17 (Fin 0, Fin 0), Fin 1, Fin 0)
        (take (unat (17 :: u32) + unat (4 :: u32)) (replicate (Suc n + 20) (Fin 0, Fin 0)))
        = (Fin 0, (replicate 17 (Fin 0, Fin 0), Fin 1, Fin 0))"
      using zero_step by simp
    show "filter_run x_arith (Fin (1 / 4)) 17 4 (replicate 17 (Fin 0, Fin 0), Fin 1, Fin 0)
        (tl (replicate (Suc n + 20) (Fin 0, Fin 0)))
        = (replicate n (Fin 0), (replicate 17 (Fin 0, Fin 0), Fin 1, Fin 0),
           replicate 20 (Fin 0, Fin 0))"
      using Suc by (simp add: add.commute)
  qed
  then show ?case by simp
qed

lemma search_silent:
  assumes d: "m_lth_state d = HIGH" "m_lth_count d = 0"
  shows "scan_search x_arith s (replicate 101 (Fin 0)) (Fin 0) 100 [0..<101] (d, Fin 0, Fin 0)
           = Inr (d\<lparr>m_lth_state := LOW, m_lth_count := 101\<rparr>, Fin 0, Fin 0)"
proof -
  let ?a = "replicate 101 (Fin 0 :: xreal)"
  let ?d1 = "d\<lparr>m_lth_state := LOW, m_lth_count := 1\<rparr>"
  have up: "[0..<101] = 0 # ([1..<1 + 100] @ [])"
    by (simp add: upt_conv_Cons)
  have low: "\<not> f_gt x_arith (?a ! j) (Fin 0)" if "j < 101" for j
    using that by (simp add: x_arith_simps)
  have first: "scan_search x_arith s ?a (Fin 0) 100 (0 # is) (d, Fin 0, Fin 0)
      = scan_search x_arith s ?a (Fin 0) 100 is (?d1, Fin 0, Fin 0)" for "is"
    using low[of 0] d(1) by (simp add: low_to_high_def x_arith_simps LOW_def HIGH_def)
  have run: "scan_search x_arith s ?a (Fin 0) 100 ([1..<1 + 100] @ []) (?d1, Fin 0, Fin 0)
      = scan_search x_arith s ?a (Fin 0) 100 []
          (?d1\<lparr>m_lth_count := m_lth_count ?d1 + of_nat 100\<rparr>, f_lit x_arith 0, Fin 0)"
    by (rule search_low_run) (simp_all add: x_arith_simps)
  show ?thesis
    unfolding up first run by (simp add: x_arith_simps d(2))
qed

lemma scan_silent:
  "\<exists>res. scan x_arith fresh_detector silent_input 121 = Some (Inr res)
     \<and> found_flag res = 0 \<and> offset_out res = None \<and> consumed_out res = 121"
proof -
  have l: "length silent_input = unat (121 :: u32)" by (simp add: silent_input_def)
  have "length (ring_complex x_arith (m_x_cb fresh_detector)) = 0"
    by (simp add: fresh_detector_def data_available_def)
  then have rc0: "ring_complex x_arith (m_x_cb fresh_detector) = []"
    by (simp only: length_0_conv)
  have st: "map (stored_complex x_arith) silent_input = replicate (101 + 20) (Fin 0, Fin 0)"
    by (simp add: silent_input_def stored_complex_def x_arith_simps sample_roundtrip)
  have run: "filter_run x_arith (m_p fresh_detector) (m_w_len fresh_detector)
                (m_D fresh_detector)
                (m_w_vec fresh_detector, m_G fresh_detector, m_e fresh_detector)
                (ring_complex x_arith (m_x_cb fresh_detector)
                   @ map (stored_complex x_arith) silent_input)
      = (replicate 101 (Fin 0), (replicate 17 (Fin 0, Fin 0), Fin 1, Fin 0),
         replicate 20 (Fin 0, Fin 0))"
    unfolding rc0 st using zero_run[of 101] by (simp add: fresh_detector_def)
  have room: "length (replicate 101 (Fin 0 :: xreal)) \<le> unat (capacity (m_e_cb fresh_detector))"
    by (simp add: capacity_def fresh_detector_def)
  have ne: "replicate 101 (Fin 0 :: xreal) \<noteq> []" by simp
  have se: "map (stored_float x_arith) (replicate 101 (Fin 0)) = replicate 101 (Fin 0)"
    by (simp add: stored_float_def x_arith_simps)
  have sum: "foldl x_add (Fin 0) (replicate m (Fin 0)) = Fin 0" for m
    by (induction m) simp_all
  have lim: "f_of_d x_arith (d_mul x_arith (d_lit x_arith (7 / 10))
                   (d_div x_arith (foldl (\<lambda>s e. d_add x_arith s (d_of_f x_arith e))
                       (d_lit x_arith 0) (replicate 101 (Fin 0)))
                      (d_of_u32 x_arith (of_nat (length (replicate 101 (Fin 0 :: xreal)))))))
      = Fin 0"
    by (simp add: x_arith_simps sum)
  have mfl: "f_to_u32 x_arith (f_mul x_arith (f_lit x_arith 100)
                   (f_div x_arith (m_sample_rate fresh_detector)
                      (f_of_d x_arith (d_lit x_arith GSM_RATE)))) = 100"
    by (simp add: x_arith_simps fresh_detector_def GSM_RATE_def)
  from scan_by_search[OF fresh_ready l run room ne] obtain d2 d3 pm loff res where
    d2: "m_lth_state d2 = HIGH" "m_lth_count d2 = 0"
    and ss: "scan_search x_arith silent_input (replicate 101 (Fin 0)) (Fin 0) 100 [0..<101]
               (d2, Fin 0, Fin 0) = Inr (d3, pm, loff)"
    and res: "scan x_arith fresh_detector silent_input 121 = Some (Inr res)"
      "consumed_out res = 121"
      "found_flag res = (if f_le x_arith pm (f_of_u32 x_arith 50) then 0 else 1)"
      "offset_out res = (if f_le x_arith pm (f_of_u32 x_arith 50) then None else Some loff)"
    unfolding se lim mfl by (auto simp: x_arith_simps)
  have "pm = Fin 0" using ss search_silent[OF d2, of silent_input] by simp
  then have "f_le x_arith pm (f_of_u32 x_arith 50)" by (simp add: x_arith_simps)
  then show ?thesis using res by auto
qed

text \<open>
  Claim C9, two instances with a fresh detector and 121 samples.  On the impulse input the
  filter runs 101 steps, the search loop walks the 101 errors and the scan reports a
  detection; on the silent input the filter runs 101 steps with error 0, the search loop
  finds no region and the scan reports none.  Both set \<^verbatim>\<open>*consumed\<close> to 121.
\<close>

theorem scan_consumes_all_witness:
  "scan_ready fresh_detector \<and> length impulse_input = unat (121 :: u32)
   \<and> length silent_input = unat (121 :: u32)
   \<and> (\<exists>d1 es res.
         scan_fill x_arith impulse_input 121 fresh_detector [] (Fin 0) 0
           = Some (Inr (d1, replicate 100 (Fin 0) @ [Fin (1377 / 1024)], Fin (1377 / 1024), 121))
         \<and> filter_run x_arith (Fin (1 / 4)) 17 4 (replicate 17 (Fin 0, Fin 0), Fin 1, Fin 0)
              impulse_input
             = (es, (m_w_vec d1, m_G d1, m_e d1), ring_complex x_arith (m_x_cb d1))
         \<and> length es = 101 \<and> length es \<le> unat (capacity (m_e_cb fresh_detector))
         \<and> ring_floats x_arith (m_e_cb d1)
               @ map (stored_float x_arith) (replicate 100 (Fin 0) @ [Fin (1377 / 1024)])
             = map (stored_float x_arith) es
         \<and> ring_complex x_arith (m_x_cb d1) = drop 101 impulse_input
         \<and> scan x_arith fresh_detector impulse_input 121 = Some (Inr res)
         \<and> consumed_out res = 121 \<and> found_flag res = 1
         \<and> m_w_vec (detector res) = m_w_vec d1)
   \<and> (\<exists>d1 batch sm res.
         scan_fill x_arith silent_input 121 fresh_detector [] (Fin 0) 0
           = Some (Inr (d1, batch, sm, 121))
         \<and> filter_run x_arith (Fin (1 / 4)) 17 4 (replicate 17 (Fin 0, Fin 0), Fin 1, Fin 0)
              silent_input
             = (replicate 101 (Fin 0), (m_w_vec d1, m_G d1, m_e d1),
                ring_complex x_arith (m_x_cb d1))
         \<and> ring_floats x_arith (m_e_cb d1) @ map (stored_float x_arith) batch
             = map (stored_float x_arith) (replicate 101 (Fin 0))
         \<and> ring_complex x_arith (m_x_cb d1) = replicate 20 (Fin 0, Fin 0)
         \<and> scan x_arith fresh_detector silent_input 121 = Some (Inr res)
         \<and> consumed_out res = 121 \<and> found_flag res = 0
         \<and> m_w_vec (detector res) = m_w_vec d1)"
proof -
  have l: "length impulse_input = unat (121 :: u32)" by (simp add: impulse_input_def)
  have l2: "length silent_input = unat (121 :: u32)" by (simp add: silent_input_def)
  have "length (ring_complex x_arith (m_x_cb fresh_detector)) = 0"
    by (simp add: fresh_detector_def data_available_def)
  then have rc0: "ring_complex x_arith (m_x_cb fresh_detector) = []"
    by (simp only: length_0_conv)
  have a: "\<exists>d1 es res.
         scan_fill x_arith impulse_input 121 fresh_detector [] (Fin 0) 0
           = Some (Inr (d1, replicate 100 (Fin 0) @ [Fin (1377 / 1024)], Fin (1377 / 1024), 121))
         \<and> filter_run x_arith (Fin (1 / 4)) 17 4 (replicate 17 (Fin 0, Fin 0), Fin 1, Fin 0)
              impulse_input
             = (es, (m_w_vec d1, m_G d1, m_e d1), ring_complex x_arith (m_x_cb d1))
         \<and> length es = 101 \<and> length es \<le> unat (capacity (m_e_cb fresh_detector))
         \<and> ring_floats x_arith (m_e_cb d1)
               @ map (stored_float x_arith) (replicate 100 (Fin 0) @ [Fin (1377 / 1024)])
             = map (stored_float x_arith) es
         \<and> ring_complex x_arith (m_x_cb d1) = drop 101 impulse_input
         \<and> scan x_arith fresh_detector impulse_input 121 = Some (Inr res)
         \<and> consumed_out res = 121 \<and> found_flag res = 1
         \<and> m_w_vec (detector res) = m_w_vec d1"
  proof -
    from scan_consumes_all[OF fresh_ready l, of x_arith] obtain d1 batch sm es res where
      fill: "scan_fill x_arith impulse_input 121 fresh_detector [] (d_lit x_arith 0) 0
               = Some (Inr (d1, batch, sm, 121))"
      and run: "filter_run x_arith (m_p fresh_detector) (m_w_len fresh_detector)
                  (m_D fresh_detector)
                  (m_w_vec fresh_detector, m_G fresh_detector, m_e fresh_detector)
                  (ring_complex x_arith (m_x_cb fresh_detector)
                     @ map (stored_complex x_arith) impulse_input)
                 = (es, (m_w_vec d1, m_G d1, m_e d1), ring_complex x_arith (m_x_cb d1))"
      and room: "length es \<le> unat (capacity (m_e_cb fresh_detector))
                \<longrightarrow> ring_floats x_arith (m_e_cb d1) @ map (stored_float x_arith) batch
                      = map (stored_float x_arith) es"
      and res: "scan x_arith fresh_detector impulse_input 121 = Some (Inr res)"
        "consumed_out res = 121" "m_w_vec (detector res) = m_w_vec d1"
      by blast
    have st: "map (stored_complex x_arith) impulse_input = impulse_input"
      by (rule map_idI)
        (auto simp: impulse_input_def stored_complex_def x_arith_simps sample_roundtrip)
    have run': "filter_run x_arith (Fin (1 / 4)) 17 4
                  (replicate 17 (Fin 0, Fin 0), Fin 1, Fin 0) impulse_input
               = (es, (m_w_vec d1, m_G d1, m_e d1), ring_complex x_arith (m_x_cb d1))"
      using run unfolding rc0 st by (simp add: fresh_detector_def)
    from filter_run_rest[OF run']
    have rest: "ring_complex x_arith (m_x_cb d1) = drop (length es) impulse_input"
      and n: "length es = 101"
      by (simp_all add: impulse_input_def)
    have fill0: "scan_fill x_arith impulse_input 121 fresh_detector [] (Fin 0) 0
               = Some (Inr (d1, batch, sm, 121))"
      using fill by (simp add: x_arith_simps)
    from fill_impulse obtain d1' where
      fi: "scan_fill x_arith impulse_input 121 fresh_detector [] (Fin 0) 0
           = Some (Inr (d1', replicate 100 (Fin 0) @ [Fin (1377 / 1024)], Fin (1377 / 1024), 121))"
      by blast
    have b: "batch = replicate 100 (Fin 0) @ [Fin (1377 / 1024)]"
      and "d1' = d1"
      using fi unfolding fill0 by simp_all
    then have fill': "scan_fill x_arith impulse_input 121 fresh_detector [] (Fin 0) 0
           = Some (Inr (d1, replicate 100 (Fin 0) @ [Fin (1377 / 1024)], Fin (1377 / 1024), 121))"
      using fi by simp
    from scan_impulse res(1) have found: "found_flag res = 1" by auto
    have cap: "length es \<le> unat (capacity (m_e_cb fresh_detector))"
      using n by (simp add: capacity_def fresh_detector_def)
    have held: "ring_floats x_arith (m_e_cb d1)
               @ map (stored_float x_arith) (replicate 100 (Fin 0) @ [Fin (1377 / 1024)])
             = map (stored_float x_arith) es"
      using room cap unfolding b by blast
    show ?thesis
      using fill' run' n cap held rest res found by auto
  qed
  have b: "\<exists>d1 batch sm res.
         scan_fill x_arith silent_input 121 fresh_detector [] (Fin 0) 0
           = Some (Inr (d1, batch, sm, 121))
         \<and> filter_run x_arith (Fin (1 / 4)) 17 4 (replicate 17 (Fin 0, Fin 0), Fin 1, Fin 0)
              silent_input
             = (replicate 101 (Fin 0), (m_w_vec d1, m_G d1, m_e d1),
                ring_complex x_arith (m_x_cb d1))
         \<and> ring_floats x_arith (m_e_cb d1) @ map (stored_float x_arith) batch
             = map (stored_float x_arith) (replicate 101 (Fin 0))
         \<and> ring_complex x_arith (m_x_cb d1) = replicate 20 (Fin 0, Fin 0)
         \<and> scan x_arith fresh_detector silent_input 121 = Some (Inr res)
         \<and> consumed_out res = 121 \<and> found_flag res = 0
         \<and> m_w_vec (detector res) = m_w_vec d1"
  proof -
    from scan_consumes_all[OF fresh_ready l2, of x_arith] obtain d1 batch sm es res where
      fill: "scan_fill x_arith silent_input 121 fresh_detector [] (d_lit x_arith 0) 0
               = Some (Inr (d1, batch, sm, 121))"
      and run: "filter_run x_arith (m_p fresh_detector) (m_w_len fresh_detector)
                  (m_D fresh_detector)
                  (m_w_vec fresh_detector, m_G fresh_detector, m_e fresh_detector)
                  (ring_complex x_arith (m_x_cb fresh_detector)
                     @ map (stored_complex x_arith) silent_input)
                 = (es, (m_w_vec d1, m_G d1, m_e d1), ring_complex x_arith (m_x_cb d1))"
      and room: "length es \<le> unat (capacity (m_e_cb fresh_detector))
                \<longrightarrow> ring_floats x_arith (m_e_cb d1) @ map (stored_float x_arith) batch
                      = map (stored_float x_arith) es"
      and res: "scan x_arith fresh_detector silent_input 121 = Some (Inr res)"
        "consumed_out res = 121" "m_w_vec (detector res) = m_w_vec d1"
      by blast
    have st: "map (stored_complex x_arith) silent_input = silent_input"
      by (rule map_idI)
        (auto simp: silent_input_def stored_complex_def x_arith_simps sample_roundtrip)
    have run': "filter_run x_arith (Fin (1 / 4)) 17 4
                  (replicate 17 (Fin 0, Fin 0), Fin 1, Fin 0) silent_input
               = (es, (m_w_vec d1, m_G d1, m_e d1), ring_complex x_arith (m_x_cb d1))"
      using run unfolding rc0 st by (simp add: fresh_detector_def)
    have "silent_input = replicate (101 + 20) (Fin 0, Fin 0)" by (simp add: silent_input_def)
    then have z: "filter_run x_arith (Fin (1 / 4)) 17 4
                  (replicate 17 (Fin 0, Fin 0), Fin 1, Fin 0) silent_input
               = (replicate 101 (Fin 0), (replicate 17 (Fin 0, Fin 0), Fin 1, Fin 0),
                  replicate 20 (Fin 0, Fin 0))"
      using zero_run[of 101] by simp
    have "(es, (m_w_vec d1, m_G d1, m_e d1), ring_complex x_arith (m_x_cb d1))
        = (replicate 101 (Fin 0), (replicate 17 (Fin 0, Fin 0), Fin 1, Fin 0),
           replicate 20 (Fin 0, Fin 0))"
      using run'[symmetric] z by (rule trans)
    then have es: "es = replicate 101 (Fin 0)"
      and rest: "ring_complex x_arith (m_x_cb d1) = replicate 20 (Fin 0, Fin 0)"
      by simp_all
    from scan_silent res(1) have nf: "found_flag res = 0" by auto
    have fill': "scan_fill x_arith silent_input 121 fresh_detector [] (Fin 0) 0
               = Some (Inr (d1, batch, sm, 121))"
      using fill by (simp add: x_arith_simps)
    have "length es \<le> unat (capacity (m_e_cb fresh_detector))"
      using es by (simp add: capacity_def fresh_detector_def)
    with room have held: "ring_floats x_arith (m_e_cb d1) @ map (stored_float x_arith) batch
        = map (stored_float x_arith) (replicate 101 (Fin 0))"
      unfolding es by blast
    show ?thesis
      using fill' run' es held rest res nf by auto
  qed
  show ?thesis
    using fresh_ready l l2 a b by (intro conjI)
qed
end
